(* ===== verification/Prelude.thy ===== *)
theory Prelude
  imports Main "HOL-Library.Word"
begin

text \<open>
  Shared vocabulary of the development: Go's fixed-width integers, error values, the fragment of
  \<open>fmt.Sprintf\<close> the sources use, and the list and word lemmas that several components need.

  A Go slice of bytes is a \<open>byte list\<close>; \<open>nil\<close> and the empty slice are both \<open>[]\<close>, which every use in
  the sources treats alike (they only look at \<open>len\<close>). A function that returns \<open>(T, error)\<close> and whose
  value is ignored on error returns \<open>'a res\<close>.
\<close>

unbundle bit_operations_syntax

named_theorems eval_simps "equations that evaluate closed terms by the simplifier"

type_synonym byte = "8 word"
type_synonym uint32 = "32 word"
type_synonym uint64 = "64 word"

section \<open>Error values\<close>

text \<open>
  \<open>EOF\<close> and \<open>ErrUnexpectedEOF\<close> are the sentinels of package \<open>io\<close>, \<open>ErrExist\<close> the one of \<open>os\<close>;
  \<open>LibError\<close> is an error value produced outside the repository (the kernel, the network, an external
  package), known by its text only; \<open>Errorf\<close> is \<open>fmt.Errorf\<close> without and \<open>Wrap\<close> with a trailing
  \<open>: %w\<close> operand.
\<close>

datatype fmt_arg = D int | S string

datatype error =
    EOF
  | ErrUnexpectedEOF
  | ErrExist
  | LibError string
  | Errorf string "fmt_arg list"
  | Wrap string "fmt_arg list" error

type_synonym 'a res = "error + 'a"

text \<open>\<open>errors.Is\<close> walks the chain of wrapped errors.\<close>

fun errors_Is :: "error \<Rightarrow> error \<Rightarrow> bool" where
  "errors_Is (Wrap f as e) t \<longleftrightarrow> Wrap f as e = t \<or> errors_Is e t"
| "errors_Is e t \<longleftrightarrow> e = t"

lemma map_sum_id_Inr [simp]: "map_sum id f x = Inr y \<longleftrightarrow> (\<exists>z. x = Inr z \<and> y = f z)"
  by (cases x) auto

section \<open>Formatting\<close>

text \<open>Decimal digits of a number and the two verbs, \<open>%d\<close> and \<open>%s\<close>, that the sources print with.\<close>

definition digit_char :: "nat \<Rightarrow> char" where
  "digit_char d = char_of (48 + d)"

fun show_nat :: "nat \<Rightarrow> string" where
  "show_nat n = (if n < 10 then [digit_char n] else show_nat (n div 10) @ [digit_char (n mod 10)])"

declare show_nat.simps [simp del]

definition show_int :: "int \<Rightarrow> string" where
  "show_int i = (if i < 0 then CHR ''-'' # show_nat (nat (- i)) else show_nat (nat i))"

fun Sprintf :: "string \<Rightarrow> fmt_arg list \<Rightarrow> string" where
  "Sprintf [] as = []"
| "Sprintf [c] as = [c]"
| "Sprintf (c # v # cs) as =
     (if c = CHR ''%'' \<and> v = CHR ''d'' then
        (case as of D n # as' \<Rightarrow> show_int n @ Sprintf cs as' | _ \<Rightarrow> Sprintf cs as)
      else if c = CHR ''%'' \<and> v = CHR ''s'' then
        (case as of S s # as' \<Rightarrow> s @ Sprintf cs as' | _ \<Rightarrow> Sprintf cs as)
      else c # Sprintf (v # cs) as)"

text \<open>\<open>err.Error()\<close>, the text of an error.\<close>

fun error_string :: "error \<Rightarrow> string" where
  "error_string EOF = ''EOF''"
| "error_string ErrUnexpectedEOF = ''unexpected EOF''"
| "error_string ErrExist = ''file already exists''"
| "error_string (LibError s) = s"
| "error_string (Errorf f as) = Sprintf f as"
| "error_string (Wrap f as e) = Sprintf f as @ '': '' @ error_string e"

lemma digit_char_inj: "a < 10 \<Longrightarrow> b < 10 \<Longrightarrow> digit_char a = digit_char b \<Longrightarrow> a = b"
proof -
  assume "a < 10" "b < 10" "digit_char a = digit_char b"
  then have "(of_char (digit_char a) :: nat) = of_char (digit_char b)" by simp
  with \<open>a < 10\<close> \<open>b < 10\<close> show "a = b" by (simp add: digit_char_def take_bit_eq_mod)
qed

lemma show_nat_nonempty [simp]: "show_nat n \<noteq> []"
  by (subst show_nat.simps) simp

lemma show_nat_inj: "show_nat m = show_nat n \<Longrightarrow> m = n"
proof (induction m arbitrary: n rule: show_nat.induct)
  case (1 m)
  show ?case
  proof (cases "m < 10 \<or> n < 10")
    case True
    with "1.prems" show ?thesis
      by (auto simp: show_nat.simps [of m] show_nat.simps [of n] digit_char_inj
          dest: sym [of "[]"] split: if_splits)
  next
    case False
    with "1.prems" have "show_nat (m div 10) = show_nat (n div 10)"
      and d: "digit_char (m mod 10) = digit_char (n mod 10)"
      by (auto simp: show_nat.simps [of m] show_nat.simps [of n])
    with "1.IH" False have "m div 10 = n div 10" by auto
    moreover from d have "m mod 10 = n mod 10" by (intro digit_char_inj) auto
    ultimately show ?thesis by (metis div_mult_mod_eq)
  qed
qed

section \<open>Lists\<close>

text \<open>Overwriting \<open>buf[off:]\<close> with \<open>bs\<close>, as \<open>copy(buf[off:], bs)\<close> does when \<open>bs\<close> fits.\<close>

definition put_at :: "nat \<Rightarrow> 'a list \<Rightarrow> 'a list \<Rightarrow> 'a list" where
  "put_at off bs buf = take off buf @ bs @ drop (off + length bs) buf"

lemma length_put_at [simp]: "off + length bs \<le> length buf \<Longrightarrow> length (put_at off bs buf) = length buf"
  by (simp add: put_at_def)

text \<open>Go's built-in \<open>copy(dst, src)\<close>: as many elements as the shorter of the two holds.\<close>

definition go_copy :: "'a list \<Rightarrow> 'a list \<Rightarrow> 'a list" where
  "go_copy dst src = take (length dst) src @ drop (length src) dst"

lemma length_go_copy [simp]: "length (go_copy dst src) = length dst"
  by (auto simp: go_copy_def)

text \<open>Zero padding on the right up to a length.\<close>

definition pad_to :: "nat \<Rightarrow> byte list \<Rightarrow> byte list" where
  "pad_to n bs = bs @ replicate (n - length bs) 0"

lemma length_pad_to [simp]: "length (pad_to n bs) = max n (length bs)"
  by (simp add: pad_to_def)

lemma take_pad_to: "m \<le> length bs \<Longrightarrow> take m (pad_to n bs) = take m bs"
  by (simp add: pad_to_def)

lemma go_copy_zeros: "length src \<le> n \<Longrightarrow> go_copy (replicate n 0) src = pad_to n src"
  by (simp add: go_copy_def pad_to_def)

text \<open>Cutting a concatenation of equally long pieces at a multiple of their length.\<close>

lemma concat_uniform_nth:
  "\<forall>y\<in>set ys. length y = n \<Longrightarrow> i < length ys \<Longrightarrow> take n (drop (i * n) (concat ys)) = ys ! i"
proof (induction ys arbitrary: i)
  case Nil
  then show ?case by simp
next
  case (Cons y ys)
  then show ?case by (cases i) auto
qed

lemma length_concat_uniform: "\<forall>y\<in>set ys. length y = n \<Longrightarrow> length (concat ys) = length ys * n"
  by (induction ys) auto

section \<open>Words\<close>

lemma xor_cancel_right [simp]: "(a XOR c = b XOR c) = (a = (b :: 'a::len word))"
  by (metis bit.xor_self xor.assoc xor.right_neutral)

lemma xor_cancel_left [simp]: "(c XOR a = c XOR b) = (a = (b :: 'a::len word))"
  by (metis xor_cancel_right xor.commute)

lemma uint_less_int: "uint (w :: 'a::len word) < int n \<longleftrightarrow> unat w < n"
  by (metis of_nat_less_iff uint_nat)

lemma funpow_funpow: "(f ^^ m) ((f ^^ n) x) = (f ^^ (m + n)) x"
  by (simp add: funpow_add)

lemma inj_funpow: "inj f \<Longrightarrow> inj ((f :: 'a \<Rightarrow> 'a) ^^ n)"
  by (induction n) (simp_all add: inj_compose)

end
