(* ===== verification/Proto.thy ===== *)
theory Proto
  imports Prelude
begin

text \<open>
  Protocol-buffer messages on the wire. The package \<open>google.golang.org/protobuf\<close> is not part of the
  repository, so \<open>proto.Marshal\<close> and \<open>proto.Unmarshal\<close> are parameters of every definition that calls
  them; what the code relies on is the contract \<open>proto_codec\<close>. This theory states the contract and
  builds, from the published proto3 wire format (varint and length-delimited fields, default values left out, the
  last value of a scalar field wins), a concrete codec for records of such fields. The codecs of the repository's
  messages are instances of it (theory \<open>Wire\<close>).
\<close>

section \<open>The contract\<close>

locale proto_codec =
  fixes marshal :: "'m \<Rightarrow> byte list res" and unmarshal :: "byte list \<Rightarrow> 'm res"
  assumes unmarshal_marshal: "marshal m = Inr bs \<Longrightarrow> unmarshal bs = Inr m"
begin

lemma marshal_inj: "marshal m = Inr bs \<Longrightarrow> marshal m' = Inr bs \<Longrightarrow> m = m'"
  by (metis unmarshal_marshal sum.inject(2))

end

text \<open>Serialised messages are limited to 2 GiB.\<close>

locale bounded_codec = proto_codec marshal unmarshal
  for marshal :: "'m \<Rightarrow> byte list res" and unmarshal :: "byte list \<Rightarrow> 'm res" +
  assumes marshal_limit: "marshal m = Inr bs \<Longrightarrow> length bs < 2 ^ 31"
begin

lemma marshal_frame: "marshal m = Inr bs \<Longrightarrow> length bs < 2 ^ 32"
  using marshal_limit by fastforce

end

section \<open>Varints\<close>

fun varint :: "nat \<Rightarrow> byte list" where
  "varint n = (if n < 128 then [of_nat n] else of_nat (n mod 128 + 128) # varint (n div 128))"

declare varint.simps [simp del]

fun read_varint :: "byte list \<Rightarrow> (nat \<times> byte list) option" where
  "read_varint [] = None"
| "read_varint (b # bs) =
     (if unat b < 128 then Some (unat b, bs)
      else (case read_varint bs of None \<Rightarrow> None | Some (n, rest) \<Rightarrow> Some (unat b - 128 + 128 * n, rest)))"

lemma unat_byte: "n < 256 \<Longrightarrow> unat (of_nat n :: byte) = n"
  by (simp add: unsigned_of_nat take_bit_nat_eq_self)

lemma read_varint_varint [simp]: "read_varint (varint n @ rest) = Some (n, rest)"
proof (induction n rule: varint.induct)
  case (1 n)
  have "unat (of_nat (n mod 128 + 128) :: byte) = n mod 128 + 128" by (rule unat_byte) simp
  with 1 show ?case by (subst varint.simps) (simp add: unat_byte del: of_nat_add)
qed

lemma read_varint_length: "read_varint bs = Some (n, rest) \<Longrightarrow> length rest < length bs"
proof (induction bs arbitrary: n)
  case (Cons b bs)
  then show ?case by (auto split: if_splits option.splits)
qed simp

lemma length_varint: "0 < d \<Longrightarrow> n < 128 ^ d \<Longrightarrow> length (varint n) \<le> d"
proof (induction d arbitrary: n)
  case (Suc d)
  show ?case
  proof (cases "n < 128")
    case True
    then show ?thesis by (subst varint.simps) simp
  next
    case False
    with Suc.prems have "0 < d" by (cases d) auto
    moreover from Suc.prems have "n div 128 < 128 ^ d" by (simp add: less_mult_imp_div_less mult.commute)
    ultimately have "length (varint (n div 128)) \<le> d" by (rule Suc.IH)
    with False show ?thesis by (subst varint.simps) simp
  qed
qed simp

section \<open>Fields\<close>

datatype wire_value = VarintVal nat | BytesVal "byte list"

type_synonym fields = "(nat \<times> wire_value) list"

fun put_field :: "nat \<times> wire_value \<Rightarrow> byte list" where
  "put_field (num, VarintVal n) = varint (num * 8) @ varint n"
| "put_field (num, BytesVal b) = varint (num * 8 + 2) @ varint (length b) @ b"

definition put_fields :: "fields \<Rightarrow> byte list" where
  "put_fields fs = concat (map put_field fs)"

definition get_field :: "byte list \<Rightarrow> ((nat \<times> wire_value) \<times> byte list) option" where
  "get_field bs =
     (case read_varint bs of
        None \<Rightarrow> None
      | Some (key, bs) \<Rightarrow>
          (case read_varint bs of
             None \<Rightarrow> None
           | Some (n, bs) \<Rightarrow>
               if key mod 8 = 0 then Some ((key div 8, VarintVal n), bs)
               else if key mod 8 = 2 \<and> n \<le> length bs then Some ((key div 8, BytesVal (take n bs)), drop n bs)
               else None))"

lemma get_field_put [simp]: "get_field (put_field f @ rest) = Some (f, rest)"
proof (cases f rule: put_field.cases)
  case (2 num b)
  have "(num * 8 + 2) mod 8 = 2" "(num * 8 + 2) div 8 = num" by presburger+
  with 2 show ?thesis by (simp add: get_field_def del: add_2_eq_Suc')
qed (simp add: get_field_def)

lemma get_field_length: "get_field bs = Some (f, rest) \<Longrightarrow> length rest < length bs"
  by (fastforce simp: get_field_def split: option.splits if_splits dest!: read_varint_length)

function get_fields :: "byte list \<Rightarrow> fields option" where
  "get_fields bs =
     (if bs = [] then Some []
      else (case get_field bs of
              None \<Rightarrow> None
            | Some (f, rest) \<Rightarrow> map_option (\<lambda>fs. f # fs) (get_fields rest)))"
  by pat_completeness auto
termination
  by (relation "measure length") (auto dest: get_field_length)

declare get_fields.simps [simp del]

lemma put_field_nonempty [simp]: "put_field f \<noteq> []"
  by (cases f rule: put_field.cases) (simp_all add: varint.simps)

lemma get_fields_put [simp]: "get_fields (put_fields fs) = Some fs"
proof (induction fs)
  case (Cons f fs)
  then show ?case by (subst get_fields.simps) (simp add: put_fields_def)
qed (simp add: put_fields_def get_fields.simps)

section \<open>Scalar and repeated fields\<close>

definition varint_field :: "nat \<Rightarrow> nat \<Rightarrow> fields" where
  "varint_field num n = (if n = 0 then [] else [(num, VarintVal n)])"

definition bytes_field :: "nat \<Rightarrow> byte list \<Rightarrow> fields" where
  "bytes_field num b = (if b = [] then [] else [(num, BytesVal b)])"

definition repeated_field :: "nat \<Rightarrow> byte list list \<Rightarrow> fields" where
  "repeated_field num bs = map (\<lambda>b. (num, BytesVal b)) bs"

fun scan_varint :: "nat \<Rightarrow> nat \<Rightarrow> fields \<Rightarrow> nat" where
  "scan_varint num v [] = v"
| "scan_varint num v ((i, VarintVal n) # fs) = scan_varint num (if i = num then n else v) fs"
| "scan_varint num v ((i, BytesVal b) # fs) = scan_varint num v fs"

fun scan_bytes :: "nat \<Rightarrow> byte list \<Rightarrow> fields \<Rightarrow> byte list" where
  "scan_bytes num v [] = v"
| "scan_bytes num v ((i, BytesVal b) # fs) = scan_bytes num (if i = num then b else v) fs"
| "scan_bytes num v ((i, VarintVal n) # fs) = scan_bytes num v fs"

fun scan_repeated :: "nat \<Rightarrow> fields \<Rightarrow> byte list list" where
  "scan_repeated num [] = []"
| "scan_repeated num ((i, BytesVal b) # fs) = (if i = num then [b] else []) @ scan_repeated num fs"
| "scan_repeated num ((i, VarintVal n) # fs) = scan_repeated num fs"

named_theorems scan_simps

lemma scan_varint_fields [scan_simps]:
  "scan_varint num 0 (varint_field num n @ fs) = scan_varint num n fs"
  "i \<noteq> num \<Longrightarrow> scan_varint num v (varint_field i n @ fs) = scan_varint num v fs"
  "scan_varint num v (bytes_field i b @ fs) = scan_varint num v fs"
  by (simp_all add: varint_field_def bytes_field_def)

lemma scan_bytes_fields [scan_simps]:
  "scan_bytes num v (varint_field i n @ fs) = scan_bytes num v fs"
  "scan_bytes num [] (bytes_field num b @ fs) = scan_bytes num b fs"
  "i \<noteq> num \<Longrightarrow> scan_bytes num v (bytes_field i b @ fs) = scan_bytes num v fs"
  by (simp_all add: varint_field_def bytes_field_def)

lemma scan_repeated_fields [scan_simps]:
  "scan_repeated num (varint_field i n @ fs) = scan_repeated num fs"
  "i \<noteq> num \<Longrightarrow> scan_repeated num (bytes_field i b @ fs) = scan_repeated num fs"
  by (simp_all add: varint_field_def bytes_field_def)

lemma scan_of_repeated [scan_simps]:
  "scan_varint num v (repeated_field i bs @ fs) = scan_varint num v fs"
  "i \<noteq> num \<Longrightarrow> scan_bytes num b (repeated_field i bs @ fs) = scan_bytes num b fs"
  "scan_repeated num (repeated_field num bs @ fs) = bs @ scan_repeated num fs"
  unfolding repeated_field_def by (induction bs) simp_all

lemmas scan_last_fields [scan_simps] =
  scan_varint_fields [where fs = "[]", simplified]
  scan_bytes_fields [where fs = "[]", simplified]
  scan_repeated_fields [where fs = "[]", simplified]
  scan_of_repeated [where fs = "[]", simplified]

text \<open>Sizes: a varint of at most 64 bits takes ten bytes, one of at most 32 bits five.\<close>

definition fields_size :: "fields \<Rightarrow> nat" where
  "fields_size fs = length (put_fields fs)"

lemma fields_size_append [simp]: "fields_size (fs @ gs) = fields_size fs + fields_size gs"
  by (simp add: fields_size_def put_fields_def)

lemma fields_size_Nil [simp]: "fields_size [] = 0"
  by (simp add: fields_size_def put_fields_def)

lemma fields_size_varint:
  assumes "num < 16" "0 < d" "n < 128 ^ d"
  shows "fields_size (varint_field num n) \<le> 1 + d"
proof -
  from assms(1) have "num * 8 < 128 ^ 1" by simp
  then have "length (varint (num * 8)) \<le> 1" by (intro length_varint) simp_all
  moreover have "length (varint n) \<le> d" using assms by (intro length_varint) simp_all
  ultimately show ?thesis by (simp add: varint_field_def fields_size_def put_fields_def)
qed

lemma fields_size_bytes:
  assumes "num < 15" "0 < d" "length b < 128 ^ d"
  shows "fields_size (bytes_field num b) \<le> 1 + d + length b"
proof -
  from assms(1) have "num * 8 + 2 < 128 ^ 1" by simp
  then have "length (varint (num * 8 + 2)) \<le> 1" by (intro length_varint) simp_all
  moreover have "length (varint (length b)) \<le> d" using assms by (intro length_varint) simp_all
  ultimately show ?thesis by (simp add: bytes_field_def fields_size_def put_fields_def)
qed

section \<open>Codecs of records\<close>

text \<open>A message type given by its fields: \<open>to_fields\<close> in field order, \<open>from_fields\<close> may reject.\<close>

definition wire_marshal :: "('m \<Rightarrow> fields) \<Rightarrow> 'm \<Rightarrow> byte list res" where
  "wire_marshal to_fields m =
     (let bs = put_fields (to_fields m) in
      if length bs < 2 ^ 31 then Inr bs else Inl (LibError ''proto: message exceeds the size limit''))"

definition wire_unmarshal :: "(fields \<Rightarrow> 'm option) \<Rightarrow> byte list \<Rightarrow> 'm res" where
  "wire_unmarshal from_fields bs =
     (case get_fields bs of
        None \<Rightarrow> Inl (LibError ''proto: cannot parse invalid wire-format data'')
      | Some fs \<Rightarrow>
          (case from_fields fs of
             None \<Rightarrow> Inl (LibError ''proto: cannot parse invalid wire-format data'')
           | Some m \<Rightarrow> Inr m))"

lemma wire_roundtrip:
  assumes "\<And>m. from_fields (to_fields m) = Some m"
  shows "bounded_codec (wire_marshal to_fields) (wire_unmarshal from_fields)"
  by unfold_locales (auto simp: wire_marshal_def wire_unmarshal_def assms Let_def split: if_splits)

end
