(* ===== verification/Binary.thy ===== *)
theory Binary
  imports Prelude
begin

text \<open>
  Package \<open>encoding/binary\<close> of Go's standard library, as far as the sources use it: the fixed-width
  byte orders behind the CRC header and the counter file (little-endian) and behind the length prefix
  of every IPC frame (big-endian).
\<close>

primrec le_bytes :: "nat \<Rightarrow> 'a::len word \<Rightarrow> byte list" where
  "le_bytes 0 v = []"
| "le_bytes (Suc n) v = ucast v # le_bytes n (drop_bit 8 v)"

primrec le_word :: "byte list \<Rightarrow> 'a::len word" where
  "le_word [] = 0"
| "le_word (b # bs) = ucast b OR push_bit 8 (le_word bs)"

definition LittleEndian_PutUint64 :: "uint64 \<Rightarrow> byte list" where
  "LittleEndian_PutUint64 v = le_bytes 8 v"

definition LittleEndian_PutUint32 :: "uint32 \<Rightarrow> byte list" where
  "LittleEndian_PutUint32 v = le_bytes 4 v"

definition LittleEndian_Uint64 :: "byte list \<Rightarrow> uint64" where
  "LittleEndian_Uint64 bs = le_word (take 8 bs)"

definition BigEndian_PutUint32 :: "uint32 \<Rightarrow> byte list" where
  "BigEndian_PutUint32 v = rev (le_bytes 4 v)"

definition BigEndian_Uint32 :: "byte list \<Rightarrow> uint32" where
  "BigEndian_Uint32 bs = le_word (rev (take 4 bs))"

lemma length_le_bytes [simp]: "length (le_bytes n v) = n"
  by (induction n arbitrary: v) auto

lemma le_bytes_numeral [eval_simps]:
  "le_bytes (numeral n) v = ucast v # le_bytes (pred_numeral n) (drop_bit 8 v)"
  by (simp add: numeral_eq_Suc)

lemma le_word_le_bytes: "le_word (le_bytes n v) = take_bit (8 * n) (v :: 'a::len word)"
proof (induction n arbitrary: v)
  case 0
  then show ?case by simp
next
  case (Suc n)
  show ?case
    by (rule bit_word_eqI)
      (auto simp: Suc bit_or_iff bit_push_bit_iff bit_take_bit_iff bit_ucast_iff bit_drop_bit_eq
        not_less)
qed

lemma le_word_full: "LENGTH('a) \<le> 8 * n \<Longrightarrow> le_word (le_bytes n v) = (v :: 'a::len word)"
  by (simp add: le_word_le_bytes take_bit_word_eq_self)

lemma le_bytes_inj:
  assumes "LENGTH('a) \<le> 8 * n" and "le_bytes n v = le_bytes n w"
  shows "v = (w :: 'a::len word)"
  using assms le_word_full by metis

lemma bit_le_word: "bit (le_word bs :: 'a::len word) n \<Longrightarrow> n < 8 * length bs"
proof (induction bs arbitrary: n)
  case Nil
  then show ?case by simp
next
  case (Cons b bs)
  then consider "bit b n" | "8 \<le> n" "bit (le_word bs :: 'a word) (n - 8)"
    by (auto simp: bit_or_iff bit_push_bit_iff bit_ucast_iff)
  then show ?case
    using Cons.IH [of "n - 8"] by cases (auto dest: bit_imp_le_length)
qed

lemma le_bytes_le_word:
  "8 * length bs \<le> LENGTH('a) \<Longrightarrow> le_bytes (length bs) (le_word bs :: 'a::len word) = bs"
proof (induction bs)
  case Nil
  then show ?case by simp
next
  case (Cons b bs)
  have low: "ucast (ucast b OR push_bit 8 (le_word bs) :: 'a word) = b"
    using Cons.prems
    by (intro bit_word_eqI) (auto simp: bit_ucast_iff bit_or_iff bit_push_bit_iff)
  have high: "drop_bit 8 (ucast b OR push_bit 8 (le_word bs) :: 'a word) = le_word bs"
    using Cons.prems
    by (intro bit_word_eqI)
      (auto simp: bit_ucast_iff bit_or_iff bit_push_bit_iff bit_drop_bit_eq
        dest: bit_imp_le_length bit_le_word)
  from low high Cons show ?case by simp
qed

lemma LittleEndian_Uint64_Put [simp]: "LittleEndian_Uint64 (LittleEndian_PutUint64 v @ rest) = v"
  by (simp add: LittleEndian_Uint64_def LittleEndian_PutUint64_def le_word_full)

lemma BigEndian_Uint32_Put [simp]: "BigEndian_Uint32 (BigEndian_PutUint32 v @ rest) = v"
  by (simp add: BigEndian_Uint32_def BigEndian_PutUint32_def le_word_full)

lemma length_Put [simp]:
  "length (LittleEndian_PutUint64 v) = 8"
  "length (LittleEndian_PutUint32 w) = 4"
  "length (BigEndian_PutUint32 w) = 4"
  by (simp_all add: LittleEndian_PutUint64_def LittleEndian_PutUint32_def BigEndian_PutUint32_def)

end
