(* ===== verification/Framing.thy ===== *)
theory Framing
  imports Binary Proto
begin

text \<open>
  Stream connections and the length-prefixed frames that all the Unix-socket links use: a 4-byte
  big-endian length followed by the payload. The frame readers and writers of the sender, the receiver's
  session client and \<open>rs_helper\<close> are instances of one contract, the locale \<open>framing\<close>.
\<close>

section \<open>Connections\<close>

text \<open>
  One end of a stream connection: the bytes that will still arrive (\<open>rx\<close>), the error a read returns
  when they are used up (\<open>EOF\<close> for a peer that closed properly), the bytes written so far (\<open>tx\<close>), and
  whether the connection breaks: \<open>tx_fault = Some (n, e)\<close> lets \<open>n\<close> more bytes out and then fails with
  \<open>e\<close>.
\<close>

record conn =
  rx :: "byte list"
  rx_end :: error
  tx :: "byte list"
  tx_fault :: "(nat \<times> error) option"

text \<open>\<open>io.ReadFull\<close>: end of file before the first byte is \<open>EOF\<close>, in the middle \<open>ErrUnexpectedEOF\<close>.\<close>

definition ReadFull :: "nat \<Rightarrow> conn \<Rightarrow> (byte list \<times> conn) res" where
  "ReadFull n c =
     (if n \<le> length (rx c) then Inr (take n (rx c), c\<lparr>rx := drop n (rx c)\<rparr>)
      else if rx_end c = EOF \<and> rx c \<noteq> [] then Inl ErrUnexpectedEOF
      else Inl (rx_end c))"

text \<open>\<open>net.Buffers.WriteTo\<close>: the buffers one after the other, up to the first error.\<close>

definition WriteTo :: "byte list list \<Rightarrow> conn \<Rightarrow> error option \<times> conn" where
  "WriteTo bufs c =
     (let bs = concat bufs in
      case tx_fault c of
        None \<Rightarrow> (None, c\<lparr>tx := tx c @ bs\<rparr>)
      | Some (n, e) \<Rightarrow>
          if length bs \<le> n then (None, c\<lparr>tx := tx c @ bs, tx_fault := Some (n - length bs, e)\<rparr>)
          else (Some e, c\<lparr>tx := tx c @ take n bs, tx_fault := Some (0, e)\<rparr>))"

lemma WriteTo_rx [simp]: "WriteTo bufs c = (e, c') \<Longrightarrow> rx c' = rx c \<and> rx_end c' = rx_end c"
  by (auto simp: WriteTo_def Let_def split: option.splits if_splits)

lemma snd_WriteTo_rx [simp]: "rx (snd (WriteTo bufs c)) = rx c" "rx_end (snd (WriteTo bufs c)) = rx_end c"
  using WriteTo_rx [of bufs c "fst (WriteTo bufs c)" "snd (WriteTo bufs c)"] by simp_all

lemma WriteTo_fine: "tx_fault c = None \<Longrightarrow> WriteTo bufs c = (None, c\<lparr>tx := tx c @ concat bufs\<rparr>)"
  by (simp add: WriteTo_def)

lemma ReadFull_append:
  "rx c = bs @ rest \<Longrightarrow> length bs = n \<Longrightarrow> ReadFull n c = Inr (bs, c\<lparr>rx := rest\<rparr>)"
  by (simp add: ReadFull_def)

lemma ReadFull_Inr:
  "ReadFull n c = Inr (bs, c') \<Longrightarrow> length bs = n \<and> rx c = bs @ rx c' \<and> c' = c\<lparr>rx := rx c'\<rparr>"
  by (auto simp: ReadFull_def split: if_splits)

section \<open>Frames\<close>

text \<open>
  The bytes of a frame. The length is converted to \<open>uint32\<close>, so it is the payload's length only below
  \<open>2 ^ 32\<close>.
\<close>

definition frame :: "byte list \<Rightarrow> byte list" where
  "frame payload = BigEndian_PutUint32 (of_nat (length payload)) @ payload"

text \<open>The reader's steps: header, length, payload.\<close>

definition read_frame :: "conn \<Rightarrow> (byte list \<times> conn) res" where
  "read_frame c =
     (case ReadFull 4 c of
        Inl err \<Rightarrow> Inl err
      | Inr (header, c) \<Rightarrow> ReadFull (unat (BigEndian_Uint32 header)) c)"

lemma frame_length:
  "length p < 2 ^ 32 \<Longrightarrow> unat (BigEndian_Uint32 (BigEndian_PutUint32 (of_nat (length p)))) = length p"
  using BigEndian_Uint32_Put [of "of_nat (length p)" "[]"]
  by (simp add: unsigned_of_nat take_bit_nat_eq_self)

lemma read_frame_frame:
  assumes "rx c = frame p @ rest" "length p < 2 ^ 32"
  shows "read_frame c = Inr (p, c\<lparr>rx := rest\<rparr>)"
proof -
  have "ReadFull 4 c = Inr (BigEndian_PutUint32 (of_nat (length p)), c\<lparr>rx := p @ rest\<rparr>)"
    using assms(1) by (intro ReadFull_append) (simp_all add: frame_def)
  then show ?thesis
    using assms(2) ReadFull_append [of "c\<lparr>rx := p @ rest\<rparr>" p rest]
    by (simp add: read_frame_def frame_length)
qed

lemma read_frame_consumes: "read_frame c = Inr (p, c') \<Longrightarrow> length (rx c') < length (rx c)"
  by (auto simp: read_frame_def split: sum.splits dest!: ReadFull_Inr)

lemma read_frame_empty: "rx c = [] \<Longrightarrow> read_frame c = Inl (rx_end c)"
  by (simp add: read_frame_def ReadFull_def)

text \<open>
  A stream that stops inside a frame gives an error and never a shortened payload.
\<close>

lemma read_frame_truncated:
  assumes "length p < 2 ^ 32" "rx c = take n (frame p)" "0 < n" "n < length (frame p)" "rx_end c = EOF"
  shows "read_frame c = Inl ErrUnexpectedEOF \<or> (n = 4 \<and> read_frame c = Inl EOF)"
proof (cases "n < 4")
  case True
  with assms have "length (rx c) = n" by (simp add: frame_def)
  with True assms(3) have "length (rx c) < 4" "rx c \<noteq> []" by auto
  with assms(5) show ?thesis by (simp add: read_frame_def ReadFull_def)
next
  case False
  let ?h = "BigEndian_PutUint32 (of_nat (length p))"
  from False assms(2) have "rx c = ?h @ take (n - 4) p" by (simp add: frame_def)
  then have "ReadFull 4 c = Inr (?h, c\<lparr>rx := take (n - 4) p\<rparr>)" by (intro ReadFull_append) simp_all
  moreover from assms(4) have "n - 4 < length p" using False by (simp add: frame_def)
  ultimately show ?thesis
    using assms(1,5) False
    by (auto simp: read_frame_def frame_length ReadFull_def)
qed

section \<open>The contract of a framed link\<close>

locale framing =
  fixes write_msg :: "'m \<Rightarrow> byte list option"
    and read_msg :: "conn \<Rightarrow> ('m \<times> conn) res"
  assumes read_write: "write_msg m = Some bs \<Longrightarrow> rx c = bs @ rest \<Longrightarrow> read_msg c = Inr (m, c\<lparr>rx := rest\<rparr>)"
    and read_consumes: "read_msg c = Inr (m, c') \<Longrightarrow> length (rx c') < length (rx c)"
    and read_end: "rx c = [] \<Longrightarrow> read_msg c = Inl (rx_end c)"
begin

text \<open>Reading until the first error: the messages and the error that ends the stream.\<close>

function read_all :: "conn \<Rightarrow> 'm list \<times> error" where
  "read_all c =
     (case read_msg c of
        Inl e \<Rightarrow> ([], e)
      | Inr (m, c') \<Rightarrow> (case read_all c' of (ms, e) \<Rightarrow> (m # ms, e)))"
  by pat_completeness auto
termination
  by (relation "measure (\<lambda>c. length (rx c))") (auto dest: read_consumes)

declare read_all.simps [simp del]

text \<open>Everything that was written is read, in order, up to a tail on which the reader fails.\<close>

lemma read_all_tail:
  "list_all2 (\<lambda>m bs. write_msg m = Some bs) ms bss \<Longrightarrow> rx c = concat bss @ tail \<Longrightarrow>
   read_msg (c\<lparr>rx := tail\<rparr>) = Inl e \<Longrightarrow> read_all c = (ms, e)"
proof (induction ms bss arbitrary: c rule: list_all2_induct)
  case Nil
  then have "c\<lparr>rx := tail\<rparr> = c" by simp
  with Nil show ?case by (simp add: read_all.simps)
next
  case (Cons m ms bs bss)
  from Cons.prems have "read_msg c = Inr (m, c\<lparr>rx := concat bss @ tail\<rparr>)"
    by (intro read_write [OF Cons.hyps(1)]) simp
  moreover from Cons.IH [of "c\<lparr>rx := concat bss @ tail\<rparr>"] Cons.prems(2)
  have "read_all (c\<lparr>rx := concat bss @ tail\<rparr>) = (ms, e)" by simp
  ultimately show ?case by (subst read_all.simps) simp
qed

text \<open>In particular everything is read, and then the end of the stream is seen.\<close>

lemma read_all_written:
  "list_all2 (\<lambda>m bs. write_msg m = Some bs) ms bss \<Longrightarrow> rx c = concat bss \<Longrightarrow> read_all c = (ms, rx_end c)"
  by (rule read_all_tail [where tail = "[]"]) (simp_all add: read_end)

end

section \<open>Framed protobuf messages\<close>

text \<open>
  What the links do with a message: marshal and frame it; read a frame and unmarshal it. A round-tripping
  codec makes this a framed link.
\<close>

definition write_message :: "('m \<Rightarrow> byte list res) \<Rightarrow> 'm \<Rightarrow> byte list option" where
  "write_message marshal m =
     (case marshal m of Inl err \<Rightarrow> None | Inr p \<Rightarrow> if length p < 2 ^ 32 then Some (frame p) else None)"

definition read_message :: "(byte list \<Rightarrow> 'm res) \<Rightarrow> conn \<Rightarrow> ('m \<times> conn) res" where
  "read_message unmarshal c =
     (case read_frame c of Inl err \<Rightarrow> Inl err
      | Inr (payload, c) \<Rightarrow> map_sum id (\<lambda>m. (m, c)) (unmarshal payload))"

lemma read_message_consumes: "read_message unmarshal c = Inr (m, c') \<Longrightarrow> length (rx c') < length (rx c)"
  by (auto simp: read_message_def split: sum.splits dest: read_frame_consumes)

lemma read_message_frame:
  "rx c = frame p @ rest \<Longrightarrow> length p < 2 ^ 32 \<Longrightarrow> unmarshal p = Inr m \<Longrightarrow>
   read_message unmarshal c = Inr (m, c\<lparr>rx := rest\<rparr>)"
  by (simp add: read_message_def read_frame_frame)

sublocale proto_codec \<subseteq> link: framing "write_message marshal" "read_message unmarshal"
proof
  show "write_message marshal m = Some bs \<Longrightarrow> rx c = bs @ rest \<Longrightarrow>
      read_message unmarshal c = Inr (m, c\<lparr>rx := rest\<rparr>)" for m bs c rest
    by (auto simp: write_message_def unmarshal_marshal read_message_frame split: sum.splits if_splits)
  show "read_message unmarshal c = Inr (m, c') \<Longrightarrow> length (rx c') < length (rx c)" for m c c'
    by (rule read_message_consumes)
  show "rx c = [] \<Longrightarrow> read_message unmarshal c = Inl (rx_end c)" for c
    by (simp add: read_message_def read_frame_empty)
qed

end
