(* ===== verification/Crc32.thy ===== *)
theory Crc32
  imports Binary
begin

text \<open>
  Package \<open>hash/crc32\<close> of Go's standard library with the Castagnoli polynomial: the lookup table that
  \<open>MakeTable\<close> builds, the table-driven \<open>Update\<close>, the one-shot \<open>Checksum\<close> and the streaming \<open>digest\<close>
  behind \<open>crc32.New\<close>. Lemmas: streaming and one-shot agree, the table-driven step is eight
  bit-serial steps, and a change confined to four consecutive bytes always changes the checksum.
\<close>

section \<open>Definitions\<close>

definition Castagnoli :: uint32 where
  "Castagnoli = 0x82F63B78"

definition crc_bit :: "uint32 \<Rightarrow> uint32 \<Rightarrow> uint32" where
  "crc_bit poly c = (if bit c 0 then drop_bit 1 c XOR poly else drop_bit 1 c)"

definition MakeTable :: "uint32 \<Rightarrow> uint32 list" where
  "MakeTable poly = map (\<lambda>i. (crc_bit poly ^^ 8) (of_nat i)) [0..<256]"

definition crc_step :: "uint32 list \<Rightarrow> uint32 \<Rightarrow> byte \<Rightarrow> uint32" where
  "crc_step tab c v = tab ! unat (ucast c XOR v) XOR drop_bit 8 c"

definition Update :: "uint32 \<Rightarrow> uint32 list \<Rightarrow> byte list \<Rightarrow> uint32" where
  "Update crc tab p = NOT (foldl (crc_step tab) (NOT crc) p)"

definition Checksum :: "byte list \<Rightarrow> uint32 list \<Rightarrow> uint32" where
  "Checksum bs tab = Update 0 tab bs"

record digest =
  digest_crc :: uint32
  digest_tab :: "uint32 list"

definition New :: "uint32 list \<Rightarrow> digest" where
  "New t = \<lparr>digest_crc = 0, digest_tab = t\<rparr>"

definition Write :: "digest \<Rightarrow> byte list \<Rightarrow> digest" where
  "Write d p = d\<lparr>digest_crc := Update (digest_crc d) (digest_tab d) p\<rparr>"

definition Sum32 :: "digest \<Rightarrow> uint32" where
  "Sum32 d = digest_crc d"

section \<open>Streaming\<close>

lemma Update_append: "Update (Update c t a) t b = Update c t (a @ b)"
  by (simp add: Update_def)

lemma Update_Nil [simp]: "Update c t [] = c"
  by (simp add: Update_def)

lemma Write_Write: "Write (Write d a) b = Write d (a @ b)"
  by (simp add: Write_def Update_append)

lemma digest_Checksum: "Sum32 (Write (New t) a) = Checksum a t"
  by (simp add: Sum32_def Write_def New_def Checksum_def)

section \<open>The table-driven step is eight bit-serial steps\<close>

lemma crc_bit_xor: "crc_bit p (a XOR b) = crc_bit p a XOR crc_bit p b"
  by (simp add: crc_bit_def bit_xor_iff drop_bit_xor ac_simps)

lemma crc_bits_xor: "(crc_bit p ^^ n) (a XOR b) = (crc_bit p ^^ n) a XOR (crc_bit p ^^ n) b"
  by (induction n) (simp_all add: crc_bit_xor)

lemma crc_bits_shift: "(\<And>i. i < n \<Longrightarrow> \<not> bit y i) \<Longrightarrow> (crc_bit p ^^ n) y = drop_bit n y"
  by (induction n) (simp_all add: crc_bit_def bit_drop_bit_eq)

lemma word_split_low: "c = take_bit 8 c XOR push_bit 8 (drop_bit 8 (c :: uint32))"
  by (rule bit_word_eqI) (auto simp: bit_xor_iff bit_take_bit_iff bit_push_bit_iff bit_drop_bit_eq)

lemma MakeTable_nth: "MakeTable p ! unat (b :: byte) = (crc_bit p ^^ 8) (ucast b)"
proof -
  have "unat b < 256" using unsigned_less [of b, where 'a = nat] by simp
  then show ?thesis by (simp add: MakeTable_def unsigned_ucast_eq)
qed

lemma crc_step_bits: "crc_step (MakeTable p) c v = (crc_bit p ^^ 8) (c XOR ucast v)"
proof -
  have "c XOR ucast v = ucast (ucast c XOR v :: byte) XOR push_bit 8 (drop_bit 8 c)"
    by (rule bit_word_eqI)
      (auto simp: bit_xor_iff bit_ucast_iff bit_push_bit_iff bit_drop_bit_eq dest: bit_imp_le_length)
  moreover have "(crc_bit p ^^ 8) (push_bit 8 (drop_bit 8 c)) = drop_bit 8 c"
  proof -
    have "(crc_bit p ^^ 8) (push_bit 8 (drop_bit 8 c)) = drop_bit 8 (push_bit 8 (drop_bit 8 c))"
      by (rule crc_bits_shift) (simp add: bit_push_bit_iff)
    also have "\<dots> = drop_bit 8 c"
      by (rule bit_word_eqI) (auto simp: bit_push_bit_iff bit_drop_bit_eq dest: bit_imp_le_length)
    finally show ?thesis .
  qed
  ultimately show ?thesis
    by (simp add: crc_step_def MakeTable_nth crc_bits_xor)
qed

section \<open>Changes within four consecutive bytes are detected\<close>

text \<open>
  The top coefficient of the Castagnoli polynomial is set, so the bit-serial step can be undone: the
  top bit of its result tells which branch was taken.
\<close>

lemma crc_bit_inj: "bit p 31 \<Longrightarrow> inj (crc_bit p)"
proof (rule injI)
  fix x y
  assume p: "bit p 31" and eq: "crc_bit p x = crc_bit p y"
  have top: "bit (crc_bit p z) 31 = bit z 0" for z
    using p by (auto simp: crc_bit_def bit_xor_iff bit_drop_bit_eq dest: bit_imp_le_length)
  with eq have low: "bit x 0 = bit y 0" by metis
  with eq have "drop_bit 1 x = drop_bit 1 y"
    by (auto simp: crc_bit_def split: if_splits)
  then have "bit x (Suc n) = bit y (Suc n)" for n
    by (metis bit_drop_bit_eq comp_apply plus_1_eq_Suc)
  with low show "x = y"
    by (intro bit_word_eqI) (metis not0_implies_Suc)
qed

lemma Castagnoli_top: "bit Castagnoli 31"
  by (simp add: Castagnoli_def)

lemma crc_bits_inj: "inj (crc_bit Castagnoli ^^ n)"
  by (intro inj_funpow crc_bit_inj Castagnoli_top)

abbreviation castagnoliTable :: "uint32 list" where
  "castagnoliTable \<equiv> MakeTable Castagnoli"

abbreviation crc_run :: "uint32 \<Rightarrow> byte list \<Rightarrow> uint32" where
  "crc_run \<equiv> foldl (crc_step castagnoliTable)"

lemma crc_step_eval [eval_simps]: "crc_step castagnoliTable c v =
   crc_bit Castagnoli (crc_bit Castagnoli (crc_bit Castagnoli (crc_bit Castagnoli
   (crc_bit Castagnoli (crc_bit Castagnoli (crc_bit Castagnoli (crc_bit Castagnoli (c XOR ucast v))))))))"
  by (simp add: crc_step_bits eval_nat_numeral)

lemma crc_bit_eval [eval_simps]:
  "crc_bit Castagnoli c = (if bit c 0 then drop_bit 1 c XOR 0x82F63B78 else drop_bit 1 c)"
  by (simp add: crc_bit_def Castagnoli_def)

lemma crc_run_inj: "crc_run c bs = crc_run d bs \<Longrightarrow> c = d"
proof (induction bs arbitrary: c d)
  case Nil
  then show ?case by simp
next
  case (Cons b bs)
  then have "(crc_bit Castagnoli ^^ 8) (c XOR ucast b) = (crc_bit Castagnoli ^^ 8) (d XOR ucast b)"
    by (simp add: crc_step_bits)
  then have "c XOR ucast b = d XOR ucast b" by (rule injD [OF crc_bits_inj])
  then show ?case by simp
qed

text \<open>Up to four bytes enter the register as one word, before any of them is shifted out.\<close>

lemma crc_run_window:
  "length bs \<le> 4 \<Longrightarrow> crc_run c bs = (crc_bit Castagnoli ^^ (8 * length bs)) (c XOR le_word bs)"
proof (induction bs arbitrary: c)
  case Nil
  then show ?case by simp
next
  case (Cons b bs)
  let ?w = "le_word bs :: uint32"
  have bound: "bit ?w n \<Longrightarrow> n < 24" for n
    using Cons.prems bit_le_word [of bs n, where 'a = 32] by auto
  have "(crc_bit Castagnoli ^^ 8) (push_bit 8 ?w) = drop_bit 8 (push_bit 8 ?w)"
    by (rule crc_bits_shift) (simp add: bit_push_bit_iff)
  also have "\<dots> = ?w"
    by (rule bit_word_eqI) (auto simp: bit_push_bit_iff bit_drop_bit_eq dest: bound)
  finally have sh: "(crc_bit Castagnoli ^^ 8) (push_bit 8 ?w) = ?w" .
  have or: "ucast b OR push_bit 8 ?w = (ucast b XOR push_bit 8 ?w :: uint32)"
    by (rule bit_word_eqI) (auto simp: bit_xor_iff bit_or_iff bit_ucast_iff bit_push_bit_iff dest: bit_imp_le_length)
  have "crc_run c (b # bs) = (crc_bit Castagnoli ^^ (8 * length bs)) (crc_step castagnoliTable c b XOR ?w)"
    using Cons.IH [of "crc_step castagnoliTable c b"] Cons.prems by simp
  also have "crc_step castagnoliTable c b XOR ?w = (crc_bit Castagnoli ^^ 8) (c XOR le_word (b # bs))"
    by (simp add: crc_step_bits or crc_bits_xor sh xor.assoc)
  also have "(crc_bit Castagnoli ^^ (8 * length bs)) ((crc_bit Castagnoli ^^ 8) (c XOR le_word (b # bs)))
      = (crc_bit Castagnoli ^^ (8 * length (b # bs))) (c XOR le_word (b # bs))"
    unfolding funpow_funpow by (simp add: add.commute)
  finally show ?case .
qed

lemma le_word_inj:
  assumes "length xs = length ys" "length xs \<le> 4" "(le_word xs :: uint32) = le_word ys"
  shows "xs = ys"
proof -
  have "le_bytes (length zs) (le_word zs :: uint32) = zs" if "length zs \<le> 4" for zs
    using that by (intro le_bytes_le_word) simp
  from this [of xs] this [of ys] assms(1,2)
  have "le_bytes (length xs) (le_word xs :: uint32) = xs" "le_bytes (length ys) (le_word ys :: uint32) = ys"
    by auto
  with assms(1,3) show ?thesis by metis
qed

lemma Update_window:
  assumes "Update c castagnoliTable (pre @ xs @ suf) = Update c castagnoliTable (pre @ ys @ suf)"
    and "length xs = length ys" "length xs \<le> 4"
  shows "xs = ys"
proof -
  from assms(1) have "crc_run (crc_run (NOT c) pre) xs = crc_run (crc_run (NOT c) pre) ys"
    by (auto simp: Update_def dest: crc_run_inj)
  with assms(2,3) have "(crc_bit Castagnoli ^^ (8 * length ys)) (crc_run (NOT c) pre XOR le_word xs)
      = (crc_bit Castagnoli ^^ (8 * length ys)) (crc_run (NOT c) pre XOR le_word ys)"
    by (simp add: crc_run_window)
  then have "crc_run (NOT c) pre XOR le_word xs = crc_run (NOT c) pre XOR le_word ys"
    by (rule injD [OF crc_bits_inj])
  then have "(le_word xs :: uint32) = le_word ys" by simp
  with assms(2,3) show ?thesis by (intro le_word_inj)
qed

end
