(* ===== verification/Packets.thy ===== *)
theory Packets
  imports Crc32
begin

text \<open>
  The wire packet and its checksum: the \<open>Packet\<close> message of \<open>packet.proto\<close> (generated for the senders
  and the receivers alike), the sender's \<open>CalculateCRC\<close> and \<open>FormatPacket\<close>
  (\<open>senders/internal/pb/packet.go\<close>) and the receiver's \<open>ChecksumPacket\<close> and \<open>VerifyPacket\<close>
  (\<open>common/integrity/integrity.go\<close>). Protobuf serialisation is an external package: \<open>marshal\<close> and
  \<open>unmarshal\<close> are parameters, with the contract \<open>proto_codec\<close>.
\<close>

section \<open>The message\<close>

record Packet =
  FileHash :: uint64
  BlockId :: uint32
  TotalBlocks :: uint32
  SymbolId :: uint32
  KSymbols :: uint32
  NSymbols :: uint32
  FileSize :: uint64
  Content :: "byte list"
  PacketCrc :: uint32

text \<open>\<open>Reset\<close> overwrites the message with the zero value; the getters read through a possibly nil pointer.\<close>

definition zero_Packet :: Packet where
  "zero_Packet = \<lparr>FileHash = 0, BlockId = 0, TotalBlocks = 0, SymbolId = 0, KSymbols = 0, NSymbols = 0,
     FileSize = 0, Content = [], PacketCrc = 0\<rparr>"

definition Packet_Reset :: "Packet \<Rightarrow> Packet" where
  "Packet_Reset x = zero_Packet"

fun GetFileHash :: "Packet option \<Rightarrow> uint64" where
  "GetFileHash (Some x) = FileHash x" | "GetFileHash None = 0"

fun GetBlockId :: "Packet option \<Rightarrow> uint32" where
  "GetBlockId (Some x) = BlockId x" | "GetBlockId None = 0"

fun GetTotalBlocks :: "Packet option \<Rightarrow> uint32" where
  "GetTotalBlocks (Some x) = TotalBlocks x" | "GetTotalBlocks None = 0"

fun GetSymbolId :: "Packet option \<Rightarrow> uint32" where
  "GetSymbolId (Some x) = SymbolId x" | "GetSymbolId None = 0"

fun GetKSymbols :: "Packet option \<Rightarrow> uint32" where
  "GetKSymbols (Some x) = KSymbols x" | "GetKSymbols None = 0"

fun GetNSymbols :: "Packet option \<Rightarrow> uint32" where
  "GetNSymbols (Some x) = NSymbols x" | "GetNSymbols None = 0"

fun GetFileSize :: "Packet option \<Rightarrow> uint64" where
  "GetFileSize (Some x) = FileSize x" | "GetFileSize None = 0"

fun GetContent :: "Packet option \<Rightarrow> byte list" where
  "GetContent (Some x) = Content x" | "GetContent None = []"

fun GetPacketCrc :: "Packet option \<Rightarrow> uint32" where
  "GetPacketCrc (Some x) = PacketCrc x" | "GetPacketCrc None = 0"

section \<open>Sender side\<close>

definition CalculateCRC ::
  "uint64 \<Rightarrow> uint32 \<Rightarrow> uint32 \<Rightarrow> uint32 \<Rightarrow> uint32 \<Rightarrow> uint32 \<Rightarrow> uint64 \<Rightarrow> byte list \<Rightarrow> uint32" where
  "CalculateCRC fileHash blockId totalBlocks symbolId kSymbols nSymbols fileSize content =
     (let table = MakeTable Castagnoli;
          h = New table;
          metaBuf = replicate 36 0;
          metaBuf = put_at 0 (LittleEndian_PutUint64 fileHash) metaBuf;
          metaBuf = put_at 8 (LittleEndian_PutUint32 blockId) metaBuf;
          metaBuf = put_at 12 (LittleEndian_PutUint32 totalBlocks) metaBuf;
          metaBuf = put_at 16 (LittleEndian_PutUint32 symbolId) metaBuf;
          metaBuf = put_at 20 (LittleEndian_PutUint32 kSymbols) metaBuf;
          metaBuf = put_at 24 (LittleEndian_PutUint32 nSymbols) metaBuf;
          metaBuf = put_at 28 (LittleEndian_PutUint64 fileSize) metaBuf;
          h = Write h metaBuf;
          h = Write h content
      in Sum32 h)"

definition FormatPacket ::
  "(Packet \<Rightarrow> byte list res) \<Rightarrow>
   uint64 \<Rightarrow> uint32 \<Rightarrow> uint32 \<Rightarrow> uint32 \<Rightarrow> uint32 \<Rightarrow> uint32 \<Rightarrow> uint64 \<Rightarrow> byte list \<Rightarrow> uint32 \<Rightarrow> byte list res" where
  "FormatPacket marshal fileHash blockId totalBlocks symbolId kSymbols nSymbols fileSize content packetCrc =
     (let packet = \<lparr>FileHash = fileHash, BlockId = blockId, TotalBlocks = totalBlocks, SymbolId = symbolId,
            KSymbols = kSymbols, NSymbols = nSymbols, FileSize = fileSize, Content = content,
            PacketCrc = packetCrc\<rparr>
      in case marshal packet of
           Inl err \<Rightarrow> Inl (Wrap ''failed to marshal packet'' [] err)
         | Inr bs \<Rightarrow> Inr bs)"

section \<open>Receiver side\<close>

definition packetHeaderSize :: nat where
  "packetHeaderSize = 36"

definition ChecksumPacket ::
  "uint64 \<Rightarrow> uint32 \<Rightarrow> uint32 \<Rightarrow> uint32 \<Rightarrow> uint32 \<Rightarrow> uint32 \<Rightarrow> uint64 \<Rightarrow> byte list \<Rightarrow> uint32" where
  "ChecksumPacket fileHash blockID totalBlocks symbolID dataSymbols totalSymbols fileSize content =
     (let header = replicate packetHeaderSize 0;
          header = put_at 0 (LittleEndian_PutUint64 fileHash) header;
          header = put_at 8 (LittleEndian_PutUint32 blockID) header;
          header = put_at 12 (LittleEndian_PutUint32 totalBlocks) header;
          header = put_at 16 (LittleEndian_PutUint32 symbolID) header;
          header = put_at 20 (LittleEndian_PutUint32 dataSymbols) header;
          header = put_at 24 (LittleEndian_PutUint32 totalSymbols) header;
          header = put_at 28 (LittleEndian_PutUint64 fileSize) header;
          crc = Checksum header castagnoliTable
      in Update crc castagnoliTable content)"

definition VerifyPacket ::
  "uint64 \<Rightarrow> uint32 \<Rightarrow> uint32 \<Rightarrow> uint32 \<Rightarrow> uint32 \<Rightarrow> uint32 \<Rightarrow> uint64 \<Rightarrow> byte list \<Rightarrow> uint32 \<Rightarrow> bool" where
  "VerifyPacket fileHash blockID totalBlocks symbolID dataSymbols totalSymbols fileSize content checksum \<longleftrightarrow>
     ChecksumPacket fileHash blockID totalBlocks symbolID dataSymbols totalSymbols fileSize content = checksum"

section \<open>The header layout\<close>

text \<open>The seven stores fill the header completely and in order, which is the documented contract.\<close>

definition header_layout ::
  "uint64 \<Rightarrow> uint32 \<Rightarrow> uint32 \<Rightarrow> uint32 \<Rightarrow> uint32 \<Rightarrow> uint32 \<Rightarrow> uint64 \<Rightarrow> byte list" where
  "header_layout fh b tb s k n fs =
     le_bytes 8 fh @ le_bytes 4 b @ le_bytes 4 tb @ le_bytes 4 s @ le_bytes 4 k @ le_bytes 4 n @ le_bytes 8 fs"

lemma put_at_next:
  "length done = off \<Longrightarrow> length bs \<le> n \<Longrightarrow>
   put_at off bs (done @ replicate n x) = (done @ bs) @ replicate (n - length bs) x"
  by (simp add: put_at_def)

lemma header_stores:
  "put_at 28 (LittleEndian_PutUint64 fs) (put_at 24 (LittleEndian_PutUint32 n)
    (put_at 20 (LittleEndian_PutUint32 k) (put_at 16 (LittleEndian_PutUint32 s)
    (put_at 12 (LittleEndian_PutUint32 tb) (put_at 8 (LittleEndian_PutUint32 b)
    (put_at 0 (LittleEndian_PutUint64 fh) (replicate 36 0))))))) = header_layout fh b tb s k n fs"
  using put_at_next [of "[]" 0 "LittleEndian_PutUint64 fh" 36 0]
  by (simp add: put_at_next header_layout_def LittleEndian_PutUint64_def LittleEndian_PutUint32_def
      del: append_assoc)

lemma ChecksumPacket_Update:
  "ChecksumPacket fh b tb s k n fs c = Update 0 castagnoliTable (header_layout fh b tb s k n fs @ c)"
  unfolding ChecksumPacket_def Let_def packetHeaderSize_def header_stores
  by (simp add: Checksum_def Update_append)

lemma CalculateCRC_Update:
  "CalculateCRC fh b tb s k n fs c = Update 0 castagnoliTable (header_layout fh b tb s k n fs @ c)"
  unfolding CalculateCRC_def Let_def header_stores
  by (simp add: Write_Write digest_Checksum Checksum_def)

section \<open>The interface between sender and receiver\<close>

text \<open>
  What the receiving side relies on: \<open>verify\<close> accepts exactly the checksum that the sending side's
  \<open>calc\<close> computes over the same metadata and content, and no damage confined to four consecutive
  bytes of metadata and content survives it.
\<close>

locale packet_checksum =
  fixes calc :: "uint64 \<Rightarrow> uint32 \<Rightarrow> uint32 \<Rightarrow> uint32 \<Rightarrow> uint32 \<Rightarrow> uint32 \<Rightarrow> uint64 \<Rightarrow> byte list \<Rightarrow> uint32"
    and verify :: "uint64 \<Rightarrow> uint32 \<Rightarrow> uint32 \<Rightarrow> uint32 \<Rightarrow> uint32 \<Rightarrow> uint32 \<Rightarrow> uint64 \<Rightarrow> byte list \<Rightarrow> uint32 \<Rightarrow> bool"
  assumes verify_calc: "verify fh b tb s k n fs c crc \<longleftrightarrow> calc fh b tb s k n fs c = crc"
    and calc_window:
      "header_layout fh b tb s k n fs @ c = pre @ xs @ suf \<Longrightarrow>
       header_layout fh' b' tb' s' k' n' fs' @ c' = pre @ ys @ suf \<Longrightarrow>
       length xs = length ys \<Longrightarrow> length xs \<le> 4 \<Longrightarrow>
       calc fh b tb s k n fs c = calc fh' b' tb' s' k' n' fs' c' \<Longrightarrow> xs = ys"
begin

definition sealed :: "Packet \<Rightarrow> bool" where
  "sealed p \<longleftrightarrow> verify (FileHash p) (BlockId p) (TotalBlocks p) (SymbolId p) (KSymbols p) (NSymbols p)
     (FileSize p) (Content p) (PacketCrc p)"

lemma sealed_calc:
  "sealed (p\<lparr>PacketCrc := calc (FileHash p) (BlockId p) (TotalBlocks p) (SymbolId p) (KSymbols p)
     (NSymbols p) (FileSize p) (Content p)\<rparr>)"
  by (simp add: sealed_def verify_calc)

lemma verify_block_id: "verify fh b' tb s k n fs c (calc fh b tb s k n fs c) \<longleftrightarrow> b' = b"
  using calc_window [of fh b' tb s k n fs c "le_bytes 8 fh" "le_bytes 4 b'"
      "le_bytes 4 tb @ le_bytes 4 s @ le_bytes 4 k @ le_bytes 4 n @ le_bytes 8 fs @ c" fh b tb s k n fs c "le_bytes 4 b"]
  by (auto simp: verify_calc header_layout_def intro: le_bytes_inj [of 4])

lemma verify_total_blocks: "verify fh b tb' s k n fs c (calc fh b tb s k n fs c) \<longleftrightarrow> tb' = tb"
  using calc_window [of fh b tb' s k n fs c "le_bytes 8 fh @ le_bytes 4 b" "le_bytes 4 tb'"
      "le_bytes 4 s @ le_bytes 4 k @ le_bytes 4 n @ le_bytes 8 fs @ c" fh b tb s k n fs c "le_bytes 4 tb"]
  by (auto simp: verify_calc header_layout_def intro: le_bytes_inj [of 4])

lemma verify_symbol_id: "verify fh b tb s' k n fs c (calc fh b tb s k n fs c) \<longleftrightarrow> s' = s"
  using calc_window [of fh b tb s' k n fs c "le_bytes 8 fh @ le_bytes 4 b @ le_bytes 4 tb" "le_bytes 4 s'"
      "le_bytes 4 k @ le_bytes 4 n @ le_bytes 8 fs @ c" fh b tb s k n fs c "le_bytes 4 s"]
  by (auto simp: verify_calc header_layout_def intro: le_bytes_inj [of 4])

lemma verify_k_symbols: "verify fh b tb s k' n fs c (calc fh b tb s k n fs c) \<longleftrightarrow> k' = k"
  using calc_window [of fh b tb s k' n fs c "le_bytes 8 fh @ le_bytes 4 b @ le_bytes 4 tb @ le_bytes 4 s"
      "le_bytes 4 k'" "le_bytes 4 n @ le_bytes 8 fs @ c" fh b tb s k n fs c "le_bytes 4 k"]
  by (auto simp: verify_calc header_layout_def intro: le_bytes_inj [of 4])

lemma verify_n_symbols: "verify fh b tb s k n' fs c (calc fh b tb s k n fs c) \<longleftrightarrow> n' = n"
  using calc_window [of fh b tb s k n' fs c
      "le_bytes 8 fh @ le_bytes 4 b @ le_bytes 4 tb @ le_bytes 4 s @ le_bytes 4 k"
      "le_bytes 4 n'" "le_bytes 8 fs @ c" fh b tb s k n fs c "le_bytes 4 n"]
  by (auto simp: verify_calc header_layout_def intro: le_bytes_inj [of 4])

lemma verify_content:
  assumes "length xs = length ys" "length xs \<le> 4"
  shows "verify fh b tb s k n fs (pre @ xs @ suf) (calc fh b tb s k n fs (pre @ ys @ suf)) \<longleftrightarrow> xs = ys"
  using calc_window [of fh b tb s k n fs "pre @ xs @ suf" "header_layout fh b tb s k n fs @ pre" xs suf
      fh b tb s k n fs "pre @ ys @ suf" ys] assms
  by (auto simp: verify_calc)

end

lemma CalculateCRC_ChecksumPacket: "CalculateCRC = ChecksumPacket"
  by (intro ext) (simp add: CalculateCRC_Update ChecksumPacket_Update)

interpretation crc: packet_checksum CalculateCRC VerifyPacket
proof unfold_locales
  show "VerifyPacket fh b tb s k n fs c cs \<longleftrightarrow> CalculateCRC fh b tb s k n fs c = cs"
    for fh b tb s k n fs c cs
    by (simp add: VerifyPacket_def CalculateCRC_ChecksumPacket)
next
  fix fh b tb s k n fs c pre xs suf fh' b' tb' s' k' n' fs' c' ys
  assume "header_layout fh b tb s k n fs @ c = pre @ xs @ suf"
    and "header_layout fh' b' tb' s' k' n' fs' @ c' = pre @ ys @ suf"
    and len: "length xs = length ys" "length xs \<le> 4"
    and "CalculateCRC fh b tb s k n fs c = CalculateCRC fh' b' tb' s' k' n' fs' c'"
  then have "Update 0 castagnoliTable (pre @ xs @ suf) = Update 0 castagnoliTable (pre @ ys @ suf)"
    by (simp add: CalculateCRC_Update)
  from this len show "xs = ys" by (rule Update_window)
qed

section \<open>Properties\<close>

text \<open>C22: the sender's streaming checksum (\<open>CalculateCRC\<close>: a \<open>crc32.New\<close> digest fed with the 36-byte header
  and then the content) and the receiver's one-shot checksum (\<open>ChecksumPacket\<close>) are the same function,
  and every packet the sender seals with it passes the receiver's \<open>VerifyPacket\<close>.\<close>

theorem sender_receiver_crc_agree:
  "CalculateCRC fh b tb s k n fs c = ChecksumPacket fh b tb s k n fs c \<and>
   VerifyPacket fh b tb s k n fs c (CalculateCRC fh b tb s k n fs c)"
  by (simp add: CalculateCRC_ChecksumPacket crc.verify_calc)

text \<open>The checksum covers every 32-bit metadata field: with the checksum of the original packet,
  \<open>VerifyPacket\<close> accepts a changed block id, total block count, symbol id, data-symbol count or
  symbol count only if the field was not changed at all.\<close>

lemma verify_detects_field_change:
  "(VerifyPacket fh b' tb s k n fs c (ChecksumPacket fh b tb s k n fs c) \<longleftrightarrow> b' = b) \<and>
   (VerifyPacket fh b tb' s k n fs c (ChecksumPacket fh b tb s k n fs c) \<longleftrightarrow> tb' = tb) \<and>
   (VerifyPacket fh b tb s' k n fs c (ChecksumPacket fh b tb s k n fs c) \<longleftrightarrow> s' = s) \<and>
   (VerifyPacket fh b tb s k' n fs c (ChecksumPacket fh b tb s k n fs c) \<longleftrightarrow> k' = k) \<and>
   (VerifyPacket fh b tb s k n' fs c (ChecksumPacket fh b tb s k n fs c) \<longleftrightarrow> n' = n)"
  using crc.verify_block_id crc.verify_total_blocks crc.verify_symbol_id crc.verify_k_symbols
    crc.verify_n_symbols
  by (simp add: CalculateCRC_ChecksumPacket)

text \<open>C21: damage anywhere in the packet, metadata or content, that is confined to four consecutive bytes of
  the checksummed byte sequence (36-byte header followed by the content) is always detected: the
  receiver rejects the damaged packet when it carries the original checksum.\<close>

theorem verify_detects_burst:
  assumes "header_layout fh b tb s k n fs @ c = pre @ xs @ suf"
    and "header_layout fh' b' tb' s' k' n' fs' @ c' = pre @ ys @ suf"
    and "length xs = length ys" "length xs \<le> 4" "xs \<noteq> ys"
  shows "\<not> VerifyPacket fh' b' tb' s' k' n' fs' c' (ChecksumPacket fh b tb s k n fs c)"
proof
  assume "VerifyPacket fh' b' tb' s' k' n' fs' c' (ChecksumPacket fh b tb s k n fs c)"
  then have "CalculateCRC fh b tb s k n fs c = CalculateCRC fh' b' tb' s' k' n' fs' c'"
    by (simp add: CalculateCRC_ChecksumPacket VerifyPacket_def)
  with crc.calc_window [OF assms(1-4)] assms(5) show False by blast
qed

theorem verify_detects_burst_witness:
  "\<not> VerifyPacket 1 2 3 4 100 150 9 [7, 8, 9, 10] (ChecksumPacket 1 2 3 4 100 150 9 [7, 255, 0, 10])"
  by (rule verify_detects_burst [where pre = "header_layout 1 2 3 4 100 150 9 @ [7]" and xs = "[255, 0]"
        and suf = "[10]" and ys = "[8, 9]"]) simp_all

text \<open>The pinned test vector of the documented layout: the reference packet of the repository's test has
  checksum \<open>0x38309A76\<close>, computed through the modelled table, header and content.\<close>

lemma checksum_golden_vector:
  "ChecksumPacket 0x0102030405060708 11 77 5 100 150 1048576 (map of_char ''reference-symbol-payload'')
     = 0x38309A76"
proof -
  have "Update 0 castagnoliTable (header_layout 0x0102030405060708 11 77 5 100 150 1048576
      @ map of_char ''reference-symbol-payload'') = 0x38309A76"
    by (simp add: header_layout_def Update_def le_bytes_numeral) (simp add: eval_simps)
  then show ?thesis by (simp add: ChecksumPacket_Update)
qed

end
