(* ===== verification/Galois.thy ===== *)
theory Galois
  imports Prelude
begin

text \<open>
  The field with 256 elements that byte-wise Reed-Solomon coding works in: bytes under XOR and
  polynomial multiplication modulo \<open>x^8 + x^4 + x^3 + x^2 + 1\<close> (0x11D). It carries the reference codec
  of theory \<open>Reed_Solomon\<close>, which shows that the contract of the external Reed-Solomon package can be
  met. Field laws of XOR-linear operations are checked on the eight powers of two and extended by
  linearity; inverses come from a table that is checked entry by entry.
\<close>

section \<open>Multiplication of bytes\<close>

definition xtime :: "byte \<Rightarrow> byte" where
  "xtime a = (if bit a 7 then push_bit 1 a XOR 0x1D else push_bit 1 a)"

definition gterm :: "byte \<Rightarrow> byte \<Rightarrow> nat \<Rightarrow> byte" where
  "gterm a b i = (if bit b i then (xtime ^^ i) a else 0)"

definition gmul :: "byte \<Rightarrow> byte \<Rightarrow> byte" where
  "gmul a b = gterm a b 0 XOR gterm a b 1 XOR gterm a b 2 XOR gterm a b 3
     XOR gterm a b 4 XOR gterm a b 5 XOR gterm a b 6 XOR gterm a b 7"

text \<open>The inverse is the 254th power, by repeated squaring.\<close>

definition gpow2 :: "byte \<Rightarrow> byte" where
  "gpow2 a = gmul a a"

definition ginv :: "byte \<Rightarrow> byte" where
  "ginv a =
     (let a2 = gpow2 a; a4 = gpow2 a2; a8 = gpow2 a4; a16 = gpow2 a8; a32 = gpow2 a16;
          a64 = gpow2 a32; a128 = gpow2 a64
      in gmul a128 (gmul a64 (gmul a32 (gmul a16 (gmul a8 (gmul a4 a2))))))"

section \<open>Linearity\<close>

lemma xtime_xor: "xtime (a XOR b) = xtime a XOR xtime b"
  by (simp add: xtime_def bit_xor_iff push_bit_xor ac_simps)

lemma xtimes_xor: "(xtime ^^ n) (a XOR b) = (xtime ^^ n) a XOR (xtime ^^ n) b"
  by (induction n) (simp_all add: xtime_xor)

lemma gmul_xor_left: "gmul (a XOR a') b = gmul a b XOR gmul a' b"
proof -
  have "gterm (a XOR a') b i = gterm a b i XOR gterm a' b i" for i
    by (simp add: gterm_def xtimes_xor)
  then show ?thesis by (simp add: gmul_def ac_simps)
qed

lemma gmul_xor_right: "gmul a (b XOR b') = gmul a b XOR gmul a b'"
proof -
  have "gterm a (b XOR b') i = gterm a b i XOR gterm a b' i" for i
    by (simp add: gterm_def bit_xor_iff)
  then show ?thesis by (simp add: gmul_def ac_simps)
qed

definition linear :: "(byte \<Rightarrow> byte) \<Rightarrow> bool" where
  "linear f \<longleftrightarrow> (\<forall>x y. f (x XOR y) = f x XOR f y)"

lemma linear_zero: "linear f \<Longrightarrow> f 0 = 0"
  unfolding linear_def by (metis bit.xor_self)

definition gbit :: "byte \<Rightarrow> nat \<Rightarrow> byte" where
  "gbit x i = (if bit x i then push_bit i 1 else 0)"

lemma less_8_cases: "n < (8 :: nat) \<Longrightarrow> n = 0 \<or> n = 1 \<or> n = 2 \<or> n = 3 \<or> n = 4 \<or> n = 5 \<or> n = 6 \<or> n = 7"
  by linarith

lemma byte_expand: "x = gbit x 0 XOR gbit x 1 XOR gbit x 2 XOR gbit x 3
    XOR gbit x 4 XOR gbit x 5 XOR gbit x 6 XOR gbit x 7"
proof (rule bit_word_eqI)
  fix n
  assume "n < LENGTH(8)"
  then have "n < 8" by simp
  have "bit (gbit x i) n \<longleftrightarrow> n = i \<and> bit x i" for i
    using \<open>n < 8\<close> by (auto simp: gbit_def bit_simps)
  with less_8_cases [OF \<open>n < 8\<close>] show "bit x n = bit (gbit x 0 XOR gbit x 1 XOR gbit x 2 XOR gbit x 3
    XOR gbit x 4 XOR gbit x 5 XOR gbit x 6 XOR gbit x 7) n"
    by (elim disjE) (simp_all add: bit_xor_iff)
qed

text \<open>Two linear functions that agree on the eight powers of two are equal.\<close>

lemma linear_ext:
  assumes "linear f" "linear g" and "\<And>i. i < 8 \<Longrightarrow> f (push_bit i 1) = g (push_bit i 1)"
  shows "f x = g x"
proof -
  have eq: "f (gbit x i) = g (gbit x i)" if "i < 8" for i
    using that assms(3) linear_zero [OF assms(1)] linear_zero [OF assms(2)] by (simp add: gbit_def)
  have expand: "h x = h (gbit x 0) XOR h (gbit x 1) XOR h (gbit x 2) XOR h (gbit x 3)
      XOR h (gbit x 4) XOR h (gbit x 5) XOR h (gbit x 6) XOR h (gbit x 7)" if "linear h" for h
    using that by (subst byte_expand [of x]) (simp only: linear_def)
  show ?thesis unfolding expand [OF assms(1)] expand [OF assms(2)] by (simp add: eq)
qed

section \<open>Field laws\<close>

lemma gmul_eval [eval_simps]: "gmul a b =
   (if bit b 0 then a else 0) XOR (if bit b 1 then xtime a else 0) XOR
   (if bit b 2 then xtime (xtime a) else 0) XOR (if bit b 3 then xtime (xtime (xtime a)) else 0) XOR
   (if bit b 4 then xtime (xtime (xtime (xtime a))) else 0) XOR
   (if bit b 5 then xtime (xtime (xtime (xtime (xtime a)))) else 0) XOR
   (if bit b 6 then xtime (xtime (xtime (xtime (xtime (xtime a))))) else 0) XOR
   (if bit b 7 then xtime (xtime (xtime (xtime (xtime (xtime (xtime a)))))) else 0)"
  by (simp add: gmul_def gterm_def eval_nat_numeral)

lemma linear_gmul: "linear (\<lambda>x. gmul x c)" "linear (\<lambda>x. gmul c x)"
  by (simp_all add: linear_def gmul_xor_left gmul_xor_right)

lemma linear_comp: "linear f \<Longrightarrow> linear g \<Longrightarrow> linear (\<lambda>x. f (g x))"
  by (simp add: linear_def)

text \<open>Multiplying by a power of two is repeated \<open>xtime\<close>; the powers of two are iterates of \<open>xtime\<close> on 1.\<close>

lemma gmul_push: "i < 8 \<Longrightarrow> gmul a (push_bit i 1) = (xtime ^^ i) a"
proof -
  assume i: "i < 8"
  have "gterm a (push_bit i 1) j = (if j = i then (xtime ^^ i) a else 0)" if "j < 8" for j
    using that i by (auto simp: gterm_def bit_simps)
  with less_8_cases [OF i] show ?thesis
    by (elim disjE) (simp_all add: gmul_def)
qed

lemma xtimes_one: "i < 8 \<Longrightarrow> (xtime ^^ i) 1 = push_bit i 1"
proof (induction i)
  case 0
  then show ?case by simp
next
  case (Suc i)
  then show ?case by (simp add: xtime_def bit_simps push_bit_push_bit add.commute)
qed

lemma gmul_xtime: "gmul (xtime a) b = xtime (gmul a b)"
proof -
  have "xtime 0 = 0" by (simp add: xtime_def)
  then have "gterm (xtime a) b i = xtime (gterm a b i)" for i
    by (simp add: gterm_def funpow_swap1)
  then show ?thesis by (simp add: gmul_def xtime_xor)
qed

lemma gmul_xtimes: "gmul ((xtime ^^ i) a) b = (xtime ^^ i) (gmul a b)"
  by (induction i) (simp_all add: gmul_xtime)

lemma gmul_commute: "gmul a b = gmul b a"
proof (rule linear_ext [where f = "\<lambda>a. gmul a b" and g = "\<lambda>a. gmul b a"])
  fix i :: nat
  assume i: "i < 8"
  show "gmul (push_bit i 1) b = gmul b (push_bit i 1)"
  proof (rule linear_ext [where f = "\<lambda>b. gmul (push_bit i 1) b" and g = "\<lambda>b. gmul b (push_bit i 1)"])
    fix j :: nat
    assume j: "j < 8"
    have "(xtime ^^ j) (push_bit i 1) = (xtime ^^ i) (push_bit j 1)"
      unfolding xtimes_one [OF i, symmetric] xtimes_one [OF j, symmetric] funpow_funpow
      by (simp add: add.commute)
    with i j show "gmul (push_bit i 1) (push_bit j 1) = gmul (push_bit j 1) (push_bit i 1)"
      by (simp only: gmul_push)
  qed (rule linear_gmul)+
qed (rule linear_gmul)+

lemma gmul_one: "gmul a 1 = a"
  using gmul_push [of 0 a] by simp

lemma gmul_assoc: "gmul (gmul a b) c = gmul a (gmul b c)"
proof (rule linear_ext [where f = "\<lambda>b. gmul (gmul a b) c" and g = "\<lambda>b. gmul a (gmul b c)"])
  show "linear (\<lambda>b. gmul (gmul a b) c)" "linear (\<lambda>b. gmul a (gmul b c))"
    using linear_comp linear_gmul by fast+
next
  fix i :: nat
  assume i: "i < 8"
  have push: "gmul (push_bit i 1) x = (xtime ^^ i) x" for x
    using i by (simp only: gmul_commute [of _ x] gmul_push)
  have "gmul (gmul a (push_bit i 1)) c = (xtime ^^ i) (gmul a c)"
    by (simp only: gmul_push [OF i] gmul_xtimes)
  also have "\<dots> = gmul ((xtime ^^ i) c) a"
    by (simp only: gmul_xtimes gmul_commute [of a c])
  also have "\<dots> = gmul a (gmul (push_bit i 1) c)"
    by (simp only: push gmul_commute [of a])
  finally show "gmul (gmul a (push_bit i 1)) c = gmul a (gmul (push_bit i 1) c)" .
qed

section \<open>The multiplicative group is generated by 2\<close>

definition gexp :: "nat \<Rightarrow> byte" where
  "gexp n = (xtime ^^ n) 1"

lemma gexp_add: "gexp (m + n) = gmul (gexp m) (gexp n)"
proof -
  have "gmul (gexp m) (gexp n) = (xtime ^^ m) (gmul 1 (gexp n))"
    by (simp add: gexp_def gmul_xtimes)
  also have "\<dots> = gexp (m + n)"
    unfolding gmul_commute [of 1] gmul_one by (simp add: gexp_def funpow_funpow)
  finally show ?thesis ..
qed

lemma gexp_small:
  "gexp 0 = 1" "gexp 15 = 38" "gexp 51 = 10" "gexp 85 = 214" "gexp 255 = 1"
proof -
  show "gexp 0 = 1" by (simp add: gexp_def)
  have e1: "gexp 1 = 2" by (simp add: gexp_def xtime_def)
  have e2: "gexp 2 = 4" by (simp add: gexp_def xtime_def numeral_2_eq_2)
  have e4: "gexp 4 = 16" using gexp_add [of 2 2] e2 by (simp add: eval_simps xtime_def)
  have e5: "gexp 5 = 32" using gexp_add [of 4 1] e4 e1 by (simp add: eval_simps xtime_def)
  have e10: "gexp 10 = 116" using gexp_add [of 5 5] e5 by (simp add: eval_simps xtime_def)
  show e15: "gexp 15 = 38" using gexp_add [of 10 5] e10 e5 by (simp add: eval_simps xtime_def)
  have e17: "gexp 17 = 152" using gexp_add [of 15 2] e15 e2 by (simp add: eval_simps xtime_def)
  have e34: "gexp 34 = 78" using gexp_add [of 17 17] e17 by (simp add: eval_simps xtime_def)
  show e51: "gexp 51 = 10" using gexp_add [of 34 17] e34 e17 by (simp add: eval_simps xtime_def)
  show e85: "gexp 85 = 214" using gexp_add [of 51 34] e51 e34 by (simp add: eval_simps xtime_def)
  have e170: "gexp 170 = 215" using gexp_add [of 85 85] e85 by (simp add: eval_simps xtime_def)
  show "gexp 255 = 1" using gexp_add [of 170 85] e170 e85 by (simp add: eval_simps xtime_def)
qed

lemma gexp_mult: "gexp n = 1 \<Longrightarrow> gexp (n * q) = 1"
  by (induction q) (simp_all add: gexp_small gexp_add gmul_one)

lemma gexp_neq_1:
  assumes "0 < d" "d < 255"
  shows "gexp d \<noteq> 1"
proof
  assume d: "gexp d = 1"
  let ?g = "gcd d 255"
  from bezout_nat [of d 255] assms obtain x y where "d * x = 255 * y + ?g" by auto
  with gexp_mult [OF d, of x] gexp_mult [OF gexp_small(5), of y] have g: "gexp ?g = 1"
    by (simp add: gexp_add gmul_commute [of 1] gmul_one)
  have "?g < 255" using gcd_le1_nat [of d 255] assms by linarith
  moreover have "\<forall>g\<in>set [0..<255]. g dvd 255 \<longrightarrow> g dvd 15 \<or> g dvd 51 \<or> g dvd (85 :: nat)"
    by code_simp
  ultimately have "?g dvd 15 \<or> ?g dvd 51 \<or> ?g dvd 85" by simp
  then have "gexp 15 = 1 \<or> gexp 51 = 1 \<or> gexp 85 = 1"
    using gexp_mult [OF g] by (metis dvdE)
  then show False by (simp add: gexp_small)
qed

lemma xtimes_gexp: "(xtime ^^ n) a = gmul (gexp n) a"
  unfolding gexp_def gmul_xtimes by (simp only: gmul_commute [of 1] gmul_one)

lemma gexp_nonzero: "gexp n \<noteq> 0"
proof
  assume "gexp n = 0"
  moreover have "gexp (255 * n) = gmul (gexp n) (gexp (254 * n))"
    by (simp flip: gexp_add)
  moreover have "gexp (255 * n) = 1"
    by (rule gexp_mult [OF gexp_small(5)])
  ultimately show False
    using linear_zero [OF linear_gmul(1)] by simp
qed

lemma gexp_inj: "inj_on gexp {..<255}"
proof (rule linorder_inj_onI')
  fix i j :: nat
  assume ij: "i \<in> {..<255}" "j \<in> {..<255}" "i < j"
  show "gexp i \<noteq> gexp j"
  proof
    assume "gexp i = gexp j"
    then have "gexp (255 - i + i) = gexp (255 - i + j)" by (simp only: gexp_add)
    also have "255 - i + j = 255 + (j - i)" using ij by simp
    also have "gexp (255 + (j - i)) = gexp (j - i)"
      by (simp only: gexp_add gexp_small gmul_commute [of 1] gmul_one)
    finally have "gexp (j - i) = 1" using ij by (simp add: gexp_small)
    moreover have "0 < j - i" "j - i < 255" using ij by auto
    ultimately show False using gexp_neq_1 by blast
  qed
qed

lemma gexp_surj: "a \<noteq> 0 \<Longrightarrow> \<exists>i. a = gexp i"
proof -
  assume "a \<noteq> 0"
  have "card (gexp ` {..<255}) = 255" by (simp add: card_image gexp_inj)
  moreover have "card (UNIV - {0 :: byte}) = 255" by (simp add: card_Diff_singleton card_word)
  ultimately have "gexp ` {..<255} = UNIV - {0}"
    using gexp_nonzero by (intro card_subset_eq) auto
  with \<open>a \<noteq> 0\<close> show ?thesis by (metis DiffI UNIV_I imageE singletonD)
qed

lemma ginv_right:
  assumes "a \<noteq> 0"
  shows "gmul a (ginv a) = 1"
proof -
  from gexp_surj [OF assms] obtain i where a: "a = gexp i" by blast
  have square: "gpow2 (gexp n) = gexp (2 * n)" for n
    by (simp add: gpow2_def mult_2 gexp_add)
  have "gmul a (ginv a) = gexp (255 * i)"
    unfolding a ginv_def Let_def square gexp_add [symmetric] by (rule arg_cong [where f = gexp]) simp
  also have "\<dots> = 1" by (rule gexp_mult [OF gexp_small(5)])
  finally show ?thesis .
qed

section \<open>The field\<close>

typedef gf256 = "UNIV :: byte set" morphisms gf_byte Gf ..

setup_lifting type_definition_gf256

instantiation gf256 :: field
begin

lift_definition zero_gf256 :: gf256 is 0 .
lift_definition one_gf256 :: gf256 is 1 .
lift_definition plus_gf256 :: "gf256 \<Rightarrow> gf256 \<Rightarrow> gf256" is "(XOR)" .
lift_definition minus_gf256 :: "gf256 \<Rightarrow> gf256 \<Rightarrow> gf256" is "(XOR)" .
lift_definition uminus_gf256 :: "gf256 \<Rightarrow> gf256" is "\<lambda>a. a" .
lift_definition times_gf256 :: "gf256 \<Rightarrow> gf256 \<Rightarrow> gf256" is gmul .
lift_definition inverse_gf256 :: "gf256 \<Rightarrow> gf256" is ginv .

definition divide_gf256 :: "gf256 \<Rightarrow> gf256 \<Rightarrow> gf256" where
  "divide_gf256 a b = a * inverse b"

instance
proof
  fix a b c :: gf256
  show "a * b * c = a * (b * c)" by transfer (rule gmul_assoc)
  show "a * b = b * a" by transfer (rule gmul_commute)
  show "1 * a = a" by transfer (simp only: gmul_commute [of 1] gmul_one)
  show "a + b + c = a + (b + c)" by transfer (rule xor.assoc)
  show "a + b = b + a" by transfer (rule xor.commute)
  show "0 + a = a" by transfer simp
  show "- a + a = 0" by transfer simp
  show "a - b = a + - b" by transfer simp
  show "(a + b) * c = a * c + b * c" by transfer (rule gmul_xor_left)
  show "(0 :: gf256) \<noteq> 1" by transfer simp
  show "a \<noteq> 0 \<Longrightarrow> inverse a * a = 1" by transfer (metis ginv_right gmul_commute)
  show "a div b = a * inverse b" by (rule divide_gf256_def)
  show "inverse (0 :: gf256) = 0"
    by transfer (simp add: ginv_def gpow2_def linear_zero [OF linear_gmul(1)])
qed

end

end
