(* ===== verification/Config.thy ===== *)
theory Config
  imports Prelude
begin

text \<open>
  The compile-time constants: \<open>common/config/config.go\<close> (used by \<open>common/codec\<close>),
  \<open>common/constants/constants.go\<close> (used by \<open>common/erasure\<close>) and
  \<open>senders/internal/constants/constants.go\<close> (used by the sender process). The three packages repeat
  the block geometry; \<open>geometry\<close> collects the equalities the rest of the development relies on.
\<close>

section \<open>common/config\<close>

definition config_DataShards :: nat where "config_DataShards = 100"
definition config_ParityShards :: nat where "config_ParityShards = 50"
definition config_ShardSize :: nat where "config_ShardSize = 1344"
definition config_BlockSize :: nat where "config_BlockSize = config_DataShards * config_ShardSize"
definition config_NSymbols :: nat where "config_NSymbols = config_DataShards + config_ParityShards"
definition config_MaxUDPPayload :: nat where "config_MaxUDPPayload = 1400"

text \<open>Durations are in nanoseconds, as \<open>time.Duration\<close> is.\<close>

definition config_StaleAfter :: int where "config_StaleAfter = 30 * 1000000000"

section \<open>common/constants\<close>

definition common_BlockSize :: nat where "common_BlockSize = 134400"
definition common_DefaultDataShrads :: nat where "common_DefaultDataShrads = 100"
definition common_DefaultParityShards :: nat where "common_DefaultParityShards = 50"
definition common_MaxShardSize :: nat where "common_MaxShardSize = 1344"
definition common_MaxBlockSize :: nat where
  "common_MaxBlockSize = common_DefaultDataShrads * common_MaxShardSize"
definition common_ChunkSize :: nat where "common_ChunkSize = 134400"
definition common_CounterFilePath :: string where "common_CounterFilePath = ''../../../shared/counter/''"

section \<open>senders/internal/constants\<close>

definition senders_DefaultTargetAddr :: string where "senders_DefaultTargetAddr = ''127.0.0.1:1400''"
definition senders_DefaultSocketPath :: string where "senders_DefaultSocketPath = ''/tmp/monitor.sock''"
definition senders_CounterFilePrefix :: string where "senders_CounterFilePrefix = ''counter_''"
definition senders_CounterFileExt :: string where "senders_CounterFileExt = ''.bin''"
definition senders_CounterFileTemplate :: string where
  "senders_CounterFileTemplate = senders_CounterFilePrefix @ ''%d'' @ senders_CounterFileExt"
definition senders_BlockSize :: nat where "senders_BlockSize = 134400"
definition senders_DefaultDataShrads :: nat where "senders_DefaultDataShrads = 100"
definition senders_DefaultParityShards :: nat where "senders_DefaultParityShards = 50"
definition senders_BlocksJump :: nat where "senders_BlocksJump = 8"
definition senders_MaxShardSize :: nat where "senders_MaxShardSize = 1344"
definition senders_MaxBlockSize :: nat where
  "senders_MaxBlockSize = senders_DefaultDataShrads * senders_MaxShardSize"
definition senders_ChunkSize :: nat where "senders_ChunkSize = 134400"
definition senders_DefaultFileMode :: nat where "senders_DefaultFileMode = 438"
definition senders_UDPWriteBufferSize :: nat where "senders_UDPWriteBufferSize = 4 * 1024 * 1024"
definition senders_PacingBatchThreshold :: nat where "senders_PacingBatchThreshold = 16"
definition senders_PacingInterval :: int where "senders_PacingInterval = 50 * 1000"
definition senders_CounterFilePath :: string where "senders_CounterFilePath = ''../shared/counter/''"

section \<open>The shared geometry\<close>

text \<open>Every package's constants in terms of those of \<open>config\<close>; the numbers stay folded otherwise.\<close>

lemma geometry:
  "common_DefaultDataShrads = config_DataShards" "senders_DefaultDataShrads = config_DataShards"
  "common_DefaultParityShards = config_ParityShards" "senders_DefaultParityShards = config_ParityShards"
  "common_MaxShardSize = config_ShardSize" "senders_MaxShardSize = config_ShardSize"
  "common_BlockSize = config_BlockSize" "senders_BlockSize = config_BlockSize"
  "common_MaxBlockSize = config_BlockSize" "senders_MaxBlockSize = config_BlockSize"
  "common_ChunkSize = config_BlockSize" "senders_ChunkSize = config_BlockSize"
  by (simp_all add: common_DefaultDataShrads_def senders_DefaultDataShrads_def config_DataShards_def
      common_DefaultParityShards_def senders_DefaultParityShards_def config_ParityShards_def
      common_MaxShardSize_def senders_MaxShardSize_def config_ShardSize_def common_BlockSize_def
      senders_BlockSize_def config_BlockSize_def common_MaxBlockSize_def senders_MaxBlockSize_def
      common_ChunkSize_def senders_ChunkSize_def)

lemmas config_values = config_DataShards_def config_ParityShards_def config_ShardSize_def
  config_BlockSize_def config_NSymbols_def

lemma config_nonzero [simp]:
  "config_DataShards \<noteq> 0" "config_ParityShards \<noteq> 0" "config_ShardSize \<noteq> 0" "config_BlockSize \<noteq> 0"
  by (simp_all add: config_values)

lemma config_positive [simp]:
  "0 < config_DataShards" "0 < config_ParityShards" "0 < config_ShardSize" "0 < config_BlockSize"
  by (simp_all add: config_values)

end
