(* ===== verification/Erasure.thy ===== *)
theory Erasure
  imports Config
begin

text \<open>
  Erasure coding of one block: \<open>common/codec/codec.go\<close> (\<open>NewCodec\<close>, \<open>EncodeBlock\<close>, \<open>DecodeBlock\<close>),
  \<open>common/erasure\<close> (\<open>EncodeBlock\<close>, \<open>ReconstructBlock\<close>) and the sender's own copy
  \<open>senders/internal/erasure/fec.go\<close>. The Reed-Solomon arithmetic is the external package
  \<open>klauspost/reedsolomon\<close>: its codec is a parameter of type \<open>Codec\<close>, its documented behaviour the
  locale \<open>rs_code\<close> and the behaviour of its constructor the locale \<open>rs_library\<close>.

  A shard slice is \<open>byte list list\<close>; a missing shard (\<open>nil\<close>) is \<open>[]\<close>.
\<close>

section \<open>The injected codec\<close>

text \<open>
  \<open>Encode\<close> and \<open>Reconstruct\<close> work in place in Go; here they return the updated shards, or the error.
\<close>

record Codec =
  Encode :: "byte list list \<Rightarrow> byte list list res"
  Reconstruct :: "byte list list \<Rightarrow> byte list list res"
  Verify :: "byte list list \<Rightarrow> bool res"

definition NewCodec :: "(int \<Rightarrow> int \<Rightarrow> Codec res) \<Rightarrow> Codec res" where
  "NewCodec rs_New =
     (case rs_New (int config_DataShards) (int config_ParityShards) of
        Inl err \<Rightarrow> Inl (Wrap ''codec: construct k=%d m=%d''
          [D (int config_DataShards), D (int config_ParityShards)] err)
      | Inr enc \<Rightarrow> Inr enc)"

section \<open>Splitting a block into shards\<close>

text \<open>\<open>s[a:b]\<close>\<close>

definition slice :: "nat \<Rightarrow> nat \<Rightarrow> 'a list \<Rightarrow> 'a list" where
  "slice a b xs = take (b - a) (drop a xs)"

text \<open>
  The copy loop of the three \<open>EncodeBlock\<close> functions, for \<open>k\<close> data shards of \<open>sz\<close> bytes, from
  shard \<open>index\<close> on; it stops early at the first shard that starts behind the end of the block.
\<close>

function fill_shards :: "nat \<Rightarrow> nat \<Rightarrow> byte list \<Rightarrow> nat \<Rightarrow> byte list list \<Rightarrow> byte list list" where
  "fill_shards k sz block index shards =
     (if index < k then
        (let start = index * sz in
         if start \<ge> length block then shards
         else
           (let stop = start + sz;
                stop = (if stop > length block then length block else stop)
            in fill_shards k sz block (Suc index)
                 (shards[index := go_copy (shards ! index) (slice start stop block)])))
      else shards)"
  by pat_completeness auto
termination
  by (relation "measure (\<lambda>(k, sz, block, index, shards). k - index)") auto

declare fill_shards.simps [simp del]

section \<open>common/codec\<close>

definition codec_EncodeBlock :: "Codec \<Rightarrow> byte list \<Rightarrow> byte list list res" where
  "codec_EncodeBlock encoder block =
     (if length block > config_BlockSize then
        Inl (Errorf ''codec: block size %d exceeds max %d'' [D (int (length block)), D (int config_BlockSize)])
      else
        (let shards = replicate config_NSymbols (replicate config_ShardSize 0);
             shards = fill_shards config_DataShards config_ShardSize block 0 shards
         in case Encode encoder shards of
              Inl err \<Rightarrow> Inl (Wrap ''codec: encode parity'' [] err)
            | Inr shards \<Rightarrow> Inr shards))"

text \<open>The loop of \<open>DecodeBlock\<close> that keeps the present shards and checks their size.\<close>

fun working_shards :: "nat \<Rightarrow> byte list list \<Rightarrow> bool list \<Rightarrow> byte list list res" where
  "working_shards index (s # ss) (p # ps) =
     (if p then
        if length s \<noteq> config_ShardSize then
          Inl (Errorf ''codec: shard %d size %d, want %d''
            [D (int index), D (int (length s)), D (int config_ShardSize)])
        else map_sum id ((#) s) (working_shards (Suc index) ss ps)
      else map_sum id ((#) []) (working_shards (Suc index) ss ps))"
| "working_shards index _ _ = Inr []"

definition codec_DecodeBlock :: "Codec \<Rightarrow> byte list list \<Rightarrow> bool list \<Rightarrow> byte list res" where
  "codec_DecodeBlock decoder shards present =
     (if length shards \<noteq> config_NSymbols \<or> length present \<noteq> config_NSymbols then
        Inl (Errorf ''codec: want %d shards, got %d/%d''
          [D (int config_NSymbols), D (int (length shards)), D (int (length present))])
      else
        (let presentCount = length (filter id present) in
         if presentCount < config_DataShards then
           Inl (Errorf ''codec: need %d symbols, have %d'' [D (int config_DataShards), D (int presentCount)])
         else
           (case working_shards 0 shards present of
              Inl err \<Rightarrow> Inl err
            | Inr workingShards \<Rightarrow>
                (case Reconstruct decoder workingShards of
                   Inl err \<Rightarrow> Inl (Wrap ''codec: reconstruct'' [] err)
                 | Inr workingShards \<Rightarrow>
                     (case Verify decoder workingShards of
                        Inl err \<Rightarrow> Inl (Wrap ''codec: verify'' [] err)
                      | Inr verified \<Rightarrow>
                          if \<not> verified then Inl (Errorf ''codec: verify failed after reconstruct'' [])
                          else Inr (concat (take config_DataShards workingShards)))))))"

section \<open>common/erasure\<close>

definition erasure_EncodeBlock :: "(int \<Rightarrow> int \<Rightarrow> Codec res) \<Rightarrow> byte list \<Rightarrow> byte list list res" where
  "erasure_EncodeBlock rs_New block =
     (if length block > common_MaxBlockSize then
        Inl (Errorf ''block size: %d is to big, max size: %d''
          [D (int (length block)), D (int common_MaxBlockSize)])
      else
        (case rs_New (int common_DefaultDataShrads) (int common_DefaultParityShards) of
           Inl err \<Rightarrow> Inl (Wrap ''encoder failed to construct'' [] err)
         | Inr enc \<Rightarrow>
             (let data = replicate (common_DefaultDataShrads + common_DefaultParityShards)
                    (replicate common_MaxShardSize 0);
                  data = fill_shards common_DefaultDataShrads common_MaxShardSize block 0 data
              in case Encode enc data of
                   Inl err \<Rightarrow> Inl (Wrap ''failed to populate the parity shards'' [] err)
                 | Inr data \<Rightarrow> Inr data)))"

text \<open>
  The final slice \<open>shards[:dataShards]\<close> is in range whenever \<open>Reconstruct\<close> succeeds: it rejects shard
  slices whose length is not the sum of its two dimensions.
\<close>

definition ReconstructBlock ::
  "(int \<Rightarrow> int \<Rightarrow> Codec res) \<Rightarrow> byte list list \<Rightarrow> int \<Rightarrow> int \<Rightarrow> byte list list res" where
  "ReconstructBlock rs_New shards dataShards parityShards =
     (case rs_New dataShards parityShards of
        Inl err \<Rightarrow> Inl (Wrap ''encoder failed to construct'' [] err)
      | Inr enc \<Rightarrow>
          (case Reconstruct enc shards of
             Inl err \<Rightarrow> Inl (Wrap ''reconstruct failed'' [] err)
           | Inr shards \<Rightarrow> Inr (take (nat dataShards) shards)))"

section \<open>senders/internal/erasure\<close>

definition senders_EncodeBlock :: "(int \<Rightarrow> int \<Rightarrow> Codec res) \<Rightarrow> byte list \<Rightarrow> byte list list res" where
  "senders_EncodeBlock rs_New block =
     (if length block > senders_MaxBlockSize then
        Inl (Errorf ''block size: %d is to big, max size: %d''
          [D (int (length block)), D (int senders_MaxBlockSize)])
      else
        (case rs_New (int senders_DefaultDataShrads) (int senders_DefaultParityShards) of
           Inl err \<Rightarrow> Inl (Wrap ''encoder failed to construct'' [] err)
         | Inr enc \<Rightarrow>
             (let data = replicate (senders_DefaultDataShrads + senders_DefaultParityShards)
                    (replicate senders_MaxShardSize 0);
                  data = fill_shards senders_DefaultDataShrads senders_MaxShardSize block 0 data
              in case Encode enc data of
                   Inl err \<Rightarrow> Inl (Wrap ''failed to populate the parity shards'' [] err)
                 | Inr data \<Rightarrow> Inr data)))"

section \<open>What the copy loop computes\<close>

definition data_shard :: "nat \<Rightarrow> byte list \<Rightarrow> nat \<Rightarrow> byte list" where
  "data_shard sz block i = pad_to sz (take sz (drop (i * sz) block))"

lemma length_data_shard [simp]: "length (data_shard sz block i) = sz"
  by (simp add: data_shard_def)

lemma data_shard_beyond: "length block \<le> i * sz \<Longrightarrow> data_shard sz block i = replicate sz 0"
  by (simp add: data_shard_def pad_to_def)

lemma fill_shards_eq:
  assumes "index \<le> k" "k \<le> length shards"
    and "\<And>j. index \<le> j \<Longrightarrow> j < k \<Longrightarrow> shards ! j = replicate sz 0"
  shows "fill_shards k sz block index shards
    = take index shards @ map (data_shard sz block) [index..<k] @ drop k shards"
  using assms
proof (induction k sz block index shards rule: fill_shards.induct)
  case (1 k sz block index shards)
  consider (finish) "index = k" | (break) "index < k" "length block \<le> index * sz"
    | (copy) "index < k" "index * sz < length block"
    using "1.prems"(1) by linarith
  then show ?case
  proof cases
    case finish
    then show ?thesis by (simp add: fill_shards.simps)
  next
    case break
    have "j < k \<Longrightarrow> index \<le> j \<Longrightarrow> data_shard sz block j = shards ! j" for j
    proof -
      assume "j < k" "index \<le> j"
      then have "index * sz \<le> j * sz" by simp
      with break have "length block \<le> j * sz" by linarith
      with \<open>j < k\<close> \<open>index \<le> j\<close> show ?thesis by (simp add: "1.prems"(3) data_shard_beyond)
    qed
    then have "shards = take index shards @ map (data_shard sz block) [index..<k] @ drop k shards"
      using "1.prems"(1,2) by (intro nth_equalityI) (auto simp: nth_append)
    with break show ?thesis by (simp add: fill_shards.simps)
  next
    case copy
    let ?e = "if index * sz + sz > length block then length block else index * sz + sz"
    let ?s = "go_copy (shards ! index) (slice (index * sz) ?e block)"
    have s: "?s = data_shard sz block index"
      using "1.prems"(3) [of index] copy
      by (auto simp: slice_def go_copy_zeros data_shard_def)
    have "fill_shards k sz block (Suc index) (shards[index := ?s])
      = take (Suc index) (shards[index := ?s]) @ map (data_shard sz block) [Suc index..<k]
        @ drop k (shards[index := ?s])"
      using "1.prems" copy by (intro "1.IH" [OF _ refl _ refl refl]) auto
    with copy "1.prems"(2) show ?thesis
      by (simp add: fill_shards.simps [of k sz block index] Let_def s upt_conv_Cons
          take_Suc_conv_app_nth)
  qed
qed

lemma concat_data_shards:
  "concat (map (data_shard sz block) [0..<k]) = pad_to (k * sz) (take (k * sz) block)"
proof (induction k)
  case 0
  then show ?case by (simp add: pad_to_def)
next
  case (Suc k)
  show ?case
  proof (cases "k * sz \<le> length block")
    case True
    with Suc have "concat (map (data_shard sz block) [0..<k]) = take (k * sz) block"
      by (simp add: pad_to_def)
    moreover from True have "take (k * sz) block @ data_shard sz block k = pad_to (k * sz + sz) (take (k * sz + sz) block)"
      by (simp add: data_shard_def pad_to_def take_add)
    ultimately show ?thesis by (simp add: add.commute)
  next
    case False
    then show ?thesis
      by (simp add: Suc data_shard_beyond pad_to_def flip: replicate_add)
  qed
qed

section \<open>The contract of the Reed-Solomon package\<close>

text \<open>Dropping the shards that are not marked present.\<close>

definition mask_shards :: "bool list \<Rightarrow> byte list list \<Rightarrow> byte list list" where
  "mask_shards keep ss = map2 (\<lambda>p s. if p then s else []) keep ss"

lemma length_mask_shards [simp]: "length (mask_shards keep ss) = min (length keep) (length ss)"
  by (simp add: mask_shards_def)

lemma nth_mask_shards:
  "i < length keep \<Longrightarrow> i < length ss \<Longrightarrow> mask_shards keep ss ! i = (if keep ! i then ss ! i else [])"
  by (simp add: mask_shards_def)

text \<open>
  The documented behaviour of a codec for \<open>k\<close> data and \<open>m\<close> parity shards, on \<open>k + m\<close> shards of one
  positive size: \<open>Encode\<close> leaves the data shards alone and fills in parity shards that depend on the
  data only; \<open>Reconstruct\<close> restores every missing shard of a codeword as soon as \<open>k\<close> shards are left,
  fails below that and never changes a shard that is present; \<open>Verify\<close> tells whether the parity
  shards fit the data shards.
\<close>

locale rs_code =
  fixes k m :: nat and C :: Codec
  assumes dims: "0 < k" "0 < m"
    and encode_systematic: "length ss = k + m \<Longrightarrow> (\<forall>s\<in>set ss. length s = sz) \<Longrightarrow> 0 < sz \<Longrightarrow>
      \<exists>ps. Encode C ss = Inr (take k ss @ ps) \<and> length ps = m \<and> (\<forall>p\<in>set ps. length p = sz)"
    and encode_data_only: "length ss = k + m \<Longrightarrow> length ts = k + m \<Longrightarrow>
      (\<forall>s\<in>set ss \<union> set ts. length s = sz) \<Longrightarrow> 0 < sz \<Longrightarrow> take k ss = take k ts \<Longrightarrow> Encode C ss = Encode C ts"
    and reconstruct_codeword: "length ss = k + m \<Longrightarrow> (\<forall>s\<in>set ss. length s = sz) \<Longrightarrow> 0 < sz \<Longrightarrow>
      Encode C ss = Inr cw \<Longrightarrow> length keep = k + m \<Longrightarrow> k \<le> length (filter id keep) \<Longrightarrow>
      Reconstruct C (mask_shards keep cw) = Inr cw"
    and reconstruct_few: "length ss = k + m \<Longrightarrow> length (filter (\<lambda>s. s \<noteq> []) ss) < k \<Longrightarrow>
      \<exists>e. Reconstruct C ss = Inl e"
    and reconstruct_shape: "length ss = k + m \<Longrightarrow> (\<forall>s\<in>set ss. length s = sz \<or> s = []) \<Longrightarrow> 0 < sz \<Longrightarrow>
      Reconstruct C ss = Inr rs \<Longrightarrow> length rs = k + m \<and> (\<forall>r\<in>set rs. length r = sz)"
    and reconstruct_keeps: "Reconstruct C ss = Inr rs \<Longrightarrow> i < length ss \<Longrightarrow> ss ! i \<noteq> [] \<Longrightarrow> rs ! i = ss ! i"
    and verify_iff: "length ss = k + m \<Longrightarrow> (\<forall>s\<in>set ss. length s = sz) \<Longrightarrow> 0 < sz \<Longrightarrow>
      Verify C ss = Inr (Encode C ss = Inr ss)"
begin

definition zeros :: "nat \<Rightarrow> byte list list" where
  "zeros sz = replicate (k + m) (replicate sz 0)"

text \<open>The codeword of a block: its data shards and their parity.\<close>

definition codeword :: "nat \<Rightarrow> byte list \<Rightarrow> byte list list res" where
  "codeword sz block = Encode C (fill_shards k sz block 0 (zeros sz))"

lemma filled: "fill_shards k sz block 0 (zeros sz)
    = map (data_shard sz block) [0..<k] @ replicate m (replicate sz 0)"
  by (subst fill_shards_eq) (auto simp: zeros_def)

lemma filled_shape:
  "length (fill_shards k sz block 0 (zeros sz)) = k + m"
  "\<forall>s\<in>set (fill_shards k sz block 0 (zeros sz)). length s = sz"
  by (auto simp: filled)

lemma codeword_ok:
  assumes "0 < sz"
  shows "\<exists>ps. codeword sz block = Inr (map (data_shard sz block) [0..<k] @ ps) \<and> length ps = m
     \<and> (\<forall>p\<in>set ps. length p = sz)"
  using encode_systematic [OF filled_shape [of sz block] assms] by (simp add: codeword_def filled)

lemma codeword_shape:
  assumes "0 < sz" "codeword sz block = Inr cw"
  shows "length cw = k + m" "\<forall>s\<in>set cw. length s = sz" "take k cw = map (data_shard sz block) [0..<k]"
  using codeword_ok [OF assms(1), of block] assms(2) by auto

lemma codeword_fixed:
  assumes "0 < sz" "codeword sz block = Inr cw"
  shows "Encode C cw = Inr cw"
proof -
  from codeword_shape [OF assms] filled_shape [of sz block]
  have "Encode C cw = Encode C (fill_shards k sz block 0 (zeros sz))"
    by (intro encode_data_only [where sz = sz] assms(1)) (auto simp: filled)
  with assms(2) show ?thesis by (simp add: codeword_def)
qed

lemma reconstruct_masked:
  assumes "0 < sz" "codeword sz block = Inr cw" "length keep = k + m" "k \<le> length (filter id keep)"
  shows "Reconstruct C (mask_shards keep cw) = Inr cw"
  using reconstruct_codeword [OF filled_shape [of sz block] assms(1) assms(2) [unfolded codeword_def] assms(3,4)] .

lemma codeword_data:
  assumes "0 < sz" "codeword sz block = Inr cw"
  shows "concat (take k cw) = pad_to (k * sz) (take (k * sz) block)"
  by (simp add: codeword_shape [OF assms] concat_data_shards)

text \<open>A vector of shards that passes \<open>Verify\<close> is the codeword of its own data.\<close>

lemma verified_codeword:
  assumes "0 < sz" "length ss = k + m" "\<forall>s\<in>set ss. length s = sz" "Verify C ss = Inr True"
  shows "codeword sz (concat (take k ss)) = Inr ss"
proof -
  have "data_shard sz (concat (take k ss)) i = ss ! i" if "i < k" for i
  proof -
    have "take sz (drop (i * sz) (concat (take k ss))) = ss ! i"
      using concat_uniform_nth [of "take k ss" sz i] that assms(2,3) by (auto dest: in_set_takeD)
    moreover from that assms(2,3) have "length (ss ! i) = sz" by simp
    ultimately show ?thesis by (simp add: data_shard_def) (simp add: pad_to_def)
  qed
  then have "map (data_shard sz (concat (take k ss))) [0..<k] = take k ss"
    using assms(2) by (intro nth_equalityI) auto
  then have "codeword sz (concat (take k ss)) = Encode C ss"
    unfolding codeword_def using filled_shape [of sz "concat (take k ss)"] assms(1-3)
    by (intro encode_data_only [where sz = sz]) (auto simp: filled)
  moreover from verify_iff [OF assms(2,3,1)] assms(4) have "Encode C ss = Inr ss" by simp
  ultimately show ?thesis by simp
qed

end

text \<open>The constructor \<open>reedsolomon.New\<close>: dimensions that are not positive are refused, dimensions within
  the field size give a codec that satisfies the contract.\<close>

locale rs_library =
  fixes rs_New :: "int \<Rightarrow> int \<Rightarrow> Codec res"
  assumes New_ok: "0 < k \<Longrightarrow> 0 < m \<Longrightarrow> k + m \<le> 256 \<Longrightarrow> \<exists>C. rs_New (int k) (int m) = Inr C \<and> rs_code k m C"
    and New_bad: "a \<le> 0 \<or> b < 0 \<Longrightarrow> \<exists>e. rs_New a b = Inl e"

end
