(* ===== verification/Reed_Solomon.thy ===== *)
theory Reed_Solomon
  imports Complex_Main Galois Erasure
begin

text \<open>
  A reference Reed-Solomon codec: shard \<open>i\<close> holds, byte position by byte position, the value at point
  \<open>i\<close> of the polynomial of degree below \<open>k\<close> that passes through the \<open>k\<close> data bytes at points
  \<open>0, \<dots>, k - 1\<close> (the systematic Vandermonde code). It is not a model of repository code: it
  instantiates the parameter that stands for the external package, and the interpretations at the end
  show that the contracts \<open>rs_code\<close> and \<open>rs_library\<close> are met by a real erasure code.
\<close>

section \<open>Polynomial functions\<close>

definition pf :: "nat \<Rightarrow> ('a::field \<Rightarrow> 'a) \<Rightarrow> bool" where
  "pf n f \<longleftrightarrow> (\<exists>c. \<forall>x. f x = (\<Sum>i<n. c i * x ^ i))"

lemma pf_const: "pf (Suc 0) (\<lambda>x. a)"
  unfolding pf_def by (rule exI [of _ "\<lambda>_. a"]) simp

lemma pf_zero: "pf n (\<lambda>x. 0)"
  unfolding pf_def by (rule exI [of _ "\<lambda>_. 0"]) simp

lemma pf_add: "pf n f \<Longrightarrow> pf n g \<Longrightarrow> pf n (\<lambda>x. f x + g x)"
  unfolding pf_def
proof (elim exE)
  fix c d
  assume "\<forall>x. f x = (\<Sum>i<n. c i * x ^ i)" "\<forall>x. g x = (\<Sum>i<n. d i * x ^ i)"
  then have "\<forall>x. f x + g x = (\<Sum>i<n. (c i + d i) * x ^ i)"
    by (simp add: distrib_right sum.distrib)
  then show "\<exists>c. \<forall>x. f x + g x = (\<Sum>i<n. c i * x ^ i)"
    by (intro exI [of _ "\<lambda>i. c i + d i"])
qed

lemma pf_scale: "pf n f \<Longrightarrow> pf n (\<lambda>x. a * f x)"
  unfolding pf_def
proof (elim exE)
  fix c
  assume "\<forall>x. f x = (\<Sum>i<n. c i * x ^ i)"
  then have "\<forall>x. a * f x = (\<Sum>i<n. (a * c i) * x ^ i)"
    by (simp add: sum_distrib_left mult.assoc)
  then show "\<exists>c. \<forall>x. a * f x = (\<Sum>i<n. c i * x ^ i)"
    by (intro exI [of _ "\<lambda>i. a * c i"])
qed

lemma pf_diff: "pf n f \<Longrightarrow> pf n g \<Longrightarrow> pf n (\<lambda>x. f x - g x)"
  using pf_add [of n f "\<lambda>x. (- 1) * g x"] pf_scale [of n g "- 1"] by simp

lemma pf_sum: "finite J \<Longrightarrow> (\<And>j. j \<in> J \<Longrightarrow> pf n (f j)) \<Longrightarrow> pf n (\<lambda>x. \<Sum>j\<in>J. f j x)"
  by (induction J rule: finite_induct) (simp_all add: pf_zero pf_add)

lemma pf_weaken: "pf n f \<Longrightarrow> pf (Suc n) f"
  unfolding pf_def
proof (elim exE)
  fix c
  assume "\<forall>x. f x = (\<Sum>i<n. c i * x ^ i)"
  then have "\<forall>x. f x = (\<Sum>i<Suc n. (if i < n then c i else 0) * x ^ i)" by simp
  then show "\<exists>c. \<forall>x. f x = (\<Sum>i<Suc n. c i * x ^ i)"
    by (intro exI [of _ "\<lambda>i. if i < n then c i else 0"])
qed

lemma pf_shift: "pf n f \<Longrightarrow> pf (Suc n) (\<lambda>x. x * f x)"
  unfolding pf_def
proof (elim exE)
  fix c
  assume "\<forall>x. f x = (\<Sum>i<n. c i * x ^ i)"
  then have "\<forall>x. x * f x = (\<Sum>i<Suc n. (case i of 0 \<Rightarrow> 0 | Suc j \<Rightarrow> c j) * x ^ i)"
    by (subst sum.lessThan_Suc_shift) (simp add: sum_distrib_left ac_simps)
  then show "\<exists>c. \<forall>x. x * f x = (\<Sum>i<Suc n. c i * x ^ i)"
    by (intro exI [of _ "\<lambda>i. case i of 0 \<Rightarrow> 0 | Suc j \<Rightarrow> c j"])
qed

lemma pf_linear: "pf n f \<Longrightarrow> pf (Suc n) (\<lambda>x. ((x - a) * b) * f x)"
proof -
  assume f: "pf n f"
  have "pf (Suc n) (\<lambda>x. b * (x * f x) - (b * a) * f x)"
    using f by (intro pf_diff pf_scale pf_shift pf_weaken)
  then show ?thesis by (simp add: algebra_simps)
qed

lemma pf_prod: "finite A \<Longrightarrow> pf (Suc (card A)) (\<lambda>x. \<Prod>i\<in>A. (x - a i) * b i)"
  by (induction A rule: finite_induct) (simp_all add: pf_const pf_linear)

text \<open>A polynomial function of degree below \<open>n\<close> that vanishes at \<open>n\<close> points vanishes everywhere.\<close>

lemma pf_roots: "pf (length xs) f \<Longrightarrow> distinct xs \<Longrightarrow> \<forall>x\<in>set xs. f x = 0 \<Longrightarrow> f x = 0"
proof (induction xs arbitrary: f)
  case Nil
  then show ?case by (auto simp: pf_def)
next
  case (Cons a xs)
  from Cons.prems(1) obtain c where c: "\<And>x. f x = (\<Sum>i\<le>length xs. c i * x ^ i)"
    by (auto simp: pf_def lessThan_Suc_atMost)
  from Cons.prems(3) have "f a = 0" by simp
  with c have "(\<Sum>i\<le>length xs. c i * a ^ i) = 0" by simp
  then obtain b where b: "\<And>x. (\<Sum>i\<le>length xs. c i * x ^ i) = (x - a) * (\<Sum>i<length xs. b i * x ^ i)"
    by (rule polyfun_linear_factor_root) blast
  let ?g = "\<lambda>x. \<Sum>i<length xs. b i * x ^ i"
  have "?g y = 0" if "y \<in> set xs" for y
  proof -
    from that Cons.prems(2,3) have "f y = 0" "y \<noteq> a" by auto
    with c b show ?thesis by (metis eq_iff_diff_eq_0 mult_eq_0_iff)
  qed
  moreover have "pf (length xs) ?g" by (auto simp: pf_def)
  ultimately have "?g x = 0" using Cons.prems(2) by (intro Cons.IH) auto
  with c b show ?case by simp
qed

section \<open>Lagrange interpolation\<close>

definition lagr :: "'a::field list \<Rightarrow> nat \<Rightarrow> 'a \<Rightarrow> 'a" where
  "lagr xs j x = (\<Prod>i\<in>{..<length xs} - {j}. (x - xs ! i) * inverse (xs ! j - xs ! i))"

definition interp :: "'a::field list \<Rightarrow> 'a list \<Rightarrow> 'a \<Rightarrow> 'a" where
  "interp xs ys x = (\<Sum>j<length xs. ys ! j * lagr xs j x)"

lemma pf_interp: "pf (length xs) (interp xs ys)"
proof -
  have "pf (length xs) (\<lambda>x. lagr xs j x)" if "j < length xs" for j
  proof -
    have "pf (Suc (card ({..<length xs} - {j})))
        (\<lambda>x. \<Prod>i\<in>{..<length xs} - {j}. (x - xs ! i) * inverse (xs ! j - xs ! i))"
      by (rule pf_prod) simp
    moreover have "Suc (card ({..<length xs} - {j})) = length xs" using that by simp
    ultimately show ?thesis by (simp only: lagr_def)
  qed
  then show ?thesis
    unfolding interp_def by (intro pf_sum pf_scale) auto
qed

lemma lagr_node:
  assumes "distinct xs" "i < length xs" "j < length xs"
  shows "lagr xs j (xs ! i) = (if i = j then 1 else 0)"
proof (cases "i = j")
  case True
  have "(xs ! j - xs ! l) * inverse (xs ! j - xs ! l) = 1" if "l \<in> {..<length xs} - {j}" for l
    using that assms by (intro right_inverse) (auto simp: nth_eq_iff_index_eq)
  with True show ?thesis by (simp add: lagr_def)
next
  case False
  with assms show ?thesis by (auto simp: lagr_def intro!: prod_zero)
qed

lemma interp_node: "distinct xs \<Longrightarrow> i < length xs \<Longrightarrow> interp xs ys (xs ! i) = ys ! i"
proof -
  assume "distinct xs" "i < length xs"
  then have "interp xs ys (xs ! i) = (\<Sum>j<length xs. if j = i then ys ! j else 0)"
    unfolding interp_def by (intro sum.cong) (auto simp: lagr_node)
  with \<open>i < length xs\<close> show ?thesis by simp
qed

text \<open>Interpolating a polynomial function through enough of its own points gives it back.\<close>

lemma interp_unique:
  assumes "pf (length zs) f" "distinct zs"
  shows "interp zs (map f zs) x = f x"
proof -
  have "interp zs (map f zs) x - f x = 0"
  proof (rule pf_roots [of zs "\<lambda>x. interp zs (map f zs) x - f x"])
    show "pf (length zs) (\<lambda>x. interp zs (map f zs) x - f x)"
      by (intro pf_diff pf_interp assms(1))
    show "\<forall>z\<in>set zs. interp zs (map f zs) z - f z = 0"
      using assms(2) by (auto simp: in_set_conv_nth interp_node)
  qed (rule assms(2))
  then show ?thesis by simp
qed

section \<open>The codec\<close>

definition point :: "nat \<Rightarrow> gf256" where
  "point i = Gf (of_nat i)"

lemma point_inj: "inj_on point {..<256}"
proof (rule inj_onI)
  fix i j
  assume "i \<in> {..<256}" "j \<in> {..<256}" "point i = point j"
  then have "(of_nat i :: byte) = of_nat j" by (simp add: point_def Gf_inject)
  with \<open>i \<in> {..<256}\<close> \<open>j \<in> {..<256}\<close> show "i = j" by (simp add: of_nat_inverse word_of_nat_eq_iff take_bit_nat_eq_self)
qed

definition column :: "nat \<Rightarrow> byte list list \<Rightarrow> nat list \<Rightarrow> gf256 list" where
  "column b ss is = map (\<lambda>j. Gf (ss ! j ! b)) is"

text \<open>Shard \<open>i\<close>, of \<open>sz\<close> bytes, interpolated from the shards at the positions \<open>is\<close>.\<close>

definition rs_shard :: "nat \<Rightarrow> byte list list \<Rightarrow> nat list \<Rightarrow> nat \<Rightarrow> byte list" where
  "rs_shard sz ss is i = map (\<lambda>b. gf_byte (interp (map point is) (column b ss is) (point i))) [0..<sz]"

definition rs_encode :: "nat \<Rightarrow> nat \<Rightarrow> byte list list \<Rightarrow> byte list list res" where
  "rs_encode k m ss =
     (if length ss \<noteq> k + m then Inl (LibError ''too few shards given'')
      else
        (let sz = length (hd ss) in
         if sz = 0 then Inl (LibError ''no shard data'')
         else if \<exists>s\<in>set ss. length s \<noteq> sz then Inl (LibError ''shard sizes do not match'')
         else Inr (take k ss @ map (rs_shard sz ss [0..<k]) [k..<k + m])))"

definition rs_reconstruct :: "nat \<Rightarrow> nat \<Rightarrow> byte list list \<Rightarrow> byte list list res" where
  "rs_reconstruct k m ss =
     (if length ss \<noteq> k + m then Inl (LibError ''too few shards given'')
      else
        (let there = filter (\<lambda>i. ss ! i \<noteq> []) [0..<k + m] in
         if length there < k then Inl (LibError ''too few shards given'')
         else
           (let sz = length (ss ! hd there) in
            if \<exists>i\<in>set there. length (ss ! i) \<noteq> sz then Inl (LibError ''shard sizes do not match'')
            else Inr (map (\<lambda>i. if ss ! i \<noteq> [] then ss ! i else rs_shard sz ss (take k there) i) [0..<k + m]))))"

definition rs_verify :: "nat \<Rightarrow> nat \<Rightarrow> byte list list \<Rightarrow> bool res" where
  "rs_verify k m ss = map_sum id (\<lambda>cw. cw = ss) (rs_encode k m ss)"

definition rs_codec :: "nat \<Rightarrow> nat \<Rightarrow> Codec" where
  "rs_codec k m = \<lparr>Encode = rs_encode k m, Reconstruct = rs_reconstruct k m, Verify = rs_verify k m\<rparr>"

definition ref_New :: "int \<Rightarrow> int \<Rightarrow> Codec res" where
  "ref_New a b =
     (if a \<le> 0 \<or> b < 0 then Inl (LibError ''cannot create Encoder with less than one data shard or less than zero parity shards'')
      else if a + b > 256 then Inl (LibError ''cannot create Encoder with more than 256 data+parity shards'')
      else Inr (rs_codec (nat a) (nat b)))"

lemma codec_simps [simp]:
  "Encode (rs_codec k m) = rs_encode k m" "Reconstruct (rs_codec k m) = rs_reconstruct k m"
  "Verify (rs_codec k m) = rs_verify k m"
  by (simp_all add: rs_codec_def)

lemma length_rs_shard [simp]: "length (rs_shard sz ss is i) = sz"
  by (simp add: rs_shard_def)

lemma rs_encode_ok:
  assumes "length ss = k + m" "\<forall>s\<in>set ss. length s = sz" "0 < sz" "0 < k"
  shows "rs_encode k m ss = Inr (take k ss @ map (rs_shard sz ss [0..<k]) [k..<k + m])"
proof -
  from assms have "length (hd ss) = sz" by (cases ss) auto
  with assms show ?thesis by (simp add: rs_encode_def)
qed

text \<open>The polynomial behind byte position \<open>b\<close>, and that it runs through every shard of the codeword.\<close>

abbreviation column_poly :: "nat \<Rightarrow> byte list list \<Rightarrow> nat \<Rightarrow> gf256 \<Rightarrow> gf256" where
  "column_poly k ss b \<equiv> interp (map point [0..<k]) (column b ss [0..<k])"

lemma distinct_points: "\<forall>i\<in>set is. i < 256 \<Longrightarrow> distinct is \<Longrightarrow> distinct (map point is)"
  by (auto simp: distinct_map intro: inj_on_subset [OF point_inj])

lemma codeword_on_poly:
  assumes "length ss = k + m" "\<forall>s\<in>set ss. length s = sz" "k + m \<le> 256" "b < sz" "i < k + m"
  shows "Gf ((take k ss @ map (rs_shard sz ss [0..<k]) [k..<k + m]) ! i ! b) = column_poly k ss b (point i)"
proof (cases "i < k")
  case True
  have "interp (map point [0..<k]) (column b ss [0..<k]) (map point [0..<k] ! i) = column b ss [0..<k] ! i"
    using True assms(3) by (intro interp_node distinct_points) auto
  with True assms(1) show ?thesis by (simp add: nth_append column_def)
next
  case False
  with assms show ?thesis by (simp add: nth_append rs_shard_def gf_byte_inverse)
qed

lemma rs_shard_codeword:
  assumes "length ss = k + m" "\<forall>s\<in>set ss. length s = sz" "k + m \<le> 256"
    and cw: "cw = take k ss @ map (rs_shard sz ss [0..<k]) [k..<k + m]"
    and nodes: "distinct is" "length is = k" "\<forall>j\<in>set is. j < k + m \<and> ts ! j = cw ! j"
    and i: "i < k + m"
  shows "rs_shard sz ts is i = cw ! i"
proof (rule nth_equalityI)
  have len: "length (cw ! i) = sz"
    using assms(1,2) i by (auto simp: cw nth_append)
  then show "length (rs_shard sz ts is i) = length (cw ! i)" by simp
  fix b
  assume "b < length (rs_shard sz ts is i)"
  then have b: "b < sz" by simp
  let ?P = "column_poly k ss b"
  have on: "Gf (cw ! j ! b) = ?P (point j)" if "j < k + m" for j
    unfolding cw using assms(1-3) b that by (rule codeword_on_poly)
  then have "column b ts is = map ?P (map point is)"
    using nodes(3) by (auto simp: column_def)
  moreover have "interp (map point is) (map ?P (map point is)) (point i) = ?P (point i)"
    using nodes assms(3) pf_interp [of "map point [0..<k]"]
    by (intro interp_unique distinct_points) force+
  ultimately have "rs_shard sz ts is i ! b = gf_byte (?P (point i))"
    using b by (simp add: rs_shard_def)
  also have "\<dots> = cw ! i ! b"
    unfolding on [OF i, symmetric] by (simp add: Gf_inverse)
  finally show "rs_shard sz ts is i ! b = cw ! i ! b" .
qed

lemma count_present:
  "length (filter (\<lambda>i. xs ! i) [0..<length xs]) = length (filter id xs)"
proof -
  have "filter id xs = map ((!) xs) (filter (\<lambda>i. xs ! i) [0..<length xs])"
    using filter_map [of id "(!) xs" "[0..<length xs]"] by (simp add: map_nth comp_def)
  then show ?thesis by (metis length_map)
qed

lemma rs_reconstruct_codeword:
  assumes "length ss = k + m" "\<forall>s\<in>set ss. length s = sz" "0 < sz" "0 < k" "k + m \<le> 256"
    and enc: "rs_encode k m ss = Inr cw"
    and keep: "length keep = k + m" "k \<le> length (filter id keep)"
  shows "rs_reconstruct k m (mask_shards keep cw) = Inr cw"
proof -
  let ?ts = "mask_shards keep cw"
  have cw: "cw = take k ss @ map (rs_shard sz ss [0..<k]) [k..<k + m]"
    using enc rs_encode_ok [OF assms(1-4)] by simp
  with assms(1,2) have len: "length cw = k + m" and sz: "i < k + m \<Longrightarrow> length (cw ! i) = sz" for i
    by (auto simp: nth_append)
  have ts: "i < k + m \<Longrightarrow> ?ts ! i = (if keep ! i then cw ! i else [])" for i
    using len keep(1) by (simp add: nth_mask_shards)
  let ?there = "filter (\<lambda>i. ?ts ! i \<noteq> []) [0..<k + m]"
  have there: "?there = filter (\<lambda>i. keep ! i) [0..<k + m]"
    using ts sz assms(3) by (intro filter_cong) force+
  have "length ?there = length (filter id keep)"
    using count_present [of keep] by (simp only: there keep(1))
  with keep(2) have enough: "k \<le> length ?there" by simp
  then have ne: "?there \<noteq> []" using assms(4) by auto
  have size_there: "\<forall>i\<in>set ?there. length (?ts ! i) = sz"
    using ts sz by (auto split: if_splits)
  then have hd: "length (?ts ! hd ?there) = sz" using hd_in_set [OF ne] by blast
  have "rs_shard sz ?ts (take k ?there) i = cw ! i" if "i < k + m" for i
  proof (rule rs_shard_codeword [OF assms(1,2,5) cw _ _ _ that])
    show "distinct (take k ?there)" by (intro distinct_take) simp
    show "length (take k ?there) = k" using enough by simp
    show "\<forall>j\<in>set (take k ?there). j < k + m \<and> ?ts ! j = cw ! j"
      using ts by (auto dest!: in_set_takeD split: if_splits)
  qed
  moreover have "?ts ! i = cw ! i" if "i < k + m" "?ts ! i \<noteq> []" for i
    using ts [OF that(1)] that(2) by (auto split: if_splits)
  ultimately have "map (\<lambda>i. if ?ts ! i \<noteq> [] then ?ts ! i else rs_shard sz ?ts (take k ?there) i) [0..<k + m]
      = map ((!) cw) [0..<length cw]"
    unfolding len by (intro map_cong) auto
  then have "map (\<lambda>i. if ?ts ! i \<noteq> [] then ?ts ! i else rs_shard sz ?ts (take k ?there) i) [0..<k + m] = cw"
    by (simp only: map_nth)
  with enough hd size_there len keep(1) show ?thesis
    by (simp add: rs_reconstruct_def Let_def)
qed

lemma there_length: "length ss = n \<Longrightarrow> length (filter (\<lambda>i. ss ! i \<noteq> []) [0..<n]) = length (filter (\<lambda>s. s \<noteq> []) ss)"
  using count_present [of "map (\<lambda>s. s \<noteq> []) ss"] filter_cong [of "[0..<n]" "[0..<n]" "\<lambda>i. map (\<lambda>s. s \<noteq> []) ss ! i" "\<lambda>i. ss ! i \<noteq> []"]
  by (simp add: filter_map comp_def)

section \<open>The contracts are met\<close>

lemma rs_codec_contract:
  assumes "0 < k" "0 < m" "k + m \<le> 256"
  shows "rs_code k m (rs_codec k m)"
proof unfold_locales
  fix ss :: "byte list list" and sz
  assume ss: "length ss = k + m" "\<forall>s\<in>set ss. length s = sz" "0 < sz"
  show "\<exists>ps. Encode (rs_codec k m) ss = Inr (take k ss @ ps) \<and> length ps = m \<and> (\<forall>p\<in>set ps. length p = sz)"
    using rs_encode_ok [OF ss assms(1)] by auto
  show "Verify (rs_codec k m) ss = Inr (Encode (rs_codec k m) ss = Inr ss)"
    using rs_encode_ok [OF ss assms(1)] by (simp add: rs_verify_def)
next
  fix ss ts :: "byte list list" and sz
  assume *: "length ss = k + m" "length ts = k + m" "\<forall>s\<in>set ss \<union> set ts. length s = sz" "0 < sz"
    "take k ss = take k ts"
  then have "ss ! j = ts ! j" if "j < k" for j using that by (metis nth_take)
  then have "column b ss [0..<k] = column b ts [0..<k]" for b
    by (simp add: column_def)
  then have "rs_shard sz ss [0..<k] = rs_shard sz ts [0..<k]"
    by (simp add: rs_shard_def fun_eq_iff)
  then show "Encode (rs_codec k m) ss = Encode (rs_codec k m) ts"
    using rs_encode_ok [of ss k m sz] rs_encode_ok [of ts k m sz] * assms(1) by simp
next
  fix ss :: "byte list list"
  assume "length ss = k + m" "length (filter (\<lambda>s. s \<noteq> []) ss) < k"
  then show "\<exists>e. Reconstruct (rs_codec k m) ss = Inl e"
    by (simp add: rs_reconstruct_def there_length Let_def)
next
  fix ss rs :: "byte list list" and sz
  assume *: "length ss = k + m" "\<forall>s\<in>set ss. length s = sz \<or> s = []" "0 < sz"
    "Reconstruct (rs_codec k m) ss = Inr rs"
  let ?there = "filter (\<lambda>i. ss ! i \<noteq> []) [0..<k + m]"
  from *(1,4) assms(1) have "?there \<noteq> []"
    by (auto simp: rs_reconstruct_def Let_def split: if_splits)
  then have "hd ?there \<in> set ?there" by (rule hd_in_set)
  moreover have sz: "length (ss ! i) = sz" if "i < k + m" "ss ! i \<noteq> []" for i
    using *(1,2) that by (metis nth_mem)
  ultimately have "length (ss ! hd ?there) = sz" by simp
  with *(1,4) have "rs = map (\<lambda>i. if ss ! i \<noteq> [] then ss ! i else rs_shard sz ss (take k ?there) i) [0..<k + m]"
    by (auto simp: rs_reconstruct_def Let_def split: if_splits)
  with sz show "length rs = k + m \<and> (\<forall>r\<in>set rs. length r = sz)" by auto
next
  fix ss rs :: "byte list list" and i
  assume "Reconstruct (rs_codec k m) ss = Inr rs" "i < length ss" "ss ! i \<noteq> []"
  then show "rs ! i = ss ! i"
    by (auto simp: rs_reconstruct_def Let_def split: if_splits)
qed (use assms rs_reconstruct_codeword in auto)

interpretation reference: rs_library ref_New
proof unfold_locales
  fix k m :: nat
  assume "0 < k" "0 < m" "k + m \<le> 256"
  then show "\<exists>C. ref_New (int k) (int m) = Inr C \<and> rs_code k m C"
    using rs_codec_contract [of k m] by (simp add: ref_New_def flip: of_nat_add)
qed (auto simp: ref_New_def)

interpretation uniflow_code: rs_code config_DataShards config_ParityShards "rs_codec config_DataShards config_ParityShards"
  by (rule rs_codec_contract) (simp_all add: config_values)

end
