(* ===== verification/Block_Coding.thy ===== *)
theory Block_Coding
  imports Reed_Solomon
begin

text \<open>
  Correctness of the block coding functions of theory \<open>Erasure\<close>: round trip through any tolerable
  loss, consistency of every accepted decoding, agreement of the three encoders, error behaviour.
  The Reed-Solomon package enters through its contract \<open>rs_code\<close>; witnesses use the reference codec.
\<close>

section \<open>Encoding\<close>

lemma NSymbols_eq: "config_NSymbols = config_DataShards + config_ParityShards"
  by (simp add: config_NSymbols_def)

lemma BlockSize_eq: "config_BlockSize = config_DataShards * config_ShardSize"
  by (simp add: config_BlockSize_def)

abbreviation uniflow_rs :: "Codec \<Rightarrow> bool" where
  "uniflow_rs C \<equiv> rs_code config_DataShards config_ParityShards C"

abbreviation reference_codec :: Codec where
  "reference_codec \<equiv> rs_codec config_DataShards config_ParityShards"

lemma codec_EncodeBlock_codeword:
  assumes "uniflow_rs C" "length block \<le> config_BlockSize"
  shows "codec_EncodeBlock C block
    = map_sum (Wrap ''codec: encode parity'' []) id (rs_code.codeword config_DataShards config_ParityShards C config_ShardSize block)"
  using assms(2)
  by (simp add: codec_EncodeBlock_def NSymbols_eq rs_code.codeword_def [OF assms(1)] rs_code.zeros_def [OF assms(1)]
      split: sum.split)

lemma codec_EncodeBlock_Inr:
  assumes "uniflow_rs C" "codec_EncodeBlock C block = Inr shards"
  shows "length block \<le> config_BlockSize"
    and "rs_code.codeword config_DataShards config_ParityShards C config_ShardSize block = Inr shards"
proof -
  from assms(2) show "length block \<le> config_BlockSize"
    by (auto simp: codec_EncodeBlock_def split: if_splits)
  with codec_EncodeBlock_codeword [OF assms(1)] assms(2)
  show "rs_code.codeword config_DataShards config_ParityShards C config_ShardSize block = Inr shards"
    by (auto simp: map_sum_def split: sum.splits)
qed

lemma codec_EncodeBlock_total:
  assumes "uniflow_rs C" "length block \<le> config_BlockSize"
  shows "\<exists>shards. codec_EncodeBlock C block = Inr shards"
  using rs_code.codeword_ok [OF assms(1), of config_ShardSize block] codec_EncodeBlock_codeword [OF assms]
  by auto

text \<open>A block of at most \<open>BlockSize\<close> bytes is always encoded, into \<open>NSymbols\<close> shards of exactly \<open>ShardSize\<close>
  bytes whose first \<open>DataShards\<close> shards, concatenated, are the block zero-padded to \<open>BlockSize\<close>; a
  longer block is rejected.\<close>

lemma EncodeBlock_shards:
  assumes "rs_code config_DataShards config_ParityShards C"
  shows "if length block \<le> config_BlockSize
    then \<exists>shards. codec_EncodeBlock C block = Inr shards \<and> length shards = config_NSymbols \<and>
           (\<forall>s\<in>set shards. length s = config_ShardSize) \<and>
           concat (take config_DataShards shards) = pad_to config_BlockSize block
    else \<exists>e. codec_EncodeBlock C block = Inl e"
proof (cases "length block \<le> config_BlockSize")
  case True
  from codec_EncodeBlock_total [OF assms True] obtain shards
    where enc: "codec_EncodeBlock C block = Inr shards" by blast
  note cw = codec_EncodeBlock_Inr(2) [OF assms enc]
  from rs_code.codeword_shape [OF assms _ cw] rs_code.codeword_data [OF assms _ cw] True enc
  show ?thesis by (simp add: NSymbols_eq BlockSize_eq)
next
  case False
  then show ?thesis by (simp add: codec_EncodeBlock_def)
qed

lemma EncodeBlock_shards_witness:
  "\<exists>shards. codec_EncodeBlock reference_codec [1, 2, 3] = Inr shards \<and> length shards = config_NSymbols \<and>
     (\<forall>s\<in>set shards. length s = config_ShardSize) \<and>
     concat (take config_DataShards shards) = pad_to config_BlockSize [1, 2, 3]"
  using EncodeBlock_shards [OF uniflow_code.rs_code_axioms, of "[1, 2, 3]"] by (simp add: config_values)

section \<open>Decoding\<close>

lemma working_shards_iff:
  "length ss = length keep \<Longrightarrow> working_shards index ss keep = Inr ws \<longleftrightarrow>
   ws = mask_shards keep ss \<and> list_all2 (\<lambda>s p. p \<longrightarrow> length s = config_ShardSize) ss keep"
  by (induction index ss keep arbitrary: ws rule: working_shards.induct) (auto simp: mask_shards_def)

lemma working_shards_Inr:
  assumes "length ss = n" "length keep = n" "working_shards index ss keep = Inr ws"
  shows "ws = mask_shards keep ss" "length ws = n"
    and "i < n \<Longrightarrow> keep ! i \<Longrightarrow> length (ss ! i) = config_ShardSize"
  using assms working_shards_iff [of ss keep index ws] by (auto simp: list_all2_conv_all_nth)

lemma working_shards_masked:
  assumes "length cw = length keep" "\<forall>s\<in>set cw. length s = config_ShardSize"
  shows "working_shards index (mask_shards keep cw) keep = Inr (mask_shards keep cw)"
proof -
  have "mask_shards keep (mask_shards keep cw) = mask_shards keep cw"
    using assms(1) by (intro nth_equalityI) (auto simp: nth_mask_shards)
  moreover have "list_all2 (\<lambda>s p. p \<longrightarrow> length s = config_ShardSize) (mask_shards keep cw) keep"
    using assms by (auto simp: list_all2_conv_all_nth nth_mask_shards)
  ultimately show ?thesis using assms(1) by (subst working_shards_iff) auto
qed

lemma decode_masked:
  assumes "uniflow_rs C" and enc: "codec_EncodeBlock C block = Inr cw"
    and "length keep = config_NSymbols" "config_DataShards \<le> length (filter id keep)"
  shows "codec_DecodeBlock C (mask_shards keep cw) keep = Inr (pad_to config_BlockSize block)"
proof -
  note code = codec_EncodeBlock_Inr [OF assms(1) enc]
  note shape = rs_code.codeword_shape [OF assms(1) config_positive(3) code(2)]
  from assms(3) have len: "length cw = length keep" by (simp add: shape(1) NSymbols_eq)
  have "working_shards 0 (mask_shards keep cw) keep = Inr (mask_shards keep cw)"
    using len shape(2) by (rule working_shards_masked)
  moreover have "Reconstruct C (mask_shards keep cw) = Inr cw"
    using rs_code.reconstruct_masked [OF assms(1) config_positive(3) code(2)] assms(3,4)
    by (simp add: NSymbols_eq)
  moreover have "Verify C cw = Inr True"
    using rs_code.verify_iff [OF assms(1) shape(1,2) config_positive(3)]
      rs_code.codeword_fixed [OF assms(1) config_positive(3) code(2)] by simp
  moreover have "concat (take config_DataShards cw) = pad_to config_BlockSize block"
    using rs_code.codeword_data [OF assms(1) config_positive(3) code(2)] code(1) by (simp add: BlockSize_eq)
  ultimately show ?thesis
    using assms(3,4) len by (simp add: codec_DecodeBlock_def Let_def)
qed

text \<open>C17: the erasure-coding round trip. Encode any block of at most \<open>BlockSize\<close> bytes and lose any symbols, as
  long as \<open>DataShards\<close> of the \<open>NSymbols\<close> symbols are left: \<open>DecodeBlock\<close> succeeds and returns the
  original block, zero-padded to \<open>BlockSize\<close>.\<close>

theorem decode_encode_roundtrip:
  assumes "rs_code config_DataShards config_ParityShards C"
    and "length block \<le> config_BlockSize"
    and "length keep = config_NSymbols" "config_DataShards \<le> length (filter id keep)"
  shows "\<exists>shards. codec_EncodeBlock C block = Inr shards \<and>
    codec_DecodeBlock C (mask_shards keep shards) keep = Inr (pad_to config_BlockSize block)"
  using codec_EncodeBlock_total [OF assms(1,2)] decode_masked [OF assms(1) _ assms(3,4)] by blast

text \<open>The witness loses the first fifty symbols, all of them data symbols.\<close>

theorem decode_encode_roundtrip_witness:
  "\<exists>shards. codec_EncodeBlock reference_codec [1, 2, 3] = Inr shards \<and>
    codec_DecodeBlock reference_codec
      (mask_shards (replicate 50 False @ replicate 100 True) shards) (replicate 50 False @ replicate 100 True)
      = Inr (pad_to config_BlockSize [1, 2, 3])"
  by (rule decode_encode_roundtrip [OF uniflow_code.rs_code_axioms]) (simp_all add: config_values)

text \<open>Nothing wrong is ever decoded silently. Whenever \<open>DecodeBlock\<close> accepts a set of received symbols, the
  block it returns has \<open>BlockSize\<close> bytes and encodes to a codeword that agrees with every received
  symbol; so if more than \<open>DataShards\<close> symbols arrived, a symbol that does not fit the others is
  noticed.\<close>

lemma decode_consistent:
  assumes "rs_code config_DataShards config_ParityShards C"
    and "codec_DecodeBlock C shards present = Inr block"
  shows "length block = config_BlockSize \<and>
    (\<exists>cw. codec_EncodeBlock C block = Inr cw \<and> (\<forall>i<config_NSymbols. present ! i \<longrightarrow> cw ! i = shards ! i))"
proof -
  from assms(2) obtain ws rs where len: "length shards = config_NSymbols" "length present = config_NSymbols"
    and ws: "working_shards 0 shards present = Inr ws" and rs: "Reconstruct C ws = Inr rs"
    and ver: "Verify C rs = Inr True" and block: "block = concat (take config_DataShards rs)"
    by (auto simp: codec_DecodeBlock_def Let_def split: if_splits sum.splits)
  note w = working_shards_Inr [OF len ws]
  have "\<forall>s\<in>set ws. length s = config_ShardSize \<or> s = []"
    using w(3) len by (auto simp: w(1) in_set_conv_nth nth_mask_shards split: if_splits)
  then have shape: "length rs = config_NSymbols" "\<forall>r\<in>set rs. length r = config_ShardSize"
    using rs_code.reconstruct_shape [OF assms(1) _ _ config_positive(3) rs] w(2) by (simp_all add: NSymbols_eq)
  then have code: "rs_code.codeword config_DataShards config_ParityShards C config_ShardSize block = Inr rs"
    unfolding block using ver by (intro rs_code.verified_codeword [OF assms(1)]) (simp_all add: NSymbols_eq)
  have lenb: "length block = config_BlockSize"
    using shape length_concat_uniform [of "take config_DataShards rs" config_ShardSize]
    by (auto simp: block BlockSize_eq NSymbols_eq dest: in_set_takeD)
  then have "codec_EncodeBlock C block = Inr rs"
    using codec_EncodeBlock_codeword [OF assms(1), of block] code by simp
  moreover have "rs ! i = shards ! i" if "i < config_NSymbols" "present ! i" for i
  proof -
    have "ws ! i = shards ! i" using that len by (simp add: w(1) nth_mask_shards)
    moreover have "shards ! i \<noteq> []" using w(3) [OF that] by (auto simp: config_ShardSize_def)
    ultimately show ?thesis
      using rs_code.reconstruct_keeps [OF assms(1) rs, of i] that(1) w(2) by simp
  qed
  ultimately show ?thesis using lenb by blast
qed

lemma decode_consistent_witness:
  "\<exists>shards. codec_DecodeBlock reference_codec shards (replicate 100 True @ replicate 50 False)
      = Inr (pad_to config_BlockSize [1, 2, 3]) \<and>
    (\<exists>cw. codec_EncodeBlock reference_codec (pad_to config_BlockSize [1, 2, 3]) = Inr cw \<and>
      (\<forall>i<config_NSymbols. (replicate 100 True @ replicate 50 False) ! i \<longrightarrow> cw ! i = shards ! i))"
proof -
  let ?keep = "replicate 100 True @ replicate 50 False"
  from codec_EncodeBlock_total [OF uniflow_code.rs_code_axioms, of "[1, 2, 3]"]
  obtain cw where "codec_EncodeBlock reference_codec [1, 2, 3] = Inr cw" by (auto simp: config_values)
  then have dec: "codec_DecodeBlock reference_codec (mask_shards ?keep cw) ?keep
      = Inr (pad_to config_BlockSize [1, 2, 3])"
    by (rule decode_masked [OF uniflow_code.rs_code_axioms]) (simp_all add: config_values)
  from decode_consistent [OF uniflow_code.rs_code_axioms dec] dec show ?thesis by blast
qed

section \<open>Errors\<close>

text \<open>What \<open>DecodeBlock\<close> rejects before it touches the codec: a wrong number of shards or presence flags,
  fewer than \<open>DataShards\<close> symbols present, and a present symbol whose size is not \<open>ShardSize\<close>. Every
  such call returns an error, whatever the codec.\<close>

lemma DecodeBlock_rejects:
  assumes "length shards \<noteq> config_NSymbols \<or> length present \<noteq> config_NSymbols \<or>
    length (filter id present) < config_DataShards \<or>
    (\<exists>i<config_NSymbols. present ! i \<and> length (shards ! i) \<noteq> config_ShardSize)"
  shows "\<exists>e. codec_DecodeBlock C shards present = Inl e"
proof (cases "length shards = config_NSymbols \<and> length present = config_NSymbols \<and>
    config_DataShards \<le> length (filter id present)")
  case True
  with assms obtain i where "i < config_NSymbols" "present ! i" "length (shards ! i) \<noteq> config_ShardSize"
    by auto
  with True have "working_shards 0 shards present \<noteq> Inr ws" for ws
    using working_shards_Inr(3) by blast
  with True show ?thesis
    by (cases "working_shards 0 shards present") (auto simp: codec_DecodeBlock_def Let_def)
next
  case False
  then show ?thesis by (auto simp: codec_DecodeBlock_def Let_def)
qed

lemma DecodeBlock_rejects_witness:
  "\<exists>e. codec_DecodeBlock reference_codec (replicate 150 []) (replicate 99 True @ replicate 51 False) = Inl e"
  by (rule DecodeBlock_rejects) (simp add: config_values)

section \<open>The three encoders\<close>

text \<open>The sender's private \<open>EncodeBlock\<close> and the shared one of \<open>common/erasure\<close> are the same function, and
  both produce exactly the shards that \<open>common/codec\<close> produces with the codec of \<open>NewCodec\<close>, so blocks
  encoded by either can be decoded by the other.\<close>

lemma encoders_agree:
  "senders_EncodeBlock New block = erasure_EncodeBlock New block \<and>
   (senders_EncodeBlock New block = Inr shards \<longleftrightarrow>
     length block \<le> config_BlockSize \<and> (\<exists>C. NewCodec New = Inr C \<and> codec_EncodeBlock C block = Inr shards))"
  by (auto simp: senders_EncodeBlock_def erasure_EncodeBlock_def NewCodec_def codec_EncodeBlock_def geometry
      NSymbols_eq Let_def split: sum.splits)

end
