(* ===== verification/Rs_Helper.thy ===== *)
theory Rs_Helper
  imports Framing Packets Block_Coding
begin

text \<open>
  The \<open>rs_helper\<close> process that the session manager asks to reconstruct blocks: the messages of
  \<open>rs-helper.proto\<close>, \<open>FromRequest\<close> (\<open>session-manager/rs_helper/internal/decode/decode.go\<close>) and the
  connection handler of \<open>session-manager/rs_helper/cmd/rs_helper/main.go\<close>. Accepting connections and
  process start-up are operating-system glue and not modelled.
\<close>

section \<open>Messages\<close>

record Shard =
  Shard_SymbolId :: uint32
  Shard_Content :: "byte list"

record ReconstructRequest =
  Req_FileHash :: uint64
  Req_BlockId :: uint32
  Req_KSymbols :: uint32
  Req_NSymbols :: uint32
  Req_Shards :: "Shard list"

record ReconstructResponse =
  Resp_Ok :: bool
  Resp_Error :: string
  Resp_DataShards :: "byte list list"

section \<open>Decoding a request\<close>

definition fail_response :: "string \<Rightarrow> ReconstructResponse" where
  "fail_response msg = \<lparr>Resp_Ok = False, Resp_Error = msg, Resp_DataShards = []\<rparr>"

text \<open>The loop that spreads the received shards over the \<open>n\<close> positions; a later shard with the same id
  overwrites an earlier one.\<close>

fun place_shards :: "int \<Rightarrow> Shard list \<Rightarrow> byte list list \<Rightarrow> ReconstructResponse + byte list list" where
  "place_shards n [] shards = Inr shards"
| "place_shards n (shard # rest) shards =
     (let i = uint (Shard_SymbolId shard) in
      if i < 0 \<or> i \<ge> n then
        Inl (fail_response (Sprintf ''symbol_id %d out of range for n_symbols=%d'' [D i, D n]))
      else place_shards n rest (shards[nat i := Shard_Content shard]))"

definition FromRequest :: "(int \<Rightarrow> int \<Rightarrow> Codec res) \<Rightarrow> ReconstructRequest \<Rightarrow> ReconstructResponse" where
  "FromRequest rs_New req =
     (let k = uint (Req_KSymbols req);
          n = uint (Req_NSymbols req)
      in if k \<le> 0 \<or> n \<le> k then fail_response (Sprintf ''invalid k_symbols=%d n_symbols=%d'' [D k, D n])
         else
           (case place_shards n (Req_Shards req) (replicate (nat n) []) of
              Inl resp \<Rightarrow> resp
            | Inr shards \<Rightarrow>
                (case ReconstructBlock rs_New shards k (n - k) of
                   Inl err \<Rightarrow> fail_response (error_string err)
                 | Inr dataShards \<Rightarrow> \<lparr>Resp_Ok = True, Resp_Error = [], Resp_DataShards = dataShards\<rparr>)))"

section \<open>Serving a connection\<close>

definition readRequest ::
  "(byte list \<Rightarrow> ReconstructRequest res) \<Rightarrow> conn \<Rightarrow> (ReconstructRequest \<times> conn) res" where
  "readRequest unmarshal c =
     (case ReadFull 4 c of
        Inl err \<Rightarrow> Inl err
      | Inr (header, c) \<Rightarrow>
          (case ReadFull (unat (BigEndian_Uint32 header)) c of
             Inl err \<Rightarrow> Inl err
           | Inr (payload, c) \<Rightarrow>
               (case unmarshal payload of
                  Inl err \<Rightarrow> Inl err
                | Inr req \<Rightarrow> Inr (req, c))))"

definition writeResponse ::
  "(ReconstructResponse \<Rightarrow> byte list res) \<Rightarrow> conn \<Rightarrow> ReconstructResponse \<Rightarrow> error option \<times> conn" where
  "writeResponse marshal c resp =
     (case marshal resp of
        Inl err \<Rightarrow> (Some err, c)
      | Inr payload \<Rightarrow>
          (let header = BigEndian_PutUint32 (of_nat (length payload))
           in WriteTo [header, payload] c))"

lemma readRequest_message: "readRequest unmarshal = read_message unmarshal"
  by (rule ext) (simp add: readRequest_def read_message_def read_frame_def split: sum.split)

lemma readRequest_frame:
  "readRequest unmarshal c =
     (case read_frame c of Inl err \<Rightarrow> Inl err
      | Inr (payload, c) \<Rightarrow> map_sum id (\<lambda>req. (req, c)) (unmarshal payload))"
  by (simp add: readRequest_message read_message_def)

lemma writeResponse_rx [simp]: "rx (snd (writeResponse marshal c resp)) = rx c"
  by (simp add: writeResponse_def split: sum.split)

text \<open>
  The handler loops until a read or a write fails; what it logs is kept as a list. A clean end of
  stream (\<open>io.EOF\<close>) is not logged.
\<close>

datatype helper_log =
    ReadError error
  | ReconstructionFailed uint64 uint32 string
  | WriteError error

function handleConnection ::
  "(int \<Rightarrow> int \<Rightarrow> Codec res) \<Rightarrow> (byte list \<Rightarrow> ReconstructRequest res) \<Rightarrow>
   (ReconstructResponse \<Rightarrow> byte list res) \<Rightarrow> conn \<Rightarrow> helper_log list \<Rightarrow> conn \<times> helper_log list" where
  "handleConnection rs_New unmarshal marshal c logs =
     (case readRequest unmarshal c of
        Inl err \<Rightarrow> (c, if err \<noteq> EOF then logs @ [ReadError err] else logs)
      | Inr (req, c1) \<Rightarrow>
          (let resp = FromRequest rs_New req;
               logs = (if \<not> Resp_Ok resp then
                   logs @ [ReconstructionFailed (Req_FileHash req) (Req_BlockId req) (Resp_Error resp)]
                 else logs)
           in case writeResponse marshal c1 resp of
                (Some err, c2) \<Rightarrow> (c2, logs @ [WriteError err])
              | (None, c2) \<Rightarrow> handleConnection rs_New unmarshal marshal c2 logs))"
  by pat_completeness auto
termination
proof (relation "measure (\<lambda>(_, _, _, c, _). length (rx c))", goal_cases)
  case 1
  then show ?case by simp
next
  case (2 rs_New unmarshal marshal c logs b req c1 resp logs' a c2)
  then have "rx c2 = rx c1" using writeResponse_rx [of marshal c1 resp] by (metis snd_conv)
  with 2 read_message_consumes [of unmarshal c req c1, folded readRequest_message] show ?case by simp
qed

declare handleConnection.simps [simp del]

section \<open>Reconstruction\<close>

definition mark_ids :: "bool list \<Rightarrow> Shard list \<Rightarrow> bool list" where
  "mark_ids keep shs = foldl (\<lambda>kp s. kp[unat (Shard_SymbolId s) := True]) keep shs"

lemma length_mark_ids [simp]: "length (mark_ids keep shs) = length keep"
  unfolding mark_ids_def by (induction shs arbitrary: keep) simp_all

lemma nth_mark_ids:
  "i < length keep \<Longrightarrow> mark_ids keep shs ! i \<longleftrightarrow> keep ! i \<or> i \<in> (\<lambda>s. unat (Shard_SymbolId s)) ` set shs"
proof (induction shs arbitrary: keep)
  case Nil
  then show ?case by (simp add: mark_ids_def)
next
  case (Cons s shs)
  from Cons.IH [of "keep[unat (Shard_SymbolId s) := True]"] Cons.prems show ?case
    by (cases "unat (Shard_SymbolId s) = i") (auto simp: mark_ids_def)
qed

lemma mask_shards_update:
  "i < length keep \<Longrightarrow> length cw = length keep \<Longrightarrow> (mask_shards keep cw)[i := cw ! i] = mask_shards (keep[i := True]) cw"
  by (rule nth_equalityI) (auto simp: nth_mask_shards nth_list_update)

lemma mask_shards_none: "length cw = n \<Longrightarrow> replicate n [] = mask_shards (replicate n False) cw"
  by (rule nth_equalityI) (auto simp: nth_mask_shards)

lemma place_shards_codeword:
  "\<forall>s\<in>set shs. unat (Shard_SymbolId s) < n \<and> Shard_Content s = cw ! unat (Shard_SymbolId s) \<Longrightarrow>
   length cw = n \<Longrightarrow> length keep = n \<Longrightarrow>
   place_shards (int n) shs (mask_shards keep cw) = Inr (mask_shards (mark_ids keep shs) cw)"
proof (induction shs arbitrary: keep)
  case Nil
  then show ?case by (simp add: mark_ids_def)
next
  case (Cons s shs)
  let ?i = "unat (Shard_SymbolId s)"
  from Cons.prems have i: "?i < n" "Shard_Content s = cw ! ?i" by auto
  then have range: "uint (Shard_SymbolId s) < int n" "nat (uint (Shard_SymbolId s)) = ?i"
    by (simp_all add: uint_less_int)
  have "(mask_shards keep cw)[?i := cw ! ?i] = mask_shards (keep[?i := True]) cw"
    using i Cons.prems by (intro mask_shards_update) auto
  moreover have "place_shards (int n) shs (mask_shards (keep[?i := True]) cw)
      = Inr (mask_shards (mark_ids (keep[?i := True]) shs) cw)"
    using Cons.prems by (intro Cons.IH) auto
  ultimately show ?case using i range by (simp add: mark_ids_def)
qed

lemma count_mark_ids:
  assumes "\<forall>s\<in>set shs. unat (Shard_SymbolId s) < n"
  shows "length (filter id (mark_ids (replicate n False) shs)) = card ((\<lambda>s. unat (Shard_SymbolId s)) ` set shs)"
proof -
  have "{i. i < n \<and> mark_ids (replicate n False) shs ! i} = (\<lambda>s. unat (Shard_SymbolId s)) ` set shs"
    using assms by (auto simp: nth_mark_ids)
  then show ?thesis by (simp add: length_filter_conv_card)
qed

lemma place_shards_fresh:
  assumes "\<forall>s\<in>set shs. unat (Shard_SymbolId s) < n \<and> Shard_Content s = cw ! unat (Shard_SymbolId s)"
    and "length cw = n"
  shows "place_shards (int n) shs (replicate n []) = Inr (mask_shards (mark_ids (replicate n False) shs) cw)"
  using place_shards_codeword [OF assms, of "replicate n False"] mask_shards_none [OF assms(2)] by simp

lemma library_codec:
  assumes "rs_library rs_New"
  obtains C where "rs_New (int config_DataShards) (int config_ParityShards) = Inr C" "uniflow_rs C"
  using rs_library.New_ok [OF assms, of config_DataShards config_ParityShards] by (auto simp: config_values)

lemma senders_EncodeBlock_codeword:
  assumes "rs_New (int config_DataShards) (int config_ParityShards) = Inr C" "uniflow_rs C"
    and "senders_EncodeBlock rs_New block = Inr cw"
  shows "rs_code.codeword config_DataShards config_ParityShards C config_ShardSize block = Inr cw"
    and "length block \<le> config_BlockSize"
proof -
  from assms(1,3) have "codec_EncodeBlock C block = Inr cw"
    by (auto simp: senders_EncodeBlock_def codec_EncodeBlock_def geometry NSymbols_eq Let_def
        split: if_splits sum.splits)
  with codec_EncodeBlock_Inr [OF assms(2)]
  show "rs_code.codeword config_DataShards config_ParityShards C config_ShardSize block = Inr cw"
    and "length block \<le> config_BlockSize" by blast+
qed

text \<open>The dimensions the sender writes into every packet, as \<open>int\<close> again.\<close>

lemma dims_uint [simp]:
  "uint (of_nat config_DataShards :: uint32) = int config_DataShards"
  "uint (of_nat config_NSymbols :: uint32) = int config_NSymbols"
  by (simp_all add: config_values)

lemma dims_unat [simp]: "unat (of_nat config_NSymbols :: uint32) = config_NSymbols"
  by (simp add: config_values)

lemma DataShards_less: "config_DataShards < config_NSymbols"
  by (simp add: config_values)

lemma FromRequest_codeword:
  assumes "rs_library rs_New" and enc: "senders_EncodeBlock rs_New block = Inr cw"
    and "Req_KSymbols req = of_nat config_DataShards" "Req_NSymbols req = of_nat config_NSymbols"
    and shs: "\<forall>s\<in>set (Req_Shards req). unat (Shard_SymbolId s) < config_NSymbols \<and>
      Shard_Content s = cw ! unat (Shard_SymbolId s)"
    and enough: "config_DataShards \<le> card ((\<lambda>s. unat (Shard_SymbolId s)) ` set (Req_Shards req))"
  shows "FromRequest rs_New req
    = \<lparr>Resp_Ok = True, Resp_Error = [], Resp_DataShards = take config_DataShards cw\<rparr>"
    and "concat (take config_DataShards cw) = pad_to config_BlockSize block"
proof -
  obtain C where C: "rs_New (int config_DataShards) (int config_ParityShards) = Inr C" "uniflow_rs C"
    using library_codec [OF assms(1)] .
  note code = senders_EncodeBlock_codeword [OF C enc]
  from rs_code.codeword_shape(1) [OF C(2) _ code(1)] have len: "length cw = config_NSymbols"
    by (simp add: NSymbols_eq)
  let ?keep = "mark_ids (replicate config_NSymbols False) (Req_Shards req)"
  have "Reconstruct C (mask_shards ?keep cw) = Inr cw"
    using shs enough count_mark_ids [of "Req_Shards req" config_NSymbols]
    by (intro rs_code.reconstruct_masked [OF C(2) _ code(1)]) (auto simp: NSymbols_eq)
  moreover have "place_shards (int config_NSymbols) (Req_Shards req) (replicate config_NSymbols [])
      = Inr (mask_shards ?keep cw)"
    using shs len by (rule place_shards_fresh)
  moreover have "int config_NSymbols - int config_DataShards = int config_ParityShards"
    by (simp add: NSymbols_eq)
  ultimately show "FromRequest rs_New req
      = \<lparr>Resp_Ok = True, Resp_Error = [], Resp_DataShards = take config_DataShards cw\<rparr>"
    using C(1) assms(3,4) DataShards_less by (simp add: FromRequest_def ReconstructBlock_def Let_def)
  show "concat (take config_DataShards cw) = pad_to config_BlockSize block"
    using rs_code.codeword_data [OF C(2) _ code(1)] code(2) by (simp add: BlockSize_eq)
qed

text \<open>C4: \<open>rs_helper\<close> recovers what the sender encoded. A request that carries the sender's dimensions and any
  symbols of one encoded block, in any order and with repetitions, at least \<open>DataShards\<close> of them
  distinct, is answered with \<open>ok\<close> and the data shards, whose concatenation is the block padded to
  \<open>BlockSize\<close>.\<close>

theorem FromRequest_recovers:
  assumes "rs_library rs_New"
    and "senders_EncodeBlock rs_New block = Inr cw"
    and "Req_KSymbols req = of_nat config_DataShards" "Req_NSymbols req = of_nat config_NSymbols"
    and "\<forall>s\<in>set (Req_Shards req). unat (Shard_SymbolId s) < config_NSymbols \<and>
      Shard_Content s = cw ! unat (Shard_SymbolId s)"
    and "config_DataShards \<le> card ((\<lambda>s. unat (Shard_SymbolId s)) ` set (Req_Shards req))"
  shows "FromRequest rs_New req
      = \<lparr>Resp_Ok = True, Resp_Error = [], Resp_DataShards = take config_DataShards cw\<rparr> \<and>
    concat (take config_DataShards cw) = pad_to config_BlockSize block"
  using FromRequest_codeword [OF assms] by blast

text \<open>The witness drops the first fifty symbols and sends the others twice.\<close>

theorem FromRequest_recovers_witness:
  "\<exists>cw. senders_EncodeBlock ref_New [9, 8, 7] = Inr cw \<and>
     FromRequest ref_New \<lparr>Req_FileHash = 1, Req_BlockId = 0, Req_KSymbols = of_nat config_DataShards,
         Req_NSymbols = of_nat config_NSymbols,
         Req_Shards = map (\<lambda>i. \<lparr>Shard_SymbolId = of_nat i, Shard_Content = cw ! i\<rparr>) ([50..<150] @ [50..<150])\<rparr>
       = \<lparr>Resp_Ok = True, Resp_Error = [], Resp_DataShards = take config_DataShards cw\<rparr> \<and>
     concat (take config_DataShards cw) = pad_to config_BlockSize [9, 8, 7]"
proof -
  obtain C where C: "ref_New (int config_DataShards) (int config_ParityShards) = Inr C" "uniflow_rs C"
    using library_codec [OF reference.rs_library_axioms] .
  then obtain cw where "codec_EncodeBlock C [9, 8, 7] = Inr cw"
    using codec_EncodeBlock_total [OF C(2), of "[9, 8, 7]"] by (auto simp: config_values)
  with C(1) have enc: "senders_EncodeBlock ref_New [9, 8, 7] = Inr cw"
    by (auto simp: senders_EncodeBlock_def codec_EncodeBlock_def geometry NSymbols_eq Let_def
        split: if_splits sum.splits)
  define shs where
    "shs = map (\<lambda>i. \<lparr>Shard_SymbolId = of_nat i, Shard_Content = cw ! i\<rparr>) ([50..<150] @ [50..<150])"
  have "unat (of_nat i :: uint32) = i" if "i < 150" for i
    using that by (simp add: unsigned_of_nat take_bit_nat_eq_self)
  then have ids: "(\<lambda>s. unat (Shard_SymbolId s)) ` set shs = {50..<150}"
    and vals: "\<forall>s\<in>set shs. Shard_Content s = cw ! unat (Shard_SymbolId s)"
    by (force simp: shs_def image_iff simp del: upt_rec_numeral)+
  then have "\<forall>s\<in>set shs. unat (Shard_SymbolId s) < config_NSymbols \<and> Shard_Content s = cw ! unat (Shard_SymbolId s)"
    by (auto simp: config_values)
  moreover from ids have "config_DataShards \<le> card ((\<lambda>s. unat (Shard_SymbolId s)) ` set shs)"
    by (simp add: config_values)
  ultimately have "FromRequest ref_New \<lparr>Req_FileHash = 1, Req_BlockId = 0, Req_KSymbols = of_nat config_DataShards,
         Req_NSymbols = of_nat config_NSymbols, Req_Shards = shs\<rparr>
       = \<lparr>Resp_Ok = True, Resp_Error = [], Resp_DataShards = take config_DataShards cw\<rparr> \<and>
     concat (take config_DataShards cw) = pad_to config_BlockSize [9, 8, 7]"
    by (intro FromRequest_recovers [OF reference.rs_library_axioms enc]) simp_all
  with enc show ?thesis unfolding shs_def by blast
qed

lemma place_shards_length: "place_shards n shs arr = Inr arr' \<Longrightarrow> length arr' = length arr"
  by (induction n shs arr rule: place_shards.induct) (auto simp: Let_def split: if_splits)

lemma place_shards_out_of_range:
  "\<exists>s\<in>set shs. n \<le> uint (Shard_SymbolId s) \<Longrightarrow> \<exists>msg. place_shards n shs arr = Inl (fail_response msg)"
  by (induction n shs arr rule: place_shards.induct) (auto simp: Let_def)

lemma place_shards_filled:
  "place_shards (int n) shs arr = Inr arr' \<Longrightarrow> i < length arr \<Longrightarrow> arr ! i = [] \<Longrightarrow> arr' ! i \<noteq> [] \<Longrightarrow>
   i \<in> (\<lambda>s. unat (Shard_SymbolId s)) ` set shs"
proof (induction shs arbitrary: arr)
  case (Cons s shs)
  then show ?case
    by (cases "unat (Shard_SymbolId s) = i") (auto simp: Let_def split: if_splits)
qed simp

lemma reconstruct_too_few:
  assumes "rs_library rs_New" "0 < k" "k < n" "n \<le> 256" "length arr = n"
    and "length (filter (\<lambda>s. s \<noteq> []) arr) < k"
  shows "\<exists>e. ReconstructBlock rs_New arr (int k) (int n - int k) = Inl e"
proof -
  from rs_library.New_ok [OF assms(1), of k "n - k"] assms(2-4) obtain C
    where C: "rs_New (int k) (int (n - k)) = Inr C" "rs_code k (n - k) C" by auto
  from rs_code.reconstruct_few [OF C(2), of arr] assms(3,5,6) obtain e where "Reconstruct C arr = Inl e" by auto
  with C(1) assms(3) show ?thesis by (simp add: ReconstructBlock_def of_nat_diff)
qed

text \<open>C23: \<open>rs_helper\<close> answers every request it cannot serve with \<open>ok = false\<close> and no data: dimensions with
  \<open>k = 0\<close> or \<open>n \<le> k\<close>, a symbol id that is not below \<open>n\<close>, and (for at most 256 symbols, the
  field size) fewer than \<open>k\<close> distinct symbols.\<close>

theorem FromRequest_rejects:
  assumes "rs_library rs_New"
    and "Req_KSymbols req = 0 \<or> Req_NSymbols req \<le> Req_KSymbols req \<or>
      (\<exists>s\<in>set (Req_Shards req). Req_NSymbols req \<le> Shard_SymbolId s) \<or>
      (unat (Req_NSymbols req) \<le> 256 \<and>
        card ((\<lambda>s. unat (Shard_SymbolId s)) ` set (Req_Shards req)) < unat (Req_KSymbols req))"
  shows "\<not> Resp_Ok (FromRequest rs_New req) \<and> Resp_DataShards (FromRequest rs_New req) = []"
proof -
  define k n where "k = unat (Req_KSymbols req)" and "n = unat (Req_NSymbols req)"
  let ?ids = "(\<lambda>s. unat (Shard_SymbolId s)) ` set (Req_Shards req)"
  have kn: "uint (Req_KSymbols req) = int k" "uint (Req_NSymbols req) = int n"
    unfolding k_def n_def by (rule uint_nat)+
  show ?thesis
  proof (cases "k = 0 \<or> n \<le> k")
    case True
    then show ?thesis unfolding FromRequest_def kn by (auto simp: fail_response_def Let_def)
  next
    case dims: False
    show ?thesis
    proof (cases "place_shards (int n) (Req_Shards req) (replicate n [])")
      case (Inl resp)
      moreover have "\<not> Resp_Ok resp \<and> Resp_DataShards resp = []"
        if "place_shards n shs arr = Inl resp" for n shs arr
        using that by (induction n shs arr rule: place_shards.induct)
          (auto simp: fail_response_def Let_def split: if_splits)
      ultimately show ?thesis using dims unfolding FromRequest_def kn by (auto simp: Let_def)
    next
      case (Inr arr)
      note len = place_shards_length [OF Inr, simplified]
      have "\<not> (\<exists>s\<in>set (Req_Shards req). Req_NSymbols req \<le> Shard_SymbolId s)"
        using place_shards_out_of_range [of "Req_Shards req" "int n" "replicate n []"] Inr
        unfolding word_le_def kn(2) by auto
      with assms(2) dims have few: "n \<le> 256" "card ?ids < k"
        by (auto simp: word_le_nat_alt unat_eq_zero k_def n_def)
      have "length (filter (\<lambda>s. s \<noteq> []) arr) = card {i. i < length arr \<and> arr ! i \<noteq> []}"
        by (rule length_filter_conv_card)
      also have "\<dots> \<le> card ?ids"
        using place_shards_filled [OF Inr] len by (intro card_mono) auto
      finally have "\<exists>e. ReconstructBlock rs_New arr (int k) (int n - int k) = Inl e"
        using dims few len by (intro reconstruct_too_few [OF assms(1)]) auto
      with Inr dims show ?thesis
        unfolding FromRequest_def kn by (auto simp: Let_def fail_response_def)
    qed
  qed
qed

theorem FromRequest_rejects_witness:
  "\<not> Resp_Ok (FromRequest ref_New \<lparr>Req_FileHash = 1, Req_BlockId = 0, Req_KSymbols = 2, Req_NSymbols = 3,
     Req_Shards = [\<lparr>Shard_SymbolId = 2, Shard_Content = [5]\<rparr>]\<rparr>)"
proof -
  let ?req = "\<lparr>Req_FileHash = 1, Req_BlockId = 0, Req_KSymbols = 2, Req_NSymbols = 3,
     Req_Shards = [\<lparr>Shard_SymbolId = 2, Shard_Content = [5]\<rparr>]\<rparr>"
  have "card ((\<lambda>s. unat (Shard_SymbolId s)) ` set (Req_Shards ?req)) < unat (Req_KSymbols ?req)" by simp
  then show ?thesis
    using FromRequest_rejects [OF reference.rs_library_axioms, of ?req] by simp
qed

section \<open>Requests are answered in order\<close>

definition failure_log :: "(int \<Rightarrow> int \<Rightarrow> Codec res) \<Rightarrow> ReconstructRequest \<Rightarrow> helper_log list" where
  "failure_log rs_New req =
     (let resp = FromRequest rs_New req in
      if Resp_Ok resp then [] else [ReconstructionFailed (Req_FileHash req) (Req_BlockId req) (Resp_Error resp)])"

lemma handleConnection_served:
  assumes "list_all2 (\<lambda>req p. unmarshal p = Inr req \<and> length p < 2 ^ 32) reqs ps"
    and "list_all2 (\<lambda>req out. marshal (FromRequest rs_New req) = Inr out) reqs outs"
    and "rx c = concat (map frame ps)" "rx_end c = EOF" "tx_fault c = None"
  shows "handleConnection rs_New unmarshal marshal c logs
    = (c\<lparr>rx := [], tx := tx c @ concat (map frame outs)\<rparr>, logs @ concat (map (failure_log rs_New) reqs))"
  using assms
proof (induction reqs ps arbitrary: outs c logs rule: list_all2_induct)
  case Nil
  then have "readRequest unmarshal c = Inl EOF" by (simp add: readRequest_frame read_frame_empty)
  with Nil show ?case by (subst handleConnection.simps) (simp add: )
next
  case (Cons req reqs p ps)
  from Cons.prems(1) obtain out outs' where outs: "outs = out # outs'"
    and out: "marshal (FromRequest rs_New req) = Inr out"
    and rest: "list_all2 (\<lambda>req out. marshal (FromRequest rs_New req) = Inr out) reqs outs'"
    by (auto simp: list_all2_Cons1)
  let ?c1 = "c\<lparr>rx := concat (map frame ps)\<rparr>"
  from Cons.prems(2) Cons.hyps(1) have rd: "readRequest unmarshal c = Inr (req, ?c1)"
    using read_frame_frame [of c p "concat (map frame ps)"] by (simp add: readRequest_frame)
  have wr: "writeResponse marshal ?c1 (FromRequest rs_New req) = (None, ?c1\<lparr>tx := tx c @ frame out\<rparr>)"
    using Cons.prems(4) by (simp add: writeResponse_def out WriteTo_fine frame_def)
  have "handleConnection rs_New unmarshal marshal c logs
      = handleConnection rs_New unmarshal marshal (?c1\<lparr>tx := tx c @ frame out\<rparr>) (logs @ failure_log rs_New req)"
    by (subst handleConnection.simps) (simp add: rd wr failure_log_def Let_def)
  also have "\<dots> = (c\<lparr>rx := [], tx := tx c @ concat (map frame outs)\<rparr>,
      logs @ concat (map (failure_log rs_New) (req # reqs)))"
    using Cons.prems by (subst Cons.IH [OF rest]) (simp_all add: outs)
  finally show ?case .
qed

text \<open>\<open>rs_helper\<close> answers the requests of a connection one by one in the order they arrive, which the
  protocol needs because it has no request ids. A client that sends any sequence of framed requests and then closes gets
  exactly the framed answers of \<open>FromRequest\<close>, in that order, and the log holds one entry for
  each failed reconstruction and nothing else.\<close>

lemma handleConnection_in_order:
  assumes "\<forall>i<length reqs. unmarshal (ps ! i) = Inr (reqs ! i) \<and> length (ps ! i) < 2 ^ 32"
    and "\<forall>i<length reqs. marshal (FromRequest rs_New (reqs ! i)) = Inr (outs ! i)"
    and "length ps = length reqs" "length outs = length reqs"
    and "rx c = concat (map frame ps)" "rx_end c = EOF" "tx_fault c = None" "tx c = []"
  shows "tx (fst (handleConnection rs_New unmarshal marshal c [])) = concat (map frame outs) \<and>
    snd (handleConnection rs_New unmarshal marshal c []) = concat (map (failure_log rs_New) reqs)"
proof -
  have "handleConnection rs_New unmarshal marshal c []
      = (c\<lparr>rx := [], tx := tx c @ concat (map frame outs)\<rparr>, [] @ concat (map (failure_log rs_New) reqs))"
    using assms by (intro handleConnection_served) (auto simp: list_all2_conv_all_nth)
  with assms(8) show ?thesis by simp
qed

text \<open>The witness: two requests with impossible dimensions, told apart by the codec \<open>unmarshal\<close>; the
  answers are their error texts.\<close>

definition toy_unmarshal :: "byte list \<Rightarrow> ReconstructRequest res" where
  "toy_unmarshal p = Inr \<lparr>Req_FileHash = 1, Req_BlockId = of_nat (length p), Req_KSymbols = 0,
     Req_NSymbols = 0, Req_Shards = []\<rparr>"

lemma handleConnection_in_order_witness:
  "tx (fst (handleConnection ref_New toy_unmarshal (\<lambda>resp. Inr (map of_char (Resp_Error resp)))
     \<lparr>rx = frame [] @ frame [7], rx_end = EOF, tx = [], tx_fault = None\<rparr> []))
   = frame (map of_char ''invalid k_symbols=0 n_symbols=0'') @ frame (map of_char ''invalid k_symbols=0 n_symbols=0'')"
proof -
  let ?c = "\<lparr>rx = frame [] @ frame [7], rx_end = EOF, tx = [], tx_fault = None\<rparr>"
  let ?m = "\<lambda>resp. Inr (map of_char (Resp_Error resp)) :: byte list res"
  let ?req = "\<lambda>n. \<lparr>Req_FileHash = 1, Req_BlockId = n, Req_KSymbols = 0, Req_NSymbols = 0, Req_Shards = []\<rparr>"
  let ?o = "map of_char ''invalid k_symbols=0 n_symbols=0'' :: byte list"
  have msg: "Resp_Error (FromRequest ref_New (?req n)) = ''invalid k_symbols=0 n_symbols=0''" for n
  proof -
    have "Sprintf ''invalid k_symbols=%d n_symbols=%d'' [D 0, D 0] = ''invalid k_symbols=0 n_symbols=0''"
      by code_simp
    then show ?thesis by (simp add: FromRequest_def fail_response_def)
  qed
  define o1 where "o1 = ?o"
  have "tx (fst (handleConnection ref_New toy_unmarshal ?m ?c [])) = concat (map frame [o1, o1]) \<and>
      snd (handleConnection ref_New toy_unmarshal ?m ?c []) = concat (map (failure_log ref_New) [?req 0, ?req 1])"
    by (rule handleConnection_in_order [where ps = "[[], [7]]"])
      (simp_all add: toy_unmarshal_def msg o1_def All_less_Suc2)
  then show ?thesis unfolding o1_def by simp
qed

end
