(* ===== verification/Stats.thy ===== *)
theory Stats
  imports Prelude
begin

text \<open>
  The receiver's counters, \<open>receivers/internal/stats/stats.go\<close>. Each field is an \<open>atomic.Uint64\<close>: an
  \<open>Add\<close> is one indivisible step that wraps around at \<open>2 ^ 64\<close>. The accounting equation of the file's
  comment is an invariant of the receiver as a whole and is proved in theory \<open>Receiver\<close>.
\<close>

record Counters =
  received :: uint64
  forwarded :: uint64
  crcDropped :: uint64
  malformed :: uint64
  intakeDropped :: uint64
  ipcDropped :: uint64
  batchesSent :: uint64

definition zero_Counters :: Counters where
  "zero_Counters = \<lparr>received = 0, forwarded = 0, crcDropped = 0, malformed = 0, intakeDropped = 0,
     ipcDropped = 0, batchesSent = 0\<rparr>"

definition AddReceived :: "Counters \<Rightarrow> Counters" where
  "AddReceived c = c\<lparr>received := received c + 1\<rparr>"

definition AddForwarded :: "Counters \<Rightarrow> Counters" where
  "AddForwarded c = c\<lparr>forwarded := forwarded c + 1\<rparr>"

definition AddCrcDropped :: "Counters \<Rightarrow> Counters" where
  "AddCrcDropped c = c\<lparr>crcDropped := crcDropped c + 1\<rparr>"

definition AddMalformed :: "Counters \<Rightarrow> Counters" where
  "AddMalformed c = c\<lparr>malformed := malformed c + 1\<rparr>"

definition AddIntakeDropped :: "Counters \<Rightarrow> Counters" where
  "AddIntakeDropped c = c\<lparr>intakeDropped := intakeDropped c + 1\<rparr>"

definition AddIpcDropped :: "Counters \<Rightarrow> Counters" where
  "AddIpcDropped c = c\<lparr>ipcDropped := ipcDropped c + 1\<rparr>"

definition AddBatchSent :: "Counters \<Rightarrow> Counters" where
  "AddBatchSent c = c\<lparr>batchesSent := batchesSent c + 1\<rparr>"

definition Snapshot :: "Counters \<Rightarrow> string" where
  "Snapshot c =
     Sprintf ''stats received=%d forwarded=%d batches=%d crc_dropped=%d malformed=%d intake_dropped=%d ipc_dropped=%d''
       [D (uint (received c)), D (uint (forwarded c)), D (uint (batchesSent c)), D (uint (crcDropped c)),
        D (uint (malformed c)), D (uint (intakeDropped c)), D (uint (ipcDropped c))]"

lemmas Add_defs = AddReceived_def AddForwarded_def AddCrcDropped_def AddMalformed_def
  AddIntakeDropped_def AddIpcDropped_def AddBatchSent_def

text \<open>What the counters say has happened to the packets that are no longer in the process.\<close>

definition settled :: "Counters \<Rightarrow> uint64" where
  "settled c = forwarded c + crcDropped c + malformed c + intakeDropped c"

lemma settled_Add [simp]:
  "settled (AddReceived c) = settled c"
  "settled (AddForwarded c) = settled c + 1"
  "settled (AddCrcDropped c) = settled c + 1"
  "settled (AddMalformed c) = settled c + 1"
  "settled (AddIntakeDropped c) = settled c + 1"
  "settled (AddIpcDropped c) = settled c"
  "settled (AddBatchSent c) = settled c"
  by (simp_all add: settled_def Add_defs algebra_simps)

lemma received_Add [simp]:
  "received (AddReceived c) = received c + 1"
  "received (AddForwarded c) = received c"
  "received (AddCrcDropped c) = received c"
  "received (AddMalformed c) = received c"
  "received (AddIntakeDropped c) = received c"
  "received (AddIpcDropped c) = received c"
  "received (AddBatchSent c) = received c"
  by (simp_all add: Add_defs)

lemma forwarded_funpow [simp]:
  "(AddForwarded ^^ n) c = c\<lparr>forwarded := forwarded c + of_nat n\<rparr>"
  by (induction n arbitrary: c) (simp_all add: Add_defs funpow_Suc_right algebra_simps del: funpow.simps)

end
