(* ===== verification/Session_Client.thy ===== *)
theory Session_Client
  imports Framing
begin

text \<open>
  The receiver's connection to the session manager,
  \<open>receivers/internal/sessionClient/sessionClient.go\<close>. The sockets the process has opened form a
  store, and the client holds the index of its current one. Whatever the environment decides (whether a dial
  succeeds, whether \<open>Close\<close> cancels the context while the client waits) is a list of \<open>attempt\<close>s, one per round
  of the reconnect loop; the loop has no bound of its own, so the result is \<open>None\<close> while the attempts do not
  suffice. Lemmas: the reconnect loop returns with the first attempt that connects or is cancelled; the waiting
  times; and the frames on every socket are whole, with at most the last one cut short, so that a reader of the
  sockets sees exactly the acknowledged batches.
\<close>

section \<open>Client and network\<close>

text \<open>Durations in nanoseconds, as \<open>time.Duration\<close>.\<close>

definition initialBackoff :: int where
  "initialBackoff = 100 * 1000000"

definition maxBackoff :: int where
  "maxBackoff = 5 * 1000000000"

record Client =
  sessionSocketPath :: string
  connection :: "nat option"
  currentBackoff :: int
  ctx_done :: bool

record net =
  sockets :: "conn list"
  timers :: "int list"

record attempt =
  done_before :: bool
  dial_result :: "conn res"
  done_waiting :: bool

definition NewClient :: "string \<Rightarrow> Client" where
  "NewClient path = \<lparr>sessionSocketPath = path, connection = None, currentBackoff = initialBackoff, ctx_done = False\<rparr>"

section \<open>Operations\<close>

definition closed_error :: "Client \<Rightarrow> error" where
  "closed_error client = Errorf ''sessionclient: closed while reconnecting to %s'' [S (sessionSocketPath client)]"

fun reconnectLocked ::
  "attempt list \<Rightarrow> net \<Rightarrow> Client \<Rightarrow> (error option \<times> attempt list \<times> net \<times> Client) option" where
  "reconnectLocked [] w client =
     (if ctx_done client then Some (Some (closed_error client), [], w, client) else None)"
| "reconnectLocked (a # as) w client =
     (if ctx_done client then Some (Some (closed_error client), a # as, w, client)
      else if done_before a then Some (Some (closed_error client), as, w, client\<lparr>ctx_done := True\<rparr>)
      else
        (case dial_result a of
           Inr conn \<Rightarrow>
             Some (None, as, w\<lparr>sockets := sockets w @ [conn]\<rparr>,
               client\<lparr>connection := Some (length (sockets w)), currentBackoff := initialBackoff\<rparr>)
         | Inl err \<Rightarrow>
             (let w = w\<lparr>timers := timers w @ [currentBackoff client]\<rparr> in
              if done_waiting a then Some (Some (closed_error client), as, w, client\<lparr>ctx_done := True\<rparr>)
              else
                (let backoff = currentBackoff client * 2;
                     backoff = (if backoff > maxBackoff then maxBackoff else backoff)
                 in reconnectLocked as w (client\<lparr>currentBackoff := backoff\<rparr>)))))"

text \<open>The error of \<open>net.Conn.Close\<close> is the operating system's.\<close>

definition closeConnectionLocked :: "(conn \<Rightarrow> error option) \<Rightarrow> net \<Rightarrow> Client \<Rightarrow> error option \<times> Client" where
  "closeConnectionLocked conn_Close w client =
     (case connection client of
        None \<Rightarrow> (None, client)
      | Some fd \<Rightarrow> (conn_Close (sockets w ! fd), client\<lparr>connection := None\<rparr>))"

definition write_frame ::
  "(conn \<Rightarrow> error option) \<Rightarrow> net \<Rightarrow> Client \<Rightarrow> byte list \<Rightarrow> error option \<times> net \<times> Client" where
  "write_frame conn_Close w client payload =
     (let header = BigEndian_PutUint32 (of_nat (length payload));
          fd = the (connection client)
      in case WriteTo [header, payload] (sockets w ! fd) of
           (None, c) \<Rightarrow> (None, w\<lparr>sockets := (sockets w)[fd := c]\<rparr>, client)
         | (Some err, c) \<Rightarrow>
             (let w = w\<lparr>sockets := (sockets w)[fd := c]\<rparr>;
                  client = snd (closeConnectionLocked conn_Close w client)
              in (Some (Wrap ''sessionclient: write to %s'' [S (sessionSocketPath client)] err), w, client)))"

definition SendBatch ::
  "(conn \<Rightarrow> error option) \<Rightarrow> attempt list \<Rightarrow> net \<Rightarrow> Client \<Rightarrow> byte list \<Rightarrow>
   (error option \<times> attempt list \<times> net \<times> Client) option" where
  "SendBatch conn_Close as w client payload =
     (if ctx_done client then Some (Some (Errorf ''sessionclient: closed'' []), as, w, client)
      else if connection client = None then
        (case reconnectLocked as w client of
           None \<Rightarrow> None
         | Some (Some err, as, w, client) \<Rightarrow> Some (Some err, as, w, client)
         | Some (None, as, w, client) \<Rightarrow>
             (case write_frame conn_Close w client payload of
                (err, w, client) \<Rightarrow> Some (err, as, w, client)))
      else
        (case write_frame conn_Close w client payload of
           (err, w, client) \<Rightarrow> Some (err, as, w, client)))"

definition Close :: "(conn \<Rightarrow> error option) \<Rightarrow> net \<Rightarrow> Client \<Rightarrow> error option \<times> Client" where
  "Close conn_Close w client =
     (let client = client\<lparr>ctx_done := True\<rparr>
      in closeConnectionLocked conn_Close w client)"

section \<open>Reconnecting\<close>

text \<open>The waiting times of a client whose dials fail: doubled each round, never more than \<open>maxBackoff\<close>.\<close>

fun backoffs :: "int \<Rightarrow> nat \<Rightarrow> int list" where
  "backoffs b 0 = []"
| "backoffs b (Suc n) = b # backoffs (min (b * 2) maxBackoff) n"

definition fails :: "attempt \<Rightarrow> bool" where
  "fails a \<longleftrightarrow> \<not> done_before a \<and> (\<exists>e. dial_result a = Inl e) \<and> \<not> done_waiting a"

lemma reconnectLocked_fails:
  "\<forall>a\<in>set as. fails a \<Longrightarrow> \<not> ctx_done client \<Longrightarrow>
   \<exists>b. reconnectLocked (as @ rest) w client
     = reconnectLocked rest (w\<lparr>timers := timers w @ backoffs (currentBackoff client) (length as)\<rparr>)
         (client\<lparr>currentBackoff := b\<rparr>)"
proof (induction as arbitrary: w client)
  case Nil
  then show ?case by (auto intro: exI [of _ "currentBackoff client"])
next
  case (Cons a as)
  let ?b = "min (currentBackoff client * 2) maxBackoff"
  let ?w = "w\<lparr>timers := timers w @ [currentBackoff client]\<rparr>"
  have "reconnectLocked ((a # as) @ rest) w client = reconnectLocked (as @ rest) ?w (client\<lparr>currentBackoff := ?b\<rparr>)"
    using Cons.prems by (auto simp: fails_def Let_def min_def not_le)
  moreover obtain b where "reconnectLocked (as @ rest) ?w (client\<lparr>currentBackoff := ?b\<rparr>)
      = reconnectLocked rest (?w\<lparr>timers := timers ?w @ backoffs ?b (length as)\<rparr>) (client\<lparr>currentBackoff := b\<rparr>)"
    using Cons.IH [of "client\<lparr>currentBackoff := ?b\<rparr>" ?w] Cons.prems by auto
  ultimately show ?case by (auto intro!: exI [of _ b])
qed

lemma backoffs_nth:
  "i < n \<Longrightarrow> 0 < b \<Longrightarrow> b \<le> maxBackoff \<Longrightarrow> backoffs b n ! i = min (b * 2 ^ i) maxBackoff"
proof (induction n arbitrary: b i)
  case (Suc n)
  show ?case
  proof (cases i)
    case 0
    with Suc.prems show ?thesis by simp
  next
    case j: (Suc j)
    have "backoffs (min (b * 2) maxBackoff) n ! j = min (min (b * 2) maxBackoff * 2 ^ j) maxBackoff"
      using j Suc.prems by (intro Suc.IH) (auto simp: maxBackoff_def)
    also have "\<dots> = min (b * 2 * 2 ^ j) maxBackoff"
    proof -
      have "maxBackoff \<le> maxBackoff * 2 ^ j" by (simp add: maxBackoff_def)
      moreover from Suc.prems(2) have "b * 2 \<le> b * 2 * 2 ^ j" by simp
      ultimately show ?thesis by (cases "b * 2 \<le> maxBackoff") (auto simp: min_def)
    qed
    finally show ?thesis using j by (simp add: mult.assoc)
  qed
qed simp

lemma length_backoffs [simp]: "length (backoffs b n) = n"
  by (induction n arbitrary: b) simp_all

text \<open>The reconnect loop ends with the first successful dial, however many dials fail before it. It then
  holds the new connection, has reset the backoff, and has waited
  \<open>100 ms, 200 ms, 400 ms, \<dots>\<close> between the attempts, capped at 5 s.\<close>

lemma reconnectLocked_connects:
  assumes "\<forall>a\<in>set failed. fails a"
    and "\<not> done_before a" "dial_result a = Inr conn"
    and "\<not> ctx_done client" "currentBackoff client = initialBackoff"
  shows "reconnectLocked (failed @ a # rest) w client =
    Some (None, rest,
      w\<lparr>sockets := sockets w @ [conn],
        timers := timers w @ map (\<lambda>i. min (initialBackoff * 2 ^ i) maxBackoff) [0..<length failed]\<rparr>,
      client\<lparr>connection := Some (length (sockets w)), currentBackoff := initialBackoff\<rparr>)"
proof -
  have "backoffs initialBackoff (length failed)
      = map (\<lambda>i. min (initialBackoff * 2 ^ i) maxBackoff) [0..<length failed]"
    by (rule nth_equalityI) (simp_all add: backoffs_nth initialBackoff_def maxBackoff_def)
  then show ?thesis
    using reconnectLocked_fails [OF assms(1,4), of "a # rest" w] assms by auto
qed

definition idle_attempt :: "conn res \<Rightarrow> attempt" where
  "idle_attempt r = \<lparr>done_before = False, dial_result = r, done_waiting = False\<rparr>"

definition fresh_conn :: conn where
  "fresh_conn = \<lparr>rx = [], rx_end = EOF, tx = [], tx_fault = None\<rparr>"

lemma reconnectLocked_connects_witness:
  "reconnectLocked (replicate 7 (idle_attempt (Inl (LibError ''refused''))) @ idle_attempt (Inr fresh_conn) # [])
     \<lparr>sockets = [], timers = []\<rparr> (NewClient ''/tmp/s'') =
   Some (None, [],
     \<lparr>sockets = [fresh_conn], timers = [100000000, 200000000, 400000000, 800000000, 1600000000, 3200000000, 5000000000]\<rparr>,
     \<lparr>sessionSocketPath = ''/tmp/s'', connection = Some 0, currentBackoff = 100000000, ctx_done = False\<rparr>)"
proof -
  have "[0..<7] = [0, 1, 2, 3, 4, 5, 6 :: nat]" by code_simp
  then show ?thesis
    by (subst reconnectLocked_connects)
      (simp_all add: fails_def idle_attempt_def NewClient_def initialBackoff_def maxBackoff_def min_def
        del: upt_rec_numeral)
qed

text \<open>C40: while the session manager is unreachable, a send neither returns nor drops its batch: for every number of
  failing attempts \<open>SendBatch\<close> is still waiting. (The package comment and the comment of \<open>SendBatch\<close> say that
  batches offered while disconnected are dropped.)\<close>

theorem SendBatch_waits_while_unreachable:
  assumes "\<forall>a\<in>set failed. fails a" "\<not> ctx_done client" "connection client = None"
  shows "SendBatch conn_Close failed w client payload = None"
  using reconnectLocked_fails [OF assms(1,2), of "[]" w] assms(2,3) by (auto simp: SendBatch_def)

theorem SendBatch_waits_while_unreachable_witness:
  "SendBatch (\<lambda>c. None) (replicate 1000 (idle_attempt (Inl (LibError ''refused'')))) \<lparr>sockets = [], timers = []\<rparr>
     (NewClient ''/tmp/s'') [1, 2] = None"
  by (rule SendBatch_waits_while_unreachable) (simp_all add: fails_def idle_attempt_def NewClient_def)

section \<open>The interface to the forwarder\<close>

text \<open>
  What the forwarder's \<open>BatchSender\<close> promises: a state with an invariant, the batches that have been delivered, and
  that a send delivers its payload exactly when it returns no error. A send may also not return.
\<close>

locale batch_sender =
  fixes send :: "'s \<Rightarrow> byte list \<Rightarrow> (error option \<times> 's) option"
    and inv :: "'s \<Rightarrow> bool"
    and delivered :: "'s \<Rightarrow> byte list list"
  assumes send_inv: "inv s \<Longrightarrow> length p < 2 ^ 32 \<Longrightarrow> send s p = Some (e, s') \<Longrightarrow> inv s'"
    and send_ok: "inv s \<Longrightarrow> length p < 2 ^ 32 \<Longrightarrow> send s p = Some (None, s') \<Longrightarrow> delivered s' = delivered s @ [p]"
    and send_err: "inv s \<Longrightarrow> length p < 2 ^ 32 \<Longrightarrow> send s p = Some (Some err, s') \<Longrightarrow> delivered s' = delivered s"

section \<open>Frames on the sockets\<close>

interpretation raw: proto_codec "Inr :: byte list \<Rightarrow> byte list res" "Inr :: byte list \<Rightarrow> byte list res"
  by unfold_locales simp

text \<open>What the peer reads from a connection: the bytes written, then end of file.\<close>

definition peer :: "conn \<Rightarrow> conn" where
  "peer c = \<lparr>rx = tx c, rx_end = EOF, tx = [], tx_fault = None\<rparr>"

definition batches :: "conn \<Rightarrow> byte list list" where
  "batches c = fst (raw.link.read_all (peer c))"

definition open_socket :: "byte list list \<Rightarrow> conn \<Rightarrow> bool" where
  "open_socket ps c \<longleftrightarrow> tx c = concat (map frame ps) \<and> (\<forall>p\<in>set ps. length p < 2 ^ 32)"

text \<open>A socket given up after a failed write ends with a part of a frame.\<close>

definition broken_socket :: "byte list list \<Rightarrow> conn \<Rightarrow> bool" where
  "broken_socket ps c \<longleftrightarrow> (\<forall>p\<in>set ps. length p < 2 ^ 32) \<and>
     (\<exists>p n. tx c = concat (map frame ps) @ take n (frame p) \<and> length p < 2 ^ 32 \<and> n < length (frame p))"

lemma open_socket_broken: "open_socket ps c \<Longrightarrow> broken_socket ps c"
  unfolding open_socket_def broken_socket_def
  by (auto intro!: exI [of _ "[]"] exI [of _ 0] simp: frame_def)

lemma batches_broken:
  assumes "broken_socket ps c"
  shows "batches c = ps"
proof -
  from assms obtain p n where tx: "tx c = concat (map frame ps) @ take n (frame p)"
    and pn: "length p < 2 ^ 32" "n < length (frame p)" and small: "\<forall>p\<in>set ps. length p < 2 ^ 32"
    by (auto simp: broken_socket_def)
  have "\<exists>e. read_message Inr ((peer c)\<lparr>rx := take n (frame p)\<rparr>) = (Inl e :: (byte list \<times> conn) res)"
  proof (cases "n = 0")
    case True
    then show ?thesis by (simp add: read_message_def read_frame_empty)
  next
    case False
    then show ?thesis
      using read_frame_truncated [of p "(peer c)\<lparr>rx := take n (frame p)\<rparr>" n] pn
      by (auto simp: read_message_def peer_def)
  qed
  then obtain e where "read_message Inr ((peer c)\<lparr>rx := take n (frame p)\<rparr>) = (Inl e :: (byte list \<times> conn) res)" ..
  moreover have "list_all2 (\<lambda>m bs. write_message Inr m = Some bs) ps (map frame ps)"
    using small by (auto simp: list_all2_conv_all_nth write_message_def)
  ultimately have "raw.link.read_all (peer c) = (ps, e)"
    using tx by (intro raw.link.read_all_tail) (simp_all add: peer_def)
  then show ?thesis by (simp add: batches_def)
qed

lemma WriteTo_frame:
  assumes "WriteTo [BigEndian_PutUint32 (of_nat (length p)), p] c = (e, c')"
  shows "if e = None then tx c' = tx c @ frame p else \<exists>n<length (frame p). tx c' = tx c @ take n (frame p)"
proof -
  have "concat [BigEndian_PutUint32 (of_nat (length p)), p] = frame p" by (simp add: frame_def)
  then show ?thesis
    using assms by (auto simp only: WriteTo_def Let_def split: option.splits if_splits) (auto simp: not_le)
qed

lemma WriteTo_open_socket:
  assumes "open_socket ps c" "length p < 2 ^ 32"
    and "WriteTo [BigEndian_PutUint32 (of_nat (length p)), p] c = (e, c')"
  shows "e = None \<Longrightarrow> open_socket (ps @ [p]) c'" and "e \<noteq> None \<Longrightarrow> broken_socket ps c'"
proof -
  show "e = None \<Longrightarrow> open_socket (ps @ [p]) c'"
    using WriteTo_frame [OF assms(3)] assms(1,2) by (auto simp: open_socket_def)
  show "e \<noteq> None \<Longrightarrow> broken_socket ps c'"
    using WriteTo_frame [OF assms(3)] assms(1,2) unfolding open_socket_def broken_socket_def
    by (metis append.assoc)
qed

section \<open>The client is a batch sender\<close>

text \<open>
  Between two sends every socket but the current one may be broken; the current one is the last opened and
  holds whole frames only. Sockets that a dial will return have not been written to.
\<close>

definition client_inv :: "attempt list \<times> net \<times> Client \<Rightarrow> bool" where
  "client_inv s = (case s of (as, w, client) \<Rightarrow>
     (\<forall>a\<in>set as. \<forall>c. dial_result a = Inr c \<longrightarrow> tx c = []) \<and>
     (\<forall>c\<in>set (sockets w). broken_socket (batches c) c) \<and>
     (\<forall>fd. connection client = Some fd \<longrightarrow> sockets w \<noteq> [] \<and> fd = length (sockets w) - 1 \<and>
        open_socket (batches (last (sockets w))) (last (sockets w))))"

definition client_delivered :: "attempt list \<times> net \<times> Client \<Rightarrow> byte list list" where
  "client_delivered s = (case s of (as, w, client) \<Rightarrow> concat (map batches (sockets w)))"

definition client_send ::
  "(conn \<Rightarrow> error option) \<Rightarrow> attempt list \<times> net \<times> Client \<Rightarrow> byte list \<Rightarrow>
   (error option \<times> attempt list \<times> net \<times> Client) option" where
  "client_send conn_Close s p = (case s of (as, w, client) \<Rightarrow> SendBatch conn_Close as w client p)"

lemma write_frame_correct:
  assumes "client_inv (as, w, client)" "connection client = Some fd" "length p < 2 ^ 32"
    and wf: "write_frame conn_Close w client p = (e, w', client')"
  shows "client_inv (as, w', client') \<and>
    client_delivered (as, w', client') = client_delivered (as, w, client) @ (if e = None then [p] else [])"
proof -
  from assms(1,2) obtain ss c where w: "sockets w = ss @ [c]" "fd = length ss" "open_socket (batches c) c"
    and ss: "\<forall>c\<in>set ss. broken_socket (batches c) c"
    and as: "\<forall>a\<in>set as. \<forall>c. dial_result a = Inr c \<longrightarrow> tx c = []"
    by (cases "sockets w" rule: rev_cases) (auto simp: client_inv_def)
  obtain e' c' where wr: "WriteTo [BigEndian_PutUint32 (of_nat (length p)), p] c = (e', c')" by force
  note wrote = WriteTo_open_socket [OF w(3) assms(3) wr]
  show ?thesis
  proof (cases e')
    case None
    with wrote have "open_socket (batches c @ [p]) c'" by simp
    moreover from this have "batches c' = batches c @ [p]" by (intro batches_broken open_socket_broken)
    ultimately show ?thesis
      using wf wr None w ss as assms(2) open_socket_broken
      by (auto simp: write_frame_def client_inv_def client_delivered_def)
  next
    case (Some err)
    with wrote have "broken_socket (batches c) c'" by simp
    moreover from this have "batches c' = batches c" by (rule batches_broken)
    ultimately show ?thesis
      using wf wr Some w ss as assms(2)
      by (auto simp: write_frame_def closeConnectionLocked_def client_inv_def client_delivered_def Let_def)
  qed
qed

lemma reconnectLocked_correct:
  "reconnectLocked as w client = Some (e, as', w', client') \<Longrightarrow> client_inv (as, w, client) \<Longrightarrow>
   connection client = None \<Longrightarrow>
   client_inv (as', w', client') \<and> client_delivered (as', w', client') = client_delivered (as, w, client) \<and>
   (e = None \<longrightarrow> (\<exists>fd. connection client' = Some fd))"
proof (induction as w client rule: reconnectLocked.induct)
  case (1 w client)
  then show ?case by (auto split: if_splits)
next
  case (2 a as w client)
  show ?case
  proof (cases "ctx_done client \<or> done_before a \<or> (\<exists>err. dial_result a = Inl err)")
    case True
    with 2 show ?thesis
      by (auto simp: client_inv_def client_delivered_def Let_def split: if_splits sum.splits)
  next
    case False
    then obtain c where c: "dial_result a = Inr c" by (cases "dial_result a") auto
    with 2 have "tx c = []" by (auto simp: client_inv_def)
    then have "open_socket [] c" by (simp add: open_socket_def)
    moreover from this have "batches c = []" by (intro batches_broken open_socket_broken)
    ultimately show ?thesis
      using 2(2-) False c open_socket_broken by (auto simp: client_inv_def client_delivered_def)
  qed
qed

lemma client_send_correct:
  assumes "client_inv s" "length p < 2 ^ 32" "client_send conn_Close s p = Some (e, s')"
  shows "client_inv s' \<and> client_delivered s' = client_delivered s @ (if e = None then [p] else [])"
proof -
  obtain as w client where s: "s = (as, w, client)" by (cases s)
  obtain as' w' client' where s': "s' = (as', w', client')" by (cases s')
  show ?thesis
  proof (cases "ctx_done client \<or> connection client \<noteq> None")
    case True
    with assms show ?thesis
      by (auto simp: s s' client_send_def SendBatch_def split: prod.splits if_splits dest: write_frame_correct)
  next
    case False
    then obtain e1 as1 w1 client1 where re: "reconnectLocked as w client = Some (e1, as1, w1, client1)"
      using assms(3) by (auto simp: s client_send_def SendBatch_def split: option.splits)
    note con = reconnectLocked_correct [OF re assms(1) [unfolded s]]
    show ?thesis
    proof (cases e1)
      case None
      with False con obtain fd where "connection client1 = Some fd" by auto
      with None False re con assms show ?thesis
        by (auto simp: s s' client_send_def SendBatch_def split: prod.splits dest: write_frame_correct)
    next
      case (Some err)
      with False re con assms show ?thesis by (auto simp: s client_send_def SendBatch_def)
    qed
  qed
qed

interpretation session: batch_sender "client_send conn_Close" client_inv client_delivered for conn_Close
  by unfold_locales (auto dest: client_send_correct)

text \<open>A run of sends: which payloads were acknowledged.\<close>

fun send_all ::
  "(conn \<Rightarrow> error option) \<Rightarrow> attempt list \<times> net \<times> Client \<Rightarrow> byte list list \<Rightarrow>
   (byte list list \<times> attempt list \<times> net \<times> Client) option" where
  "send_all conn_Close s [] = Some ([], s)"
| "send_all conn_Close s (p # ps) =
     (case client_send conn_Close s p of
        None \<Rightarrow> None
      | Some (e, s) \<Rightarrow>
          (case send_all conn_Close s ps of
             None \<Rightarrow> None
           | Some (acked, s) \<Rightarrow> Some ((if e = None then p # acked else acked), s)))"

lemma send_all_delivered:
  "client_inv s \<Longrightarrow> \<forall>p\<in>set ps. length p < 2 ^ 32 \<Longrightarrow> send_all conn_Close s ps = Some (acked, s') \<Longrightarrow>
   client_inv s' \<and> client_delivered s' = client_delivered s @ acked \<and> set acked \<subseteq> set ps"
proof (induction ps arbitrary: s acked)
  case (Cons p ps)
  then obtain e s1 acked1 where 1: "client_send conn_Close s p = Some (e, s1)"
      "send_all conn_Close s1 ps = Some (acked1, s')" "acked = (if e = None then p # acked1 else acked1)"
    by (auto split: option.splits)
  with Cons.prems client_send_correct [of s p conn_Close e s1]
  have "client_inv s1" "client_delivered s1 = client_delivered s @ (if e = None then [p] else [])" by simp_all
  with 1 Cons.IH [OF _ _ 1(2)] Cons.prems(2) show ?case by auto
qed simp

text \<open>C20: no batch is torn or duplicated. Whatever happens to the connections (refused dials, writes that fail half way,
  reconnects), a reader of the sockets in the order they were opened decodes exactly the acknowledged
  payloads, in the order they were sent: a failed write leaves an incomplete frame at the end of a socket that is
  never written again.\<close>

theorem SendBatch_no_torn_frames:
  assumes "\<forall>a\<in>set attempts. \<forall>c. dial_result a = Inr c \<longrightarrow> tx c = []"
    and "\<forall>p\<in>set ps. length p < 2 ^ 32"
    and "send_all conn_Close (attempts, \<lparr>sockets = [], timers = []\<rparr>, NewClient path) ps
      = Some (acked, attempts', w, client)"
  shows "concat (map batches (sockets w)) = acked"
proof -
  let ?s = "(attempts, \<lparr>sockets = [], timers = []\<rparr>, NewClient path)"
  have "client_inv ?s" "client_delivered ?s = []"
    using assms(1) by (auto simp: client_inv_def client_delivered_def NewClient_def)
  with send_all_delivered [OF _ assms(2,3)] show ?thesis by (simp add: client_delivered_def)
qed

text \<open>The witness: the first connection breaks after six bytes, in the middle of the second frame; the third payload
  goes over a second connection.\<close>

theorem SendBatch_no_torn_frames_witness:
  "\<exists>w client. send_all (\<lambda>c. None) ([idle_attempt (Inr (fresh_conn\<lparr>tx_fault := Some (6, LibError ''broken pipe'')\<rparr>)),
        idle_attempt (Inl (LibError ''refused'')), idle_attempt (Inr fresh_conn)],
      \<lparr>sockets = [], timers = []\<rparr>, NewClient ''/tmp/s'') [[7], [8], [9]] = Some ([[7], [9]], [], w, client) \<and>
    map tx (sockets w) = [[0, 0, 0, 1, 7, 0], [0, 0, 0, 1, 9]] \<and>
    concat (map batches (sockets w)) = [[7], [9]]"
proof -
  let ?as = "[idle_attempt (Inr (fresh_conn\<lparr>tx_fault := Some (6, LibError ''broken pipe'')\<rparr>)),
        idle_attempt (Inl (LibError ''refused'')), idle_attempt (Inr fresh_conn)]"
  have hdr: "BigEndian_PutUint32 1 = [0, 0, 0, 1]" by code_simp
  let ?w = "\<lparr>sockets = [\<lparr>rx = [], rx_end = EOF, tx = [0, 0, 0, 1, 7, 0], tx_fault = Some (0, LibError ''broken pipe'')\<rparr>,
      \<lparr>rx = [], rx_end = EOF, tx = [0, 0, 0, 1, 9], tx_fault = None\<rparr>], timers = [initialBackoff]\<rparr>"
  have run: "send_all (\<lambda>c. None) (?as, \<lparr>sockets = [], timers = []\<rparr>, NewClient ''/tmp/s'') [[7], [8], [9]]
      = Some ([[7], [9]], [], ?w, \<lparr>sessionSocketPath = ''/tmp/s'', connection = Some 1,
          currentBackoff = initialBackoff, ctx_done = False\<rparr>)"
    by (simp add: client_send_def SendBatch_def NewClient_def idle_attempt_def fresh_conn_def write_frame_def
        WriteTo_def closeConnectionLocked_def initialBackoff_def maxBackoff_def Let_def hdr)
  moreover have "concat (map batches (sockets ?w)) = [[7], [9]]"
    by (rule SendBatch_no_torn_frames [OF _ _ run]) (simp_all add: idle_attempt_def fresh_conn_def)
  ultimately show ?thesis by fastforce
qed

end
