(* ===== verification/Forwarder.thy ===== *)
theory Forwarder
  imports Stats Session_Client Packets
begin

text \<open>
  Batching of validated packets, \<open>receivers/internal/forwarder/forwarder.go\<close>. \<open>Run\<close> is a loop around a Go
  \<open>select\<close>; which ready case the runtime takes is not determined, so the model gives the body of the loop as a
  function \<open>Run_select\<close> of the case taken, and the interleaving with the rest of the receiver is a step
  relation (theory \<open>Receiver\<close>). Packets are values here; their recycling through the packet pool is the subject
  of theory \<open>Receiver_Pools\<close>. Lemmas, under the contract of the batch sender: what one flush does to the
  counters, the log and the delivered packets, and the sizes of batches.
\<close>

section \<open>Channels\<close>

text \<open>A buffered channel of packets. A non-blocking send can find it full, and panics when it is closed.\<close>

record chan =
  buf :: "Packet list"
  capacity :: nat
  chan_closed :: bool

datatype send_result = Sent chan | Full | Panic

definition try_send :: "chan \<Rightarrow> Packet \<Rightarrow> send_result" where
  "try_send ch p =
     (if chan_closed ch then Panic
      else if length (buf ch) < capacity ch then Sent (ch\<lparr>buf := buf ch @ [p]\<rparr>)
      else Full)"

text \<open>A receive: \<open>None\<close> when it would block; the packet is \<open>None\<close> when the channel is closed and empty.\<close>

definition chan_recv :: "chan \<Rightarrow> (Packet option \<times> chan) option" where
  "chan_recv ch =
     (case buf ch of
        p # ps \<Rightarrow> Some (Some p, ch\<lparr>buf := ps\<rparr>)
      | [] \<Rightarrow> if chan_closed ch then Some (None, ch) else None)"

section \<open>The forwarder\<close>

record SymbolBatch =
  ReceiverId :: uint32
  SB_Packets :: "Packet list"

record Forwarder =
  receiverID :: uint32
  batchSize :: int
  flushInterval :: int

definition NewForwarder :: "uint32 \<Rightarrow> int \<Rightarrow> int \<Rightarrow> Forwarder" where
  "NewForwarder rid bsize interval = \<lparr>receiverID = rid, batchSize = bsize, flushInterval = interval\<rparr>"

datatype fwd_log =
    MarshalFailed nat error
  | SendFailed nat error
  | BatchSent nat "uint64 list"

text \<open>The state a flush works on: counters, batch sender, log.\<close>

record 's fwd_state =
  fs_counters :: Counters
  fs_sender :: 's
  fs_log :: "fwd_log list"

fun distinct_loop :: "Packet list \<Rightarrow> (uint64 \<rightharpoonup> unit) \<Rightarrow> uint64 list \<Rightarrow> uint64 list" where
  "distinct_loop [] seen hashes = hashes"
| "distinct_loop (packet # rest) seen hashes =
     (if seen (GetFileHash (Some packet)) \<noteq> None then distinct_loop rest seen hashes
      else distinct_loop rest (seen(GetFileHash (Some packet) \<mapsto> ())) (hashes @ [GetFileHash (Some packet)]))"

definition distinctFileHashes :: "Packet list \<Rightarrow> uint64 list" where
  "distinctFileHashes batch = distinct_loop batch Map.empty []"

definition flushBatch ::
  "(SymbolBatch \<Rightarrow> byte list res) \<Rightarrow> ('s \<Rightarrow> byte list \<Rightarrow> (error option \<times> 's) option) \<Rightarrow> Forwarder \<Rightarrow>
   Packet list \<Rightarrow> 's fwd_state \<Rightarrow> 's fwd_state option" where
  "flushBatch marshal send fwd batch st =
     (let outgoing = \<lparr>ReceiverId = receiverID fwd, SB_Packets = batch\<rparr>
      in case marshal outgoing of
           Inl err \<Rightarrow>
             Some (st\<lparr>fs_counters := AddIpcDropped (fs_counters st),
                 fs_log := fs_log st @ [MarshalFailed (length batch) err]\<rparr>)
         | Inr payload \<Rightarrow>
             (case send (fs_sender st) payload of
                None \<Rightarrow> None
              | Some (Some err, s) \<Rightarrow>
                  Some (st\<lparr>fs_sender := s, fs_counters := AddIpcDropped (fs_counters st),
                      fs_log := fs_log st @ [SendFailed (length batch) err]\<rparr>)
              | Some (None, s) \<Rightarrow>
                  Some (st\<lparr>fs_sender := s,
                      fs_counters := AddBatchSent ((AddForwarded ^^ length batch) (fs_counters st)),
                      fs_log := fs_log st @ [BatchSent (length batch) (distinctFileHashes batch)]\<rparr>)))"

text \<open>The closure \<open>flush\<close> of \<open>Run\<close>.\<close>

definition flush ::
  "(SymbolBatch \<Rightarrow> byte list res) \<Rightarrow> ('s \<Rightarrow> byte list \<Rightarrow> (error option \<times> 's) option) \<Rightarrow> Forwarder \<Rightarrow>
   Packet list \<Rightarrow> 's fwd_state \<Rightarrow> (Packet list \<times> 's fwd_state) option" where
  "flush marshal send fwd batch st =
     (if batch = [] then Some ([], st)
      else map_option (\<lambda>st. ([], st)) (flushBatch marshal send fwd batch st))"

text \<open>The inner loop of the stop case: take what is queued.\<close>

function drain :: "Packet list \<Rightarrow> chan \<Rightarrow> Packet list \<times> chan" where
  "drain batch ch =
     (case chan_recv ch of
        Some (Some packet, ch) \<Rightarrow> drain (batch @ [packet]) ch
      | Some (None, ch) \<Rightarrow> (batch, ch)
      | None \<Rightarrow> (batch, ch))"
  by pat_completeness auto
termination
  by (relation "measure (\<lambda>(_, ch). length (buf ch))") (auto simp: chan_recv_def split: list.splits if_splits)

declare drain.simps [simp del]

datatype select_case = StopClosed | IntakeReady | TickReady

text \<open>
  One round of the loop, in the case the select takes. The result is \<open>None\<close> when that case is not ready or
  the flush does not return; the first component tells whether \<open>Run\<close> has returned.
\<close>

fun Run_select ::
  "(SymbolBatch \<Rightarrow> byte list res) \<Rightarrow> ('s \<Rightarrow> byte list \<Rightarrow> (error option \<times> 's) option) \<Rightarrow> Forwarder \<Rightarrow>
   select_case \<Rightarrow> Packet list \<Rightarrow> chan \<Rightarrow> 's fwd_state \<Rightarrow> (bool \<times> Packet list \<times> chan \<times> 's fwd_state) option" where
  "Run_select marshal send fwd StopClosed batch ch st =
     (case drain batch ch of
        (batch, ch) \<Rightarrow> map_option (\<lambda>(batch, st). (True, batch, ch, st)) (flush marshal send fwd batch st))"
| "Run_select marshal send fwd IntakeReady batch ch st =
     (case chan_recv ch of
        None \<Rightarrow> None
      | Some (None, ch) \<Rightarrow> map_option (\<lambda>(batch, st). (True, batch, ch, st)) (flush marshal send fwd batch st)
      | Some (Some packet, ch) \<Rightarrow>
          (let batch = batch @ [packet] in
           if int (length batch) \<ge> batchSize fwd then
             map_option (\<lambda>(batch, st). (False, batch, ch, st)) (flush marshal send fwd batch st)
           else Some (False, batch, ch, st)))"
| "Run_select marshal send fwd TickReady batch ch st =
     map_option (\<lambda>(batch, st). (False, batch, ch, st)) (flush marshal send fwd batch st)"

section \<open>The log line\<close>

lemma distinct_loop_correct:
  "dom seen = set hashes \<Longrightarrow> distinct hashes \<Longrightarrow>
   distinct_loop batch seen hashes = rev (remdups (rev (hashes @ map FileHash batch)))"
proof (induction batch arbitrary: seen hashes)
  case Nil
  then show ?case by (simp add: remdups_id_iff_distinct [THEN iffD2])
next
  case (Cons p batch)
  show ?case
  proof (cases "FileHash p \<in> set hashes")
    case True
    with Cons.prems have "seen (FileHash p) \<noteq> None" by auto
    moreover have "remdups (rev (map FileHash batch) @ FileHash p # rev hashes)
        = remdups (rev (map FileHash batch) @ rev hashes)" for batch :: "Packet list"
      using True by (metis remdups_append2 remdups.simps(2) set_rev)
    ultimately show ?thesis using Cons by simp
  next
    case False
    with Cons.prems have "seen (FileHash p) = None" by auto
    moreover have d: "dom (seen(FileHash p \<mapsto> ())) = set (hashes @ [FileHash p])"
      using Cons.prems by (simp only: dom_fun_upd) simp
    have "distinct_loop batch (seen(FileHash p \<mapsto> ())) (hashes @ [FileHash p])
        = rev (remdups (rev ((hashes @ [FileHash p]) @ map FileHash batch)))"
      using Cons.prems False by (intro Cons.IH [OF d]) simp
    ultimately show ?thesis by simp
  qed
qed

text \<open>The file hashes in the log line of a batch are those of its packets, each once, in the order of
  first appearance.\<close>

lemma distinctFileHashes_correct:
  "distinctFileHashes batch = rev (remdups (rev (map FileHash batch))) \<and>
   distinct (distinctFileHashes batch) \<and> set (distinctFileHashes batch) = FileHash ` set batch"
  by (simp add: distinctFileHashes_def distinct_loop_correct)

section \<open>Flushing under the contracts\<close>

text \<open>Packets lost in batches that could not be sent, as logged.\<close>

fun lost_in :: "fwd_log \<Rightarrow> nat" where
  "lost_in (MarshalFailed n err) = n"
| "lost_in (SendFailed n err) = n"
| "lost_in (BatchSent n hashes) = 0"

definition lost :: "fwd_log list \<Rightarrow> nat" where
  "lost logs = sum_list (map lost_in logs)"

lemma lost_simps [simp]: "lost [] = 0" "lost (xs @ ys) = lost xs + lost ys" "lost [l] = lost_in l"
  by (simp_all add: lost_def)

text \<open>The packets in delivered payloads, as the session manager decodes them.\<close>

definition delivered_packets :: "(byte list \<Rightarrow> SymbolBatch res) \<Rightarrow> byte list list \<Rightarrow> Packet list" where
  "delivered_packets unmarshal ds =
     concat (map (\<lambda>d. case unmarshal d of Inl err \<Rightarrow> [] | Inr b \<Rightarrow> SB_Packets b) ds)"

lemma delivered_packets_append [simp]:
  "delivered_packets um (xs @ ys) = delivered_packets um xs @ delivered_packets um ys"
  "delivered_packets um [] = []"
  by (simp_all add: delivered_packets_def)

locale forwarding = batch_sender send inv delivered + bounded_codec marshal unmarshal
  for send :: "'s \<Rightarrow> byte list \<Rightarrow> (error option \<times> 's) option"
    and inv :: "'s \<Rightarrow> bool"
    and delivered :: "'s \<Rightarrow> byte list list"
    and marshal :: "SymbolBatch \<Rightarrow> byte list res"
    and unmarshal :: "byte list \<Rightarrow> SymbolBatch res"
begin

text \<open>A flush settles every packet of the batch: all delivered and counted as forwarded, or all counted as lost.\<close>

lemma flushBatch_settles:
  assumes "inv (fs_sender st)" "flushBatch marshal send fwd batch st = Some st'"
  shows "inv (fs_sender st') \<and> received (fs_counters st') = received (fs_counters st) \<and>
    crcDropped (fs_counters st') = crcDropped (fs_counters st) \<and>
    malformed (fs_counters st') = malformed (fs_counters st) \<and>
    intakeDropped (fs_counters st') = intakeDropped (fs_counters st) \<and>
    (delivered_packets unmarshal (delivered (fs_sender st'))
        = delivered_packets unmarshal (delivered (fs_sender st)) @ batch \<and>
      forwarded (fs_counters st') = forwarded (fs_counters st) + of_nat (length batch) \<and>
      lost (fs_log st') = lost (fs_log st) \<or>
     delivered (fs_sender st') = delivered (fs_sender st) \<and>
      forwarded (fs_counters st') = forwarded (fs_counters st) \<and>
      lost (fs_log st') = lost (fs_log st) + length batch)"
proof (cases "marshal \<lparr>ReceiverId = receiverID fwd, SB_Packets = batch\<rparr>")
  case (Inl err)
  with assms show ?thesis by (auto simp: flushBatch_def Add_defs)
next
  case (Inr payload)
  note small = marshal_frame [OF Inr]
  from Inr assms(2) obtain e s where send: "send (fs_sender st) payload = Some (e, s)"
    by (auto simp: flushBatch_def split: option.splits)
  have "inv s" using send_inv [OF assms(1) small send] .
  show ?thesis
  proof (cases e)
    case None
    with send_ok [OF assms(1) small] send
    have "delivered_packets unmarshal (delivered s) = delivered_packets unmarshal (delivered (fs_sender st)) @ batch"
      using unmarshal_marshal [OF Inr] by (simp add: delivered_packets_def)
    with None Inr send assms(2) \<open>inv s\<close> show ?thesis by (auto simp: flushBatch_def Add_defs)
  next
    case (Some err)
    with send_err [OF assms(1) small] send have "delivered s = delivered (fs_sender st)" by simp
    with Some Inr send assms(2) \<open>inv s\<close> show ?thesis by (auto simp: flushBatch_def Add_defs)
  qed
qed

end

section \<open>Batch sizes\<close>

lemma drain_all: "drain batch ch = (batch @ buf ch, ch\<lparr>buf := []\<rparr>)"
proof (induction batch ch rule: drain.induct)
  case (1 batch ch)
  then show ?case
    by (subst drain.simps) (cases "buf ch"; auto simp: chan_recv_def)
qed

definition logged_size :: "fwd_log \<Rightarrow> nat" where
  "logged_size l = (case l of MarshalFailed n err \<Rightarrow> n | SendFailed n err \<Rightarrow> n | BatchSent n hashes \<Rightarrow> n)"

lemma flush_log:
  assumes "flush marshal send fwd batch st = Some (batch', st')"
  shows "batch' = [] \<and> (fs_log st' = fs_log st \<or> (\<exists>l. fs_log st' = fs_log st @ [l] \<and> logged_size l = length batch))"
  using assms by (auto simp: flush_def flushBatch_def logged_size_def split: if_splits sum.splits option.splits)

text \<open>A batch is flushed as soon as it is full and never exceeds the batch size in normal operation: from a
  partial batch, taking a packet or a tick leaves a partial batch, and whatever is flushed has at most
  \<open>batchSize\<close> packets. After a tick nothing waits in the batch.\<close>

lemma Run_select_batch_bound:
  assumes "0 < batchSize fwd" "int (length batch) < batchSize fwd" "ev \<noteq> StopClosed"
    and "Run_select marshal send fwd ev batch ch st = Some (returned, batch', ch', st')"
  shows "int (length batch') < batchSize fwd \<and>
    (fs_log st' = fs_log st \<or>
      (\<exists>l. fs_log st' = fs_log st @ [l] \<and> int (logged_size l) \<le> batchSize fwd)) \<and>
    (ev = TickReady \<or> returned \<longrightarrow> batch' = [])"
proof (cases ev)
  case IntakeReady
  with assms show ?thesis
    by (auto simp: Let_def split: option.splits if_splits dest!: flush_log)
next
  case TickReady
  with assms show ?thesis by (auto dest!: flush_log)
qed (use assms in simp)

lemma Run_select_batch_bound_witness:
  "\<exists>st'. Run_select (\<lambda>b. Inr []) (\<lambda>s p. Some (None, s)) (NewForwarder 1 2 100) IntakeReady [zero_Packet]
      \<lparr>buf = [zero_Packet], capacity = 4, chan_closed = False\<rparr>
      \<lparr>fs_counters = zero_Counters, fs_sender = (), fs_log = []\<rparr>
      = Some (False, [], \<lparr>buf = [], capacity = 4, chan_closed = False\<rparr>, st') \<and>
    (fs_log st' = [] \<or> (\<exists>l. fs_log st' = [] @ [l] \<and> int (logged_size l) \<le> 2))"
proof -
  let ?f = "NewForwarder 1 2 100"
  let ?ch = "\<lparr>buf = [zero_Packet], capacity = 4, chan_closed = False\<rparr>"
  let ?st = "\<lparr>fs_counters = zero_Counters, fs_sender = (), fs_log = []\<rparr>"
  obtain st' where run: "Run_select (\<lambda>b. Inr []) (\<lambda>s p. Some (None, s)) ?f IntakeReady [zero_Packet] ?ch ?st
      = Some (False, [], \<lparr>buf = [], capacity = 4, chan_closed = False\<rparr>, st')"
    by (simp add: chan_recv_def flush_def flushBatch_def NewForwarder_def)
  with Run_select_batch_bound [OF _ _ _ run] show ?thesis by (auto simp: NewForwarder_def)
qed

text \<open>The stop case puts everything that is queued into one final batch, whatever its size (the comment of
  \<open>NewForwarder\<close> promises batches of up to \<open>batchSize\<close> packets).\<close>

lemma Run_select_stop_one_batch:
  assumes "batch @ buf ch \<noteq> []"
  shows "Run_select marshal send fwd StopClosed batch ch st =
    map_option (\<lambda>st. (True, [], ch\<lparr>buf := []\<rparr>, st)) (flushBatch marshal send fwd (batch @ buf ch) st)"
  using assms by (auto simp: drain_all flush_def option.map_comp comp_def)

lemma Run_select_stop_one_batch_witness:
  "map_option (\<lambda>(returned, batch, ch, st). fs_log st)
     (Run_select (\<lambda>b. Inr []) (\<lambda>s p. Some (None, s)) (NewForwarder 1 2 100) StopClosed []
      \<lparr>buf = replicate 3 zero_Packet, capacity = 4, chan_closed = False\<rparr>
      \<lparr>fs_counters = zero_Counters, fs_sender = (), fs_log = []\<rparr>) = Some [BatchSent 3 [0]]"
  by (subst Run_select_stop_one_batch)
    (simp_all add: flushBatch_def distinctFileHashes_def zero_Packet_def numeral_3_eq_3)

end
