(* ===== verification/Receiver.thy ===== *)
theory Receiver
  imports Forwarder "HOL-Library.Sublist"
begin

text \<open>
  The receiver process, \<open>receivers/cmd/main.go\<close>: the goroutine \<open>readLoop\<close> (UDP intake), the forwarder's
  goroutine and the shutdown sequence of \<open>main\<close>, connected by the \<open>intake\<close> channel and the shared counters.
  The goroutines run concurrently: \<open>rstep\<close> interleaves their steps in every order. A step is what one
  goroutine does between two points where another one can observe or influence it: reading and checking a datagram,
  the non-blocking send, one round of the forwarder's select, closing the socket, closing the channel. The start
  of the process is in theory \<open>Receiver_Boot\<close>, its end in \<open>Receiver_Shutdown\<close>. Lemmas: the accounting equation of the stats
  package, order and validity of what is forwarded, and the window in which shutdown can panic.
\<close>

section \<open>The read loop\<close>

definition maxDatagramSize :: nat where
  "maxDatagramSize = 2048"

definition readDatagramSize :: nat where
  "readDatagramSize = 65535"

text \<open>From the datagram to the validated packet: the counters and the packet, if it passes.\<close>

definition readLoop_accept ::
  "(byte list \<Rightarrow> Packet res) \<Rightarrow> byte list \<Rightarrow> Counters \<Rightarrow> Counters \<times> Packet option" where
  "readLoop_accept unmarshal raw counters =
     (let datagram = take readDatagramSize raw;
          packetSize = length datagram;
          counters = AddReceived counters
      in if packetSize > maxDatagramSize then (AddMalformed counters, None)
         else
           (case unmarshal datagram of
              Inl err \<Rightarrow> (AddMalformed counters, None)
            | Inr packet \<Rightarrow>
                if \<not> VerifyPacket (GetFileHash (Some packet)) (GetBlockId (Some packet)) (GetTotalBlocks (Some packet))
                       (GetSymbolId (Some packet)) (GetKSymbols (Some packet)) (GetNSymbols (Some packet))
                       (GetFileSize (Some packet)) (GetContent (Some packet)) (GetPacketCrc (Some packet))
                then (AddCrcDropped counters, None)
                else
                  (let ownedContent = go_copy (replicate (length (Content packet)) 0) (Content packet)
                   in (counters, Some (packet\<lparr>Content := ownedContent\<rparr>)))))"

text \<open>The select with a default case: enqueue or drop, never wait.\<close>

datatype offer_result = Queued chan | Dropped Counters | Crashed

definition readLoop_offer :: "chan \<Rightarrow> Packet \<Rightarrow> Counters \<Rightarrow> offer_result" where
  "readLoop_offer intake packet counters =
     (case try_send intake packet of
        Sent ch \<Rightarrow> Queued ch
      | Full \<Rightarrow> Dropped (AddIntakeDropped counters)
      | Panic \<Rightarrow> Crashed)"

section \<open>The process\<close>

text \<open>
  Where the read loop is: waiting for a datagram, holding a validated packet before the send, returned, or crashed in
  the send.
\<close>

datatype read_phase = Reading | Holding Packet | Stopped | Panicked Packet

text \<open>\<open>history\<close> records the datagrams read so far; the program does not keep it and no step depends on it.\<close>

record 's receiver =
  intake :: chan
  phase :: read_phase
  batch :: "Packet list"
  fwd_returned :: bool
  fwd_state :: "'s fwd_state"
  udp_open :: bool
  history :: "byte list list"

definition main_start :: "nat \<Rightarrow> 's \<Rightarrow> 's receiver" where
  "main_start queueDepth s =
     \<lparr>intake = \<lparr>buf = [], capacity = queueDepth, chan_closed = False\<rparr>, phase = Reading, batch = [],
      fwd_returned = False, fwd_state = \<lparr>fs_counters = zero_Counters, fs_sender = s, fs_log = []\<rparr>,
      udp_open = True, history = []\<rparr>"

definition set_counters :: "Counters \<Rightarrow> 's receiver \<Rightarrow> 's receiver" where
  "set_counters c r = r\<lparr>fwd_state := (fwd_state r)\<lparr>fs_counters := c\<rparr>\<rparr>"

inductive rstep ::
  "(byte list \<Rightarrow> Packet res) \<Rightarrow> (SymbolBatch \<Rightarrow> byte list res) \<Rightarrow>
   ('s \<Rightarrow> byte list \<Rightarrow> (error option \<times> 's) option) \<Rightarrow> Forwarder \<Rightarrow> 's receiver \<Rightarrow> 's receiver \<Rightarrow> bool"
  for unmarshal marshal send fwd where
  read_drop: "phase r = Reading \<Longrightarrow> udp_open r \<Longrightarrow>
    readLoop_accept unmarshal raw (fs_counters (fwd_state r)) = (c, None) \<Longrightarrow>
    rstep unmarshal marshal send fwd r ((set_counters c r)\<lparr>history := history r @ [raw]\<rparr>)"
| read_keep: "phase r = Reading \<Longrightarrow> udp_open r \<Longrightarrow>
    readLoop_accept unmarshal raw (fs_counters (fwd_state r)) = (c, Some packet) \<Longrightarrow>
    rstep unmarshal marshal send fwd r ((set_counters c r)\<lparr>history := history r @ [raw], phase := Holding packet\<rparr>)"
| offer_queued: "phase r = Holding packet \<Longrightarrow>
    readLoop_offer (intake r) packet (fs_counters (fwd_state r)) = Queued ch \<Longrightarrow>
    rstep unmarshal marshal send fwd r (r\<lparr>intake := ch, phase := Reading\<rparr>)"
| offer_dropped: "phase r = Holding packet \<Longrightarrow>
    readLoop_offer (intake r) packet (fs_counters (fwd_state r)) = Dropped c \<Longrightarrow>
    rstep unmarshal marshal send fwd r ((set_counters c r)\<lparr>phase := Reading\<rparr>)"
| offer_crashed: "phase r = Holding packet \<Longrightarrow>
    readLoop_offer (intake r) packet (fs_counters (fwd_state r)) = Crashed \<Longrightarrow>
    rstep unmarshal marshal send fwd r (r\<lparr>phase := Panicked packet\<rparr>)"
| read_closed: "phase r = Reading \<Longrightarrow> \<not> udp_open r \<Longrightarrow>
    rstep unmarshal marshal send fwd r (r\<lparr>phase := Stopped\<rparr>)"
| forward: "\<not> fwd_returned r \<Longrightarrow> (\<forall>p. phase r \<noteq> Panicked p) \<Longrightarrow> ev \<noteq> StopClosed \<Longrightarrow>
    Run_select marshal send fwd ev (batch r) (intake r) (fwd_state r) = Some (ret, batch', ch, st) \<Longrightarrow>
    rstep unmarshal marshal send fwd r (r\<lparr>fwd_returned := ret, batch := batch', intake := ch, fwd_state := st\<rparr>)"
| close_udp: "udp_open r \<Longrightarrow> (\<forall>p. phase r \<noteq> Panicked p) \<Longrightarrow>
    rstep unmarshal marshal send fwd r (r\<lparr>udp_open := False\<rparr>)"
| close_intake: "\<not> udp_open r \<Longrightarrow> (\<forall>p. phase r \<noteq> Panicked p) \<Longrightarrow> \<not> chan_closed (intake r) \<Longrightarrow>
    rstep unmarshal marshal send fwd r (r\<lparr>intake := (intake r)\<lparr>chan_closed := True\<rparr>\<rparr>)"

inductive reachable ::
  "(byte list \<Rightarrow> Packet res) \<Rightarrow> (SymbolBatch \<Rightarrow> byte list res) \<Rightarrow>
   ('s \<Rightarrow> byte list \<Rightarrow> (error option \<times> 's) option) \<Rightarrow> Forwarder \<Rightarrow> nat \<Rightarrow> 's \<Rightarrow> 's receiver \<Rightarrow> bool"
  for unmarshal marshal send fwd queueDepth s where
  start: "reachable unmarshal marshal send fwd queueDepth s (main_start queueDepth s)"
| step: "reachable unmarshal marshal send fwd queueDepth s r \<Longrightarrow> rstep unmarshal marshal send fwd r r' \<Longrightarrow>
    reachable unmarshal marshal send fwd queueDepth s r'"

section \<open>Accepted datagrams\<close>

text \<open>The specification of the filter: which packet a datagram stands for, if any.\<close>

definition valid_packet :: "Packet \<Rightarrow> bool" where
  "valid_packet p \<longleftrightarrow> VerifyPacket (FileHash p) (BlockId p) (TotalBlocks p) (SymbolId p) (KSymbols p) (NSymbols p)
     (FileSize p) (Content p) (PacketCrc p)"

definition accepts :: "(byte list \<Rightarrow> Packet res) \<Rightarrow> byte list \<Rightarrow> Packet list" where
  "accepts unmarshal raw =
     (if length raw > maxDatagramSize then []
      else case unmarshal raw of Inl err \<Rightarrow> [] | Inr p \<Rightarrow> if valid_packet p then [p] else [])"

lemma go_copy_same [simp]: "go_copy (replicate (length xs) 0) xs = xs"
  by (simp add: go_copy_def)

lemma readLoop_accept_eq:
  "readLoop_accept unmarshal raw c =
     (if length raw > maxDatagramSize then (AddMalformed (AddReceived c), None)
      else case unmarshal raw of
          Inl err \<Rightarrow> (AddMalformed (AddReceived c), None)
        | Inr p \<Rightarrow> if valid_packet p then (AddReceived c, Some p) else (AddCrcDropped (AddReceived c), None))"
proof -
  have "length (take readDatagramSize raw) > maxDatagramSize \<longleftrightarrow> length raw > maxDatagramSize"
    by (simp add: readDatagramSize_def maxDatagramSize_def)
  moreover have "length raw \<le> maxDatagramSize \<Longrightarrow> take readDatagramSize raw = raw"
    by (simp add: readDatagramSize_def maxDatagramSize_def)
  ultimately show ?thesis
    by (simp add: readLoop_accept_def valid_packet_def Let_def split: sum.split)
qed

lemma readLoop_accept_None:
  "readLoop_accept unmarshal raw c = (c', None) \<Longrightarrow>
   accepts unmarshal raw = [] \<and> received c' = received c + 1 \<and> settled c' = settled c + 1 \<and> forwarded c' = forwarded c"
  by (auto simp: readLoop_accept_eq accepts_def split: if_splits sum.splits) (simp_all add: Add_defs)

lemma readLoop_accept_Some:
  "readLoop_accept unmarshal raw c = (c', Some p) \<Longrightarrow> accepts unmarshal raw = [p] \<and> c' = AddReceived c"
  by (auto simp: readLoop_accept_eq accepts_def split: if_splits sum.splits)

lemma readLoop_offer_cases:
  "readLoop_offer ch p c = Queued ch' \<Longrightarrow>
     \<not> chan_closed ch \<and> length (buf ch) < capacity ch \<and> ch' = ch\<lparr>buf := buf ch @ [p]\<rparr>"
  "readLoop_offer ch p c = Dropped c' \<Longrightarrow>
     \<not> chan_closed ch \<and> capacity ch \<le> length (buf ch) \<and> c' = AddIntakeDropped c"
  "readLoop_offer ch p c = Crashed \<longleftrightarrow> chan_closed ch"
  by (auto simp: readLoop_offer_def try_send_def split: send_result.splits if_splits)

section \<open>One round of the forwarder\<close>

definition same_intake_counts :: "Counters \<Rightarrow> Counters \<Rightarrow> bool" where
  "same_intake_counts c c' \<longleftrightarrow> received c' = received c \<and> crcDropped c' = crcDropped c \<and>
     malformed c' = malformed c \<and> intakeDropped c' = intakeDropped c"

text \<open>The packets \<open>gone\<close> leave the process: either all delivered or all lost with their batch.\<close>

definition moved ::
  "('s \<Rightarrow> bool) \<Rightarrow> ('s \<Rightarrow> byte list list) \<Rightarrow> (byte list \<Rightarrow> SymbolBatch res) \<Rightarrow> Packet list \<Rightarrow>
   's fwd_state \<Rightarrow> 's fwd_state \<Rightarrow> bool" where
  "moved good delivered unmarshal gone st st' \<longleftrightarrow>
     good (fs_sender st') \<and> same_intake_counts (fs_counters st) (fs_counters st') \<and>
     (\<exists>out. (out = gone \<or> out = []) \<and>
       delivered_packets unmarshal (delivered (fs_sender st'))
         = delivered_packets unmarshal (delivered (fs_sender st)) @ out \<and>
       forwarded (fs_counters st') = forwarded (fs_counters st) + of_nat (length out) \<and>
       lost (fs_log st') + length out = lost (fs_log st) + length gone)"

context forwarding
begin

lemma moved_none: "inv (fs_sender st) \<Longrightarrow> moved inv delivered unmarshal [] st st"
  by (simp add: moved_def same_intake_counts_def)

lemma flush_moved:
  "inv (fs_sender st) \<Longrightarrow> flush marshal send fwd b st = Some (b', st') \<Longrightarrow>
   b' = [] \<and> moved inv delivered unmarshal b st st'"
  using flushBatch_settles [of st fwd b st']
  by (auto simp: flush_def moved_none moved_def same_intake_counts_def split: if_splits)

lemma Run_select_moved:
  assumes "inv (fs_sender st)" "ev \<noteq> StopClosed"
    and "Run_select marshal send fwd ev b ch st = Some (ret, b', ch', st')"
  shows "\<exists>gone. b @ buf ch = gone @ b' @ buf ch' \<and> moved inv delivered unmarshal gone st st' \<and>
    capacity ch' = capacity ch \<and> chan_closed ch' = chan_closed ch \<and>
    (ret \<longrightarrow> b' = [] \<and> buf ch' = [] \<and> chan_closed ch')"
proof (cases "ev = TickReady")
  case True
  with assms show ?thesis by (auto dest!: flush_moved [OF assms(1)])
next
  case False
  with assms(2) have ev: "ev = IntakeReady" by (cases ev) auto
  show ?thesis
  proof (cases "buf ch")
    case Nil
    with assms ev show ?thesis
      by (auto simp: chan_recv_def split: if_splits dest!: flush_moved [OF assms(1)])
  next
    case (Cons p ps)
    with assms ev show ?thesis
      by (auto simp: chan_recv_def Let_def moved_none split: if_splits dest!: flush_moved [OF assms(1)])
  qed
qed

end

section \<open>Invariants of the process\<close>

fun pending :: "read_phase \<Rightarrow> Packet list" where
  "pending (Holding p) = [p]"
| "pending (Panicked p) = [p]"
| "pending Reading = []"
| "pending Stopped = []"

definition in_process :: "'s receiver \<Rightarrow> Packet list" where
  "in_process r = batch r @ buf (intake r) @ pending (phase r)"

definition accounted :: "'s receiver \<Rightarrow> bool" where
  "accounted r \<longleftrightarrow>
     (let c = fs_counters (fwd_state r) in
      received c = of_nat (length (history r)) \<and>
      received c = settled c + of_nat (lost (fs_log (fwd_state r))) + of_nat (length (in_process r)))"

definition in_order ::
  "(byte list \<Rightarrow> Packet res) \<Rightarrow> (byte list \<Rightarrow> SymbolBatch res) \<Rightarrow> ('s \<Rightarrow> byte list list) \<Rightarrow> 's receiver \<Rightarrow> bool" where
  "in_order unmarshal unmarshalBatch delivered r \<longleftrightarrow>
     (let ds = delivered_packets unmarshalBatch (delivered (fs_sender (fwd_state r))) in
      subseq (ds @ in_process r) (concat (map (accepts unmarshal) (history r))) \<and>
      forwarded (fs_counters (fwd_state r)) = of_nat (length ds))"

definition queue_ok :: "nat \<Rightarrow> 's receiver \<Rightarrow> bool" where
  "queue_ok queueDepth r \<longleftrightarrow> capacity (intake r) = queueDepth \<and> length (buf (intake r)) \<le> queueDepth \<and>
     (chan_closed (intake r) \<longrightarrow> \<not> udp_open r) \<and>
     (fwd_returned r \<longrightarrow> batch r = [] \<and> buf (intake r) = [] \<and> chan_closed (intake r)) \<and>
     (\<forall>p. phase r = Panicked p \<longrightarrow> chan_closed (intake r))"

lemma subseq_snoc: "subseq xs ys \<Longrightarrow> subseq xs (ys @ zs)"
  using list_emb_append2 by (metis append.right_neutral list_emb_append_mono list_emb_Nil)

lemma subseq_both_snoc: "subseq (xs @ ys @ zs) ws \<Longrightarrow> subseq (xs @ ys @ zs @ [x]) (ws @ [x])"
  using list_emb_append_mono [of "(=)" "xs @ ys @ zs" ws "[x]" "[x]"] by simp

lemma subseq_set: "subseq xs ys \<Longrightarrow> set xs \<subseteq> set ys"
  by (induction rule: list_emb.induct) auto

lemma subseq_drop_middle: "subseq (xs @ ys @ zs) ws \<Longrightarrow> subseq (xs @ zs) ws"
proof (rule subseq_order.order_trans)
  show "subseq (xs @ zs) (xs @ ys @ zs)" by (induction xs) (auto intro: list_emb_append2)
qed

lemma subseq_drop_last: "subseq (xs @ ys @ zs @ [x]) ws \<Longrightarrow> subseq (xs @ ys @ zs) ws"
  using subseq_drop_middle [of "xs @ ys @ zs" "[x]" "[]" ws] by simp

context forwarding
begin

definition receiver_inv :: "(byte list \<Rightarrow> Packet res) \<Rightarrow> nat \<Rightarrow> 's receiver \<Rightarrow> bool" where
  "receiver_inv unmarshalPacket queueDepth r \<longleftrightarrow> inv (fs_sender (fwd_state r)) \<and> accounted r \<and>
     in_order unmarshalPacket unmarshal delivered r \<and> queue_ok queueDepth r"

lemmas receiver_inv_defs = receiver_inv_def accounted_def in_order_def queue_ok_def in_process_def Let_def

lemma accountedD:
  "receiver_inv up q r \<Longrightarrow> received (fs_counters (fwd_state r)) = settled (fs_counters (fwd_state r))
     + of_nat (lost (fs_log (fwd_state r))) + of_nat (length (in_process r))"
  unfolding receiver_inv_def accounted_def Let_def by blast

lemma receiver_inv_start:
  "inv s \<Longrightarrow> delivered s = [] \<Longrightarrow> receiver_inv unmarshalPacket queueDepth (main_start queueDepth s)"
  by (simp add: receiver_inv_defs main_start_def zero_Counters_def settled_def)

lemma receiver_inv_forward:
  assumes "receiver_inv up q r" "\<not> fwd_returned r" "ev \<noteq> StopClosed"
    and run: "Run_select marshal send fwd ev (batch r) (intake r) (fwd_state r) = Some (ret, b', ch', st')"
  shows "receiver_inv up q (r\<lparr>fwd_returned := ret, batch := b', intake := ch', fwd_state := st'\<rparr>)"
proof -
  from assms(1) have "inv (fs_sender (fwd_state r))" by (simp add: receiver_inv_def)
  from Run_select_moved [OF this assms(3) run] obtain gone
    where gone: "batch r @ buf (intake r) = gone @ b' @ buf ch'"
      and m: "moved inv delivered unmarshal gone (fwd_state r) st'"
      and ch: "capacity ch' = capacity (intake r)" "chan_closed ch' = chan_closed (intake r)"
        "ret \<longrightarrow> b' = [] \<and> buf ch' = [] \<and> chan_closed ch'" by blast
  let ?r' = "r\<lparr>fwd_returned := ret, batch := b', intake := ch', fwd_state := st'\<rparr>"
  let ?ds = "delivered_packets unmarshal (delivered (fs_sender (fwd_state r)))"
  from m obtain out where out: "out = gone \<or> out = []"
      "delivered_packets unmarshal (delivered (fs_sender st')) = ?ds @ out"
      "forwarded (fs_counters st') = forwarded (fs_counters (fwd_state r)) + of_nat (length out)"
      "lost (fs_log st') + length out = lost (fs_log (fwd_state r)) + length gone"
    and same: "inv (fs_sender st')" "same_intake_counts (fs_counters (fwd_state r)) (fs_counters st')"
    by (auto simp: moved_def)
  have proc: "in_process r = gone @ in_process ?r'"
    using gone by (simp add: in_process_def flip: append_assoc)
  have "accounted ?r'"
  proof -
    have "settled (fs_counters st') = settled (fs_counters (fwd_state r)) + of_nat (length out)"
      using same(2) out(3) by (simp add: settled_def same_intake_counts_def)
    moreover from out(1,4) have "out = gone \<and> lost (fs_log st') = lost (fs_log (fwd_state r)) \<or>
        out = [] \<and> lost (fs_log st') = lost (fs_log (fwd_state r)) + length gone" by auto
    ultimately show ?thesis
      using assms(1) same(2) proc
      by (auto simp: receiver_inv_def accounted_def same_intake_counts_def Let_def algebra_simps)
  qed
  moreover have "in_order up unmarshal delivered ?r'"
  proof -
    from assms(1) proc have "subseq (?ds @ gone @ in_process ?r') (concat (map (accepts up) (history r)))"
      by (simp add: receiver_inv_def in_order_def Let_def)
    then have "subseq (?ds @ out @ in_process ?r') (concat (map (accepts up) (history r)))"
      using out(1) by (auto dest: subseq_drop_middle)
    with out(2,3) assms(1) show ?thesis by (simp add: receiver_inv_def in_order_def Let_def)
  qed
  moreover have "length (buf ch') \<le> length (buf (intake r))"
    using run assms(3)
    by (cases ev) (auto simp: chan_recv_def Let_def split: list.splits option.splits if_splits)
  then have "queue_ok q ?r'"
    using assms(1,2) ch by (auto simp: receiver_inv_def queue_ok_def)
  ultimately show ?thesis using same(1) by (simp add: receiver_inv_def)
qed

lemma receiver_inv_step:
  assumes "rstep up marshal send fwd r r'" "receiver_inv up q r"
  shows "receiver_inv up q r'"
  using assms(1)
proof cases
  case (read_drop raw c)
  with assms(2) readLoop_accept_None [OF read_drop(4)] show ?thesis
    by (auto simp: receiver_inv_defs set_counters_def subseq_snoc algebra_simps)
next
  case (read_keep raw c packet)
  from readLoop_accept_Some [OF read_keep(4)] have "accepts up raw = [packet]" "c = AddReceived (fs_counters (fwd_state r))"
    by simp_all
  with assms(2) read_keep show ?thesis
    by (auto simp: receiver_inv_defs set_counters_def Add_defs settled_def algebra_simps subseq_both_snoc)
next
  case (offer_queued packet ch)
  with assms(2) readLoop_offer_cases(1) [OF offer_queued(3)] show ?thesis
    by (auto simp: receiver_inv_defs algebra_simps)
next
  case (offer_dropped packet c)
  with assms(2) readLoop_offer_cases(2) [OF offer_dropped(3)] show ?thesis
    by (auto simp: receiver_inv_defs set_counters_def Add_defs settled_def algebra_simps dest: subseq_drop_last)
next
  case (offer_crashed packet)
  with assms(2) show ?thesis by (auto simp: receiver_inv_defs readLoop_offer_cases(3))
next
  case (forward ev ret b' ch st)
  with assms(2) show ?thesis by (simp add: receiver_inv_forward)
qed (use assms(2) in \<open>auto simp: receiver_inv_defs\<close>)

lemma receiver_inv_reachable:
  assumes "reachable up marshal send fwd q s r" "inv s" "delivered s = []"
  shows "receiver_inv up q r"
  using assms(1)
proof induction
  case start
  show ?case using assms(2,3) by (rule receiver_inv_start)
next
  case (step r r')
  then show ?case by (blast intro: receiver_inv_step)
qed

end

section \<open>Properties of the receiver\<close>

text \<open>
  The hypotheses of the properties: the batch sender and the batch codec meet their contracts (\<open>forwarding\<close>), and
  the sender has delivered nothing before the start.
\<close>

text \<open>C7: the accounting equation of the stats package. In every state the receiver can reach, under every
  interleaving of read loop, forwarder and shutdown, the datagrams received are those counted as forwarded, failed
  checksum, malformed or dropped at the intake, plus the packets lost in batches that could not be
  sent, plus the packets still in the process. All counters are modulo \<open>2 ^ 64\<close>.\<close>

theorem received_is_accounted:
  assumes "forwarding send good delivered marshal unmarshalBatch" "good s" "delivered s = []"
    and "reachable unmarshal marshal send fwd queueDepth s r"
  shows "let c = fs_counters (fwd_state r) in
    received c = forwarded c + crcDropped c + malformed c + intakeDropped c
      + of_nat (lost (fs_log (fwd_state r))) + of_nat (length (in_process r))"
  using forwarding.accountedD [OF assms(1) forwarding.receiver_inv_reachable [OF assms(1,4,2,3)]]
  by (simp add: settled_def Let_def)

text \<open>Once the receiver has shut down (read loop stopped, forwarder returned) nothing is left inside: the
  equation holds without a remainder.\<close>

lemma shutdown_leaves_nothing:
  assumes "forwarding send good delivered marshal unmarshalBatch" "good s" "delivered s = []"
    and "reachable unmarshal marshal send fwd queueDepth s r"
    and "fwd_returned r" "phase r = Stopped"
  shows "in_process r = [] \<and>
    (let c = fs_counters (fwd_state r) in
     received c = forwarded c + crcDropped c + malformed c + intakeDropped c + of_nat (lost (fs_log (fwd_state r))))"
proof -
  note reach = forwarding.receiver_inv_reachable [OF assms(1,4,2,3)]
  with assms(5,6) have "in_process r = []"
    by (simp add: forwarding.receiver_inv_def [OF assms(1)] queue_ok_def in_process_def)
  with forwarding.accountedD [OF assms(1) reach] show ?thesis by (simp add: settled_def Let_def)
qed

text \<open>C8: what the session manager gets is a subsequence, in the order of arrival, of the packets that the datagrams
  received so far stand for (small enough, decodable, with the right checksum): nothing is invented, altered, repeated
  or reordered, and \<open>forwarded\<close> counts exactly these packets.\<close>

theorem forwards_valid_in_order:
  assumes "forwarding send good delivered marshal unmarshalBatch" "good s" "delivered s = []"
    and "reachable unmarshal marshal send fwd queueDepth s r"
  shows "let ds = delivered_packets unmarshalBatch (delivered (fs_sender (fwd_state r))) in
    subseq ds (concat (map (accepts unmarshal) (history r))) \<and> (\<forall>p\<in>set ds. valid_packet p) \<and>
    forwarded (fs_counters (fwd_state r)) = of_nat (length ds)"
proof -
  let ?ds = "delivered_packets unmarshalBatch (delivered (fs_sender (fwd_state r)))"
  have "subseq (?ds @ in_process r) (concat (map (accepts unmarshal) (history r)))"
    "forwarded (fs_counters (fwd_state r)) = of_nat (length ?ds)"
    using forwarding.receiver_inv_reachable [OF assms(1,4,2,3)]
    by (simp_all add: forwarding.receiver_inv_def [OF assms(1)] in_order_def Let_def)
  moreover from this(1) have sub: "subseq ?ds (concat (map (accepts unmarshal) (history r)))"
    using subseq_drop_middle [of ?ds "in_process r" "[]"] by simp
  moreover have "valid_packet p" if "p \<in> set (concat (map (accepts unmarshal) (history r)))" for p
    using that by (auto simp: accepts_def split: if_splits sum.splits)
  then have "\<forall>p\<in>set ?ds. valid_packet p"
    using subseq_set [OF sub] by blast
  ultimately show ?thesis by (simp add: Let_def)
qed

text \<open>The intake queue never holds more than its depth, the read loop never waits for it, and the process
  panics only after the intake channel has been closed.\<close>

lemma intake_bounded:
  assumes "forwarding send good delivered marshal unmarshalBatch" "good s" "delivered s = []"
    and "reachable unmarshal marshal send fwd queueDepth s r"
  shows "length (buf (intake r)) \<le> queueDepth \<and>
    (\<forall>p. phase r = Panicked p \<longrightarrow> chan_closed (intake r)) \<and>
    (\<forall>p. phase r = Holding p \<longrightarrow> (\<exists>r'. rstep unmarshal marshal send fwd r r' \<and> phase r' \<noteq> Holding p))"
proof (intro conjI)
  have "queue_ok queueDepth r"
    using forwarding.receiver_inv_reachable [OF assms(1,4,2,3)]
    by (simp add: forwarding.receiver_inv_def [OF assms(1)])
  then show "length (buf (intake r)) \<le> queueDepth" "\<forall>p. phase r = Panicked p \<longrightarrow> chan_closed (intake r)"
    by (simp_all add: queue_ok_def)
  show "\<forall>p. phase r = Holding p \<longrightarrow> (\<exists>r'. rstep unmarshal marshal send fwd r r' \<and> phase r' \<noteq> Holding p)"
  proof (intro allI impI)
    fix p
    assume h: "phase r = Holding p"
    show "\<exists>r'. rstep unmarshal marshal send fwd r r' \<and> phase r' \<noteq> Holding p"
    proof (cases "readLoop_offer (intake r) p (fs_counters (fwd_state r))")
      case (Queued ch)
      show ?thesis by (rule exI, rule conjI, rule rstep.offer_queued [OF h Queued]) simp
    next
      case (Dropped c)
      show ?thesis by (rule exI, rule conjI, rule rstep.offer_dropped [OF h Dropped]) simp
    next
      case Crashed
      show ?thesis by (rule exI, rule conjI, rule rstep.offer_crashed [OF h Crashed]) simp
    qed
  qed
qed

text \<open>C37: the shutdown sequence can crash the process. \<open>main\<close> closes the socket and then the intake channel without
  waiting for the read loop; a read loop that has just validated a packet then sends on a closed channel,
  which panics. For every valid datagram there is such a run.\<close>

theorem shutdown_race_panics:
  assumes "accepts unmarshal raw = [p]"
  shows "\<exists>r. reachable unmarshal marshal send fwd queueDepth s r \<and> phase r = Panicked p"
proof -
  let ?r0 = "main_start queueDepth s"
  let ?c = "AddReceived zero_Counters"
  let ?r1 = "(set_counters ?c ?r0)\<lparr>history := history ?r0 @ [raw], phase := Holding p\<rparr>"
  let ?r2 = "?r1\<lparr>udp_open := False\<rparr>"
  let ?r3 = "?r2\<lparr>intake := (intake ?r2)\<lparr>chan_closed := True\<rparr>\<rparr>"
  have "readLoop_accept unmarshal raw zero_Counters = (?c, Some p)"
    using assms by (auto simp: readLoop_accept_eq accepts_def split: if_splits sum.splits)
  then have "rstep unmarshal marshal send fwd ?r0 ?r1"
    by (intro rstep.read_keep) (simp_all add: main_start_def)
  moreover have "rstep unmarshal marshal send fwd ?r1 ?r2"
    by (rule rstep.close_udp) (simp_all add: main_start_def set_counters_def)
  moreover have "rstep unmarshal marshal send fwd ?r2 ?r3"
    by (rule rstep.close_intake) (simp_all add: main_start_def set_counters_def)
  moreover have "rstep unmarshal marshal send fwd ?r3 (?r3\<lparr>phase := Panicked p\<rparr>)"
    by (rule rstep.offer_crashed) (simp_all add: readLoop_offer_def try_send_def)
  ultimately have "reachable unmarshal marshal send fwd queueDepth s (?r3\<lparr>phase := Panicked p\<rparr>)"
    by (meson reachable.start reachable.step)
  then show ?thesis by fastforce
qed

end
