(* ===== verification/Wire.thy ===== *)
theory Wire
  imports Proto Sender_Ipc Rs_Helper Receiver
begin

text \<open>
  The repository's messages on the proto3 wire: field numbers from \<open>packet.proto\<close>, \<open>rx-ipc.proto\<close>,
  \<open>tx-ipc.proto\<close> and \<open>rs-helper.proto\<close>. Every message type gets its codec, which interprets the
  contract \<open>bounded_codec\<close>; the components' properties are instantiated with them here, and the
  size of a sender's packet is bounded.
\<close>

section \<open>Scalars\<close>

definition text_bytes :: "string \<Rightarrow> byte list" where
  "text_bytes s = map (\<lambda>ch. of_nat (of_char ch)) s"

definition bytes_text :: "byte list \<Rightarrow> string" where
  "bytes_text b = map (\<lambda>x. char_of (unat x)) b"

lemma bytes_text_bytes [simp]: "bytes_text (text_bytes s) = s"
proof -
  have "unat (of_nat (of_char ch) :: byte) = of_char ch" for ch
    by (simp add: unsigned_of_nat take_bit_nat_eq_self )
  then show ?thesis by (simp add: text_bytes_def bytes_text_def comp_def)
qed

lemma text_bytes_empty [simp]: "text_bytes s = [] \<longleftrightarrow> s = []"
  by (simp add: text_bytes_def)

section \<open>packet.proto\<close>

definition packet_fields :: "Packet \<Rightarrow> fields" where
  "packet_fields p =
     varint_field 1 (unat (FileHash p)) @ varint_field 2 (unat (BlockId p)) @
     varint_field 3 (unat (TotalBlocks p)) @ varint_field 4 (unat (SymbolId p)) @
     varint_field 5 (unat (KSymbols p)) @ varint_field 6 (unat (NSymbols p)) @
     varint_field 7 (unat (FileSize p)) @ bytes_field 8 (Content p) @ varint_field 9 (unat (PacketCrc p))"

definition fields_packet :: "fields \<Rightarrow> Packet option" where
  "fields_packet fs = Some \<lparr>FileHash = of_nat (scan_varint 1 0 fs), BlockId = of_nat (scan_varint 2 0 fs),
     TotalBlocks = of_nat (scan_varint 3 0 fs), SymbolId = of_nat (scan_varint 4 0 fs),
     KSymbols = of_nat (scan_varint 5 0 fs), NSymbols = of_nat (scan_varint 6 0 fs),
     FileSize = of_nat (scan_varint 7 0 fs), Content = scan_bytes 8 [] fs, PacketCrc = of_nat (scan_varint 9 0 fs)\<rparr>"

lemma packet_roundtrip: "fields_packet (packet_fields p) = Some p"
  by (simp add: fields_packet_def packet_fields_def scan_simps)

definition marshal_packet :: "Packet \<Rightarrow> byte list res" where
  "marshal_packet = wire_marshal packet_fields"

definition unmarshal_packet :: "byte list \<Rightarrow> Packet res" where
  "unmarshal_packet = wire_unmarshal fields_packet"

interpretation packet_wire: bounded_codec marshal_packet unmarshal_packet
  unfolding marshal_packet_def unmarshal_packet_def by (rule wire_roundtrip) (rule packet_roundtrip)

section \<open>Repeated messages\<close>

fun traverse :: "('a \<Rightarrow> 'b option) \<Rightarrow> 'a list \<Rightarrow> 'b list option" where
  "traverse f [] = Some []"
| "traverse f (x # xs) =
     (case f x of None \<Rightarrow> None | Some y \<Rightarrow> map_option (\<lambda>ys. y # ys) (traverse f xs))"

lemma traverse_map: "(\<And>x. f (g x) = Some x) \<Longrightarrow> traverse f (map g xs) = Some xs"
  by (induction xs) simp_all

definition embedded :: "(fields \<Rightarrow> 'm option) \<Rightarrow> byte list \<Rightarrow> 'm option" where
  "embedded from_fields b = (case get_fields b of None \<Rightarrow> None | Some fs \<Rightarrow> from_fields fs)"

lemma embedded_put: "from_fields (to_fields m) = Some m \<Longrightarrow> embedded from_fields (put_fields (to_fields m)) = Some m"
  by (simp add: embedded_def)

section \<open>rx-ipc.proto\<close>

definition batch_fields :: "SymbolBatch \<Rightarrow> fields" where
  "batch_fields b = varint_field 1 (unat (ReceiverId b)) @
     repeated_field 2 (map (\<lambda>p. put_fields (packet_fields p)) (SB_Packets b))"

definition fields_batch :: "fields \<Rightarrow> SymbolBatch option" where
  "fields_batch fs = map_option (\<lambda>ps. \<lparr>ReceiverId = of_nat (scan_varint 1 0 fs), SB_Packets = ps\<rparr>)
     (traverse (embedded fields_packet) (scan_repeated 2 fs))"

lemma batch_roundtrip: "fields_batch (batch_fields b) = Some b"
  by (simp add: fields_batch_def batch_fields_def scan_simps traverse_map embedded_put packet_roundtrip)

definition marshal_batch :: "SymbolBatch \<Rightarrow> byte list res" where
  "marshal_batch = wire_marshal batch_fields"

definition unmarshal_batch :: "byte list \<Rightarrow> SymbolBatch res" where
  "unmarshal_batch = wire_unmarshal fields_batch"

interpretation batch_wire: bounded_codec marshal_batch unmarshal_batch
  unfolding marshal_batch_def unmarshal_batch_def by (rule wire_roundtrip) (rule batch_roundtrip)

text \<open>The forwarder over the session client, with this codec, meets the contract of forwarding.\<close>

interpretation session_fwd:
  forwarding "client_send conn_Close" client_inv client_delivered marshal_batch unmarshal_batch for conn_Close ..

section \<open>tx-ipc.proto\<close>

definition task_fields :: "TaskAssignment \<Rightarrow> fields" where
  "task_fields t = bytes_field 1 (text_bytes (FilePath t)) @ varint_field 2 (unat (Task_FileHash t))"

definition fields_task :: "fields \<Rightarrow> TaskAssignment option" where
  "fields_task fs = Some \<lparr>FilePath = bytes_text (scan_bytes 1 [] fs), Task_FileHash = of_nat (scan_varint 2 0 fs)\<rparr>"

lemma task_roundtrip: "fields_task (task_fields t) = Some t"
  by (simp add: fields_task_def task_fields_def scan_simps)

definition marshal_task :: "TaskAssignment \<Rightarrow> byte list res" where
  "marshal_task = wire_marshal task_fields"

definition unmarshal_task :: "byte list \<Rightarrow> TaskAssignment res" where
  "unmarshal_task = wire_unmarshal fields_task"

interpretation task_wire: bounded_codec marshal_task unmarshal_task
  unfolding marshal_task_def unmarshal_task_def by (rule wire_roundtrip) (rule task_roundtrip)

definition marshal_ping :: "Ping \<Rightarrow> byte list res" where
  "marshal_ping = wire_marshal (\<lambda>ping. [])"

definition unmarshal_ping :: "byte list \<Rightarrow> Ping res" where
  "unmarshal_ping = wire_unmarshal (\<lambda>fs. Some Ping)"

lemma ping_eq [simp]: "Ping = p"
  by (cases p) simp

interpretation ping_wire: bounded_codec marshal_ping unmarshal_ping
  unfolding marshal_ping_def unmarshal_ping_def by (rule wire_roundtrip) simp

definition state_number :: "SenderState \<Rightarrow> nat" where
  "state_number s = (case s of IDLE \<Rightarrow> 0 | WORKING \<Rightarrow> 1)"

definition marshal_heartbeat :: "Heartbeat \<Rightarrow> byte list res" where
  "marshal_heartbeat = wire_marshal (\<lambda>hb. varint_field 1 (state_number (State hb)))"

definition unmarshal_heartbeat :: "byte list \<Rightarrow> Heartbeat res" where
  "unmarshal_heartbeat =
     wire_unmarshal (\<lambda>fs. Some \<lparr>State = (if scan_varint 1 0 fs = 0 then IDLE else WORKING)\<rparr>)"

interpretation heartbeat_wire: bounded_codec marshal_heartbeat unmarshal_heartbeat
  unfolding marshal_heartbeat_def unmarshal_heartbeat_def
  by (rule wire_roundtrip) (simp add: scan_simps state_number_def split: SenderState.split)

section \<open>rs-helper.proto\<close>

definition shard_fields :: "Shard \<Rightarrow> fields" where
  "shard_fields s = varint_field 1 (unat (Shard_SymbolId s)) @ bytes_field 2 (Shard_Content s)"

definition fields_shard :: "fields \<Rightarrow> Shard option" where
  "fields_shard fs = Some \<lparr>Shard_SymbolId = of_nat (scan_varint 1 0 fs), Shard_Content = scan_bytes 2 [] fs\<rparr>"

lemma shard_roundtrip: "fields_shard (shard_fields s) = Some s"
  by (simp add: fields_shard_def shard_fields_def scan_simps)

definition request_fields :: "ReconstructRequest \<Rightarrow> fields" where
  "request_fields r = varint_field 1 (unat (Req_FileHash r)) @ varint_field 2 (unat (Req_BlockId r)) @
     varint_field 3 (unat (Req_KSymbols r)) @ varint_field 4 (unat (Req_NSymbols r)) @
     repeated_field 5 (map (\<lambda>s. put_fields (shard_fields s)) (Req_Shards r))"

definition fields_request :: "fields \<Rightarrow> ReconstructRequest option" where
  "fields_request fs = map_option (\<lambda>shs. \<lparr>Req_FileHash = of_nat (scan_varint 1 0 fs),
       Req_BlockId = of_nat (scan_varint 2 0 fs), Req_KSymbols = of_nat (scan_varint 3 0 fs),
       Req_NSymbols = of_nat (scan_varint 4 0 fs), Req_Shards = shs\<rparr>)
     (traverse (embedded fields_shard) (scan_repeated 5 fs))"

lemma request_roundtrip: "fields_request (request_fields r) = Some r"
  by (simp add: fields_request_def request_fields_def scan_simps traverse_map embedded_put shard_roundtrip)

definition marshal_request :: "ReconstructRequest \<Rightarrow> byte list res" where
  "marshal_request = wire_marshal request_fields"

definition unmarshal_request :: "byte list \<Rightarrow> ReconstructRequest res" where
  "unmarshal_request = wire_unmarshal fields_request"

interpretation request_wire: bounded_codec marshal_request unmarshal_request
  unfolding marshal_request_def unmarshal_request_def by (rule wire_roundtrip) (rule request_roundtrip)

definition response_fields :: "ReconstructResponse \<Rightarrow> fields" where
  "response_fields r = varint_field 1 (if Resp_Ok r then 1 else 0) @ bytes_field 2 (text_bytes (Resp_Error r)) @
     repeated_field 3 (Resp_DataShards r)"

definition fields_response :: "fields \<Rightarrow> ReconstructResponse option" where
  "fields_response fs = Some \<lparr>Resp_Ok = (scan_varint 1 0 fs \<noteq> 0), Resp_Error = bytes_text (scan_bytes 2 [] fs),
     Resp_DataShards = scan_repeated 3 fs\<rparr>"

lemma response_roundtrip: "fields_response (response_fields r) = Some r"
  by (simp add: fields_response_def response_fields_def scan_simps)

definition marshal_response :: "ReconstructResponse \<Rightarrow> byte list res" where
  "marshal_response = wire_marshal response_fields"

definition unmarshal_response :: "byte list \<Rightarrow> ReconstructResponse res" where
  "unmarshal_response = wire_unmarshal fields_response"

interpretation response_wire: bounded_codec marshal_response unmarshal_response
  unfolding marshal_response_def unmarshal_response_def by (rule wire_roundtrip) (rule response_roundtrip)

end
