(* ===== verification/Links.thy ===== *)
theory Links
  imports Wire Config
begin

text \<open>
  Properties that join the two ends of a link: a packet the sender formats fits into one datagram and passes the
  receiver's filter, and the components' properties applied to complete runs over the wire codecs.
\<close>

section \<open>Size of a packet\<close>

text \<open>
  What the sender needs of the packet codec besides the round trip: the size is that of the fields,
  default values left out, and only a message beyond the size limit fails to marshal.
\<close>

locale packet_codec = bounded_codec marshal unmarshal
  for marshal :: "Packet \<Rightarrow> byte list res" and unmarshal :: "byte list \<Rightarrow> Packet res" +
  assumes marshal_size: "marshal p = Inr bs \<Longrightarrow> length bs \<le> fields_size (packet_fields p)"
    and marshal_total: "fields_size (packet_fields p) < 2 ^ 31 \<Longrightarrow> \<exists>bs. marshal p = Inr bs"

interpretation packet_link: packet_codec marshal_packet unmarshal_packet
  by unfold_locales (auto simp: marshal_packet_def wire_marshal_def fields_size_def Let_def split: if_splits)

lemma fields_size_word32: "num < 16 \<Longrightarrow> fields_size (varint_field num (unat (w :: uint32))) \<le> 6"
  using fields_size_varint [of num 5 "unat w"] unsigned_less [of w, where ?'a = nat] by simp

lemma fields_size_word64: "num < 16 \<Longrightarrow> fields_size (varint_field num (unat (w :: uint64))) \<le> 11"
  using fields_size_varint [of num 10 "unat w"] unsigned_less [of w, where ?'a = nat] by simp

lemma packet_size:
  assumes "unat (SymbolId p) < config_NSymbols" "KSymbols p = of_nat config_DataShards"
    "NSymbols p = of_nat config_NSymbols" "length (Content p) \<le> config_ShardSize"
  shows "fields_size (packet_fields p) \<le> 1395"
proof -
  have "fields_size (varint_field 4 (unat (SymbolId p))) \<le> 3"
    using fields_size_varint [of 4 2 "unat (SymbolId p)"] assms(1) by (simp add: config_values)
  moreover have "fields_size (varint_field 5 (unat (KSymbols p))) \<le> 2"
    using fields_size_varint [of 5 1 100] assms(2) by (simp add: config_values)
  moreover have "fields_size (varint_field 6 (unat (NSymbols p))) \<le> 3"
    using fields_size_varint [of 6 2 150] assms(3) by (simp add: config_values)
  moreover have "fields_size (bytes_field 8 (Content p)) \<le> 1347"
    using fields_size_bytes [of 8 2 "Content p"] assms(4) by (simp add: config_values)
  ultimately show ?thesis
    using fields_size_word64 [of 1 "FileHash p"] fields_size_word32 [of 2 "BlockId p"]
      fields_size_word32 [of 3 "TotalBlocks p"] fields_size_word64 [of 7 "FileSize p"]
      fields_size_word32 [of 9 "PacketCrc p"]
    by (simp add: packet_fields_def)
qed

lemma valid_packet_crc:
  "valid_packet p \<longleftrightarrow> PacketCrc p = CalculateCRC (FileHash p) (BlockId p) (TotalBlocks p) (SymbolId p) (KSymbols p)
     (NSymbols p) (FileSize p) (Content p)"
  by (auto simp: valid_packet_def VerifyPacket_def ChecksumPacket_Update CalculateCRC_Update)

lemma formatted_accepted:
  assumes "packet_codec marshal unmarshal"
    and p: "p = \<lparr>FileHash = fileHash, BlockId = blockId, TotalBlocks = totalBlocks, SymbolId = symbolId,
      KSymbols = of_nat config_DataShards, NSymbols = of_nat config_NSymbols, FileSize = fileSize,
      Content = content, PacketCrc = crc\<rparr>"
    and "crc = CalculateCRC fileHash blockId totalBlocks symbolId (of_nat config_DataShards)
      (of_nat config_NSymbols) fileSize content"
    and "unat symbolId < config_NSymbols" "length content \<le> config_ShardSize"
  shows "\<exists>bs. marshal p = Inr bs \<and> length bs \<le> 1395 \<and> accepts unmarshal bs = [p]"
proof -
  have size: "fields_size (packet_fields p) \<le> 1395" using assms(4,5) by (intro packet_size) (simp_all add: p)
  then obtain bs where m: "marshal p = Inr bs" using packet_codec.marshal_total [OF assms(1), of p] by auto
  have len: "length bs \<le> 1395" using packet_codec.marshal_size [OF assms(1) m] size by linarith
  have "unmarshal bs = Inr p"
    using assms(1) m by (meson bounded_codec.axioms(1) packet_codec.axioms(1) proto_codec.unmarshal_marshal)
  moreover have "valid_packet p" unfolding valid_packet_crc using assms(3) by (simp add: p)
  ultimately show ?thesis using m len by (simp add: accepts_def maxDatagramSize_def)
qed

lemma senders_dims: "senders_DefaultDataShrads + senders_DefaultParityShards = config_NSymbols"
  by (simp add: geometry config_NSymbols_def)

text \<open>C18: every packet the sender formats fits into the UDP payload limit of the configuration (1400 bytes, for
  every file size, block number and hash) and is accepted by the receiver's filter as exactly the packet that was
  sent: size guard, decoding and checksum all agree.\<close>

theorem sender_packet_accepted:
  assumes "packet_codec marshal unmarshal"
    and "crc = CalculateCRC fileHash blockId totalBlocks symbolId (of_nat senders_DefaultDataShrads)
      (of_nat (senders_DefaultDataShrads + senders_DefaultParityShards)) fileSize content"
    and "unat symbolId < config_NSymbols" "length content \<le> config_ShardSize"
  shows "\<exists>bs. FormatPacket marshal fileHash blockId totalBlocks symbolId (of_nat senders_DefaultDataShrads)
      (of_nat (senders_DefaultDataShrads + senders_DefaultParityShards)) fileSize content crc = Inr bs \<and>
    length bs \<le> config_MaxUDPPayload \<and>
    accepts unmarshal bs = [\<lparr>FileHash = fileHash, BlockId = blockId, TotalBlocks = totalBlocks, SymbolId = symbolId,
      KSymbols = of_nat config_DataShards, NSymbols = of_nat config_NSymbols, FileSize = fileSize,
      Content = content, PacketCrc = crc\<rparr>]"
  using formatted_accepted [OF assms(1) refl _ assms(3,4), of crc fileHash blockId totalBlocks fileSize] assms(2)
  unfolding senders_dims by (force simp: FormatPacket_def geometry config_MaxUDPPayload_def)

section \<open>A complete run of the receiver\<close>

text \<open>
  Two datagrams arrive, one undecodable and one that carries a valid packet; the packet is queued, forwarded as a
  batch of one over a fresh connection, and the receiver shuts down in the orderly sequence.
\<close>

definition demo_packet :: Packet where
  "demo_packet = \<lparr>FileHash = 7, BlockId = 0, TotalBlocks = 1, SymbolId = 3, KSymbols = of_nat config_DataShards,
     NSymbols = of_nat config_NSymbols, FileSize = 1, Content = [42],
     PacketCrc = CalculateCRC 7 0 1 3 (of_nat config_DataShards) (of_nat config_NSymbols) 1 [42]\<rparr>"

definition demo_datagram :: "byte list" where
  "demo_datagram = put_fields (packet_fields demo_packet)"

lemma demo_size: "length demo_datagram \<le> 1395"
  using packet_size [of demo_packet]
  by (simp add: demo_datagram_def fields_size_def demo_packet_def config_values)

lemma demo_accepted: "accepts unmarshal_packet demo_datagram = [demo_packet]"
proof -
  have "marshal_packet demo_packet = Inr demo_datagram"
    using demo_size by (simp add: marshal_packet_def wire_marshal_def demo_datagram_def)
  then have "unmarshal_packet demo_datagram = Inr demo_packet" by (rule packet_wire.unmarshal_marshal)
  moreover have "valid_packet demo_packet" unfolding valid_packet_crc by (simp add: demo_packet_def)
  ultimately show ?thesis using demo_size by (simp add: accepts_def maxDatagramSize_def)
qed

lemma garbage_rejected: "accepts unmarshal_packet [255] = []" "unmarshal_packet [255] = Inl (LibError ''proto: cannot parse invalid wire-format data'')"
proof -
  have "get_fields [255] = None" by (simp add: get_fields.simps get_field_def)
  then show "unmarshal_packet [255] = Inl (LibError ''proto: cannot parse invalid wire-format data'')"
    by (simp add: unmarshal_packet_def wire_unmarshal_def)
  then show "accepts unmarshal_packet [255] = []" by (simp add: accepts_def)
qed

definition demo_payload :: "byte list" where
  "demo_payload = put_fields (batch_fields \<lparr>ReceiverId = 1, SB_Packets = [demo_packet]\<rparr>)"

lemma demo_marshal: "marshal_batch \<lparr>ReceiverId = 1, SB_Packets = [demo_packet]\<rparr> = Inr demo_payload"
proof -
  have "length (varint (length demo_datagram)) \<le> 2" "length (varint 18) \<le> 1" "length (varint 8) \<le> 1" "length (varint 1) \<le> 1"
    using demo_size by (auto intro!: length_varint)
  then have "length demo_payload \<le> 1400"
    using demo_size
    by (simp add: demo_payload_def batch_fields_def put_fields_def varint_field_def repeated_field_def
        flip: demo_datagram_def [unfolded put_fields_def])
  then show ?thesis by (simp add: marshal_batch_def wire_marshal_def demo_payload_def)
qed

definition demo_session :: "attempt list \<times> net \<times> Client" where
  "demo_session = ([idle_attempt (Inr fresh_conn)], \<lparr>sockets = [], timers = []\<rparr>, NewClient ''/tmp/s'')"

lemma demo_session_good: "client_inv demo_session" "client_delivered demo_session = []"
  by (simp_all add: client_inv_def client_delivered_def demo_session_def idle_attempt_def fresh_conn_def NewClient_def)

lemma demo_send: "\<exists>s. client_send (\<lambda>c. None) demo_session p = Some (None, s)"
  by (simp add: client_send_def demo_session_def SendBatch_def NewClient_def idle_attempt_def fresh_conn_def
      write_frame_def WriteTo_def)

abbreviation demo_reach :: "(attempt list \<times> net \<times> Client) receiver \<Rightarrow> bool" where
  "demo_reach \<equiv> reachable unmarshal_packet marshal_batch (client_send (\<lambda>c. None)) (NewForwarder 1 1 100) 4 demo_session"

lemma demo_run:
  "\<exists>r. demo_reach r \<and> fwd_returned r \<and> phase r = Stopped \<and> history r = [[255], demo_datagram] \<and>
     fs_counters (fwd_state r) = \<lparr>received = 2, forwarded = 1, crcDropped = 0, malformed = 1, intakeDropped = 0,
       ipcDropped = 0, batchesSent = 1\<rparr>"
proof -
  let ?step = "rstep unmarshal_packet marshal_batch (client_send (\<lambda>c. None)) (NewForwarder 1 1 100)"
  let ?r0 = "main_start 4 demo_session"
  let ?c1 = "AddMalformed (AddReceived zero_Counters)"
  let ?r1 = "(set_counters ?c1 ?r0)\<lparr>history := history ?r0 @ [[255]]\<rparr>"
  have s1: "?step ?r0 ?r1"
    by (rule rstep.read_drop)
      (simp_all add: main_start_def readLoop_accept_eq garbage_rejected maxDatagramSize_def)
  let ?c2 = "AddReceived ?c1"
  let ?r2 = "(set_counters ?c2 ?r1)\<lparr>history := history ?r1 @ [demo_datagram], phase := Holding demo_packet\<rparr>"
  have "readLoop_accept unmarshal_packet demo_datagram ?c1 = (?c2, Some demo_packet)"
    using demo_accepted by (auto simp: readLoop_accept_eq accepts_def split: if_splits sum.splits)
  then have s2: "?step ?r1 ?r2"
    by (intro rstep.read_keep) (simp_all add: main_start_def set_counters_def)
  let ?ch = "\<lparr>buf = [demo_packet], capacity = 4, chan_closed = False\<rparr>"
  let ?r3 = "?r2\<lparr>intake := ?ch, phase := Reading\<rparr>"
  have s3: "?step ?r2 ?r3"
    by (rule rstep.offer_queued) (simp_all add: main_start_def set_counters_def readLoop_offer_def try_send_def)
  obtain s where send: "client_send (\<lambda>c. None) demo_session demo_payload = Some (None, s)" using demo_send by blast
  have demo_hash: "FileHash demo_packet = 7" by (simp add: demo_packet_def)
  let ?st = "\<lparr>fs_counters = AddBatchSent (AddForwarded ?c2), fs_sender = s, fs_log = [BatchSent 1 [7]]\<rparr>"
  let ?r4 = "?r3\<lparr>fwd_returned := False, batch := [], intake := ?ch\<lparr>buf := []\<rparr>, fwd_state := ?st\<rparr>"
  have s4: "?step ?r3 ?r4"
    by (rule rstep.forward [where ev = IntakeReady])
      (simp_all add: main_start_def set_counters_def chan_recv_def flush_def flushBatch_def NewForwarder_def
        demo_marshal send distinctFileHashes_def demo_hash Add_defs zero_Counters_def)
  let ?r5 = "?r4\<lparr>udp_open := False\<rparr>"
  have s5: "?step ?r4 ?r5" by (rule rstep.close_udp) (simp_all add: main_start_def set_counters_def)
  let ?r6 = "?r5\<lparr>phase := Stopped\<rparr>"
  have s6: "?step ?r5 ?r6" by (rule rstep.read_closed) simp_all
  let ?r7 = "?r6\<lparr>intake := (intake ?r6)\<lparr>chan_closed := True\<rparr>\<rparr>"
  have s7: "?step ?r6 ?r7" by (rule rstep.close_intake) simp_all
  let ?r8 = "?r7\<lparr>fwd_returned := True, batch := [], intake := intake ?r7, fwd_state := fwd_state ?r7\<rparr>"
  have s8: "?step ?r7 ?r8"
    by (rule rstep.forward [where ev = IntakeReady])
      (simp_all add: main_start_def set_counters_def chan_recv_def flush_def)
  have "demo_reach ?r8"
    using s1 s2 s3 s4 s5 s6 s7 s8 by (meson reachable.start reachable.step)
  moreover have "fs_counters (fwd_state ?r8) = \<lparr>received = 2, forwarded = 1, crcDropped = 0, malformed = 1,
      intakeDropped = 0, ipcDropped = 0, batchesSent = 1\<rparr>"
    by (simp add: Add_defs zero_Counters_def)
  ultimately show ?thesis by (intro exI [of _ ?r8]) (simp add: main_start_def set_counters_def)
qed

theorem received_is_accounted_witness:
  "\<exists>r. demo_reach r \<and> history r = [[255], demo_datagram] \<and>
     (let c = fs_counters (fwd_state r) in
      received c = forwarded c + crcDropped c + malformed c + intakeDropped c
        + of_nat (lost (fs_log (fwd_state r))) + of_nat (length (in_process r)))"
  using demo_run received_is_accounted [OF session_fwd.forwarding_axioms demo_session_good] by blast

lemma shutdown_leaves_nothing_witness:
  "\<exists>r. demo_reach r \<and> fwd_returned r \<and> phase r = Stopped \<and> in_process r = []"
proof -
  obtain r where "demo_reach r" "fwd_returned r" "phase r = Stopped" using demo_run by blast
  with shutdown_leaves_nothing [OF session_fwd.forwarding_axioms demo_session_good this] show ?thesis by blast
qed

theorem forwards_valid_in_order_witness:
  "\<exists>r. demo_reach r \<and>
     delivered_packets unmarshal_batch (client_delivered (fs_sender (fwd_state r))) = [demo_packet]"
proof -
  obtain r where r: "demo_reach r" "history r = [[255], demo_datagram]" "forwarded (fs_counters (fwd_state r)) = 1"
    using demo_run by force
  let ?ds = "delivered_packets unmarshal_batch (client_delivered (fs_sender (fwd_state r)))"
  from forwards_valid_in_order [OF session_fwd.forwarding_axioms demo_session_good r(1)]
  have "subseq ?ds [demo_packet]" "1 = (of_nat (length ?ds) :: uint64)"
    by (simp_all add: r(2,3) demo_accepted garbage_rejected Let_def)
  then have "?ds = [demo_packet]" by (cases ?ds) (auto split: if_splits)
  with r(1) show ?thesis by blast
qed

lemma intake_bounded_witness:
  "\<exists>r. demo_reach r \<and> history r = [[255], demo_datagram] \<and> length (buf (intake r)) \<le> 4"
proof -
  obtain r where r: "demo_reach r" "history r = [[255], demo_datagram]" using demo_run by blast
  with intake_bounded [OF session_fwd.forwarding_axioms demo_session_good r(1)] show ?thesis by blast
qed

theorem shutdown_race_panics_witness: "\<exists>r. demo_reach r \<and> phase r = Panicked demo_packet"
  by (rule shutdown_race_panics [OF demo_accepted])

theorem sender_packet_accepted_witness:
  "\<exists>bs crc. FormatPacket marshal_packet 7 0 1 149 (of_nat senders_DefaultDataShrads)
      (of_nat (senders_DefaultDataShrads + senders_DefaultParityShards)) 1 [42] crc = Inr bs \<and>
    length bs \<le> config_MaxUDPPayload \<and> length (accepts unmarshal_packet bs) = 1"
proof -
  have "unat (149 :: uint32) < config_NSymbols" "length [42 :: byte] \<le> config_ShardSize"
    by (simp_all add: config_values)
  from sender_packet_accepted [OF packet_link.packet_codec_axioms refl this, of 7 0 1 1] show ?thesis by fastforce
qed

section \<open>The monitor's link over the wire codecs\<close>

definition demo_task :: TaskAssignment where
  "demo_task = \<lparr>FilePath = ''a'', Task_FileHash = 5\<rparr>"

lemma serveConn_in_order_witness:
  "\<exists>p. marshal_task demo_task = Inr p \<and>
     snd (serveConn unmarshal_task unmarshal_ping marshal_heartbeat (\<lambda>n. if n = 0 then IDLE else WORKING)
       \<lparr>rx = frame [] @ frame p @ frame [], rx_end = EOF, tx = [], tx_fault = None\<rparr>
       \<lparr>taskChan = [], ipc_logs = [], polls = 0\<rparr>)
     = \<lparr>taskChan = [demo_task], ipc_logs = [], polls = 2\<rparr>"
proof -
  let ?p = "put_fields (task_fields demo_task)"
  have size: "length ?p < 2 ^ 31"
    by (simp add: task_fields_def demo_task_def put_fields_def varint_field_def bytes_field_def text_bytes_def varint.simps)
  then have m: "marshal_task demo_task = Inr ?p" by (simp add: marshal_task_def wire_marshal_def)
  have "unmarshal_ping [] = Inr Ping" "unmarshal_task [] = Inr \<lparr>FilePath = [], Task_FileHash = 0\<rparr>"
    by (simp_all add: unmarshal_ping_def unmarshal_task_def wire_unmarshal_def get_fields.simps fields_task_def
        bytes_text_def)
  then have carry: "list_all2 (carries unmarshal_task unmarshal_ping) [Poll, Assign demo_task, Poll] [[], ?p, []]"
    using size task_wire.unmarshal_marshal [OF m] by (simp add: demo_task_def)
  have "serveConn unmarshal_task unmarshal_ping marshal_heartbeat (\<lambda>n. if n = 0 then IDLE else WORKING)
      \<lparr>rx = concat (map frame [[], ?p, []]), rx_end = EOF, tx = [], tx_fault = None\<rparr>
      \<lparr>taskChan = [], ipc_logs = [], polls = 0\<rparr>
    = (\<lparr>rx = concat (map frame [[], ?p, []]), rx_end = EOF, tx = [], tx_fault = None\<rparr>
        \<lparr>rx := [], tx := concat (map (\<lambda>j. frame (put_fields (varint_field 1 (state_number
            (if j = 0 then IDLE else WORKING))))) [0..<polls_of [Poll, Assign demo_task, Poll]])\<rparr>,
       \<lparr>taskChan = tasks_of [Poll, Assign demo_task, Poll], ipc_logs = [], polls = polls_of [Poll, Assign demo_task, Poll]\<rparr>)"
    by (rule serveConn_in_order [OF carry, where hb = "\<lambda>s. put_fields (varint_field 1 (state_number s))"])
      (simp_all add: marshal_heartbeat_def wire_marshal_def put_fields_def varint_field_def state_number_def
        varint.simps split: SenderState.split)
  with m show ?thesis by simp
qed

end
