(* ===== verification/Counter.thy ===== *)
theory Counter
  imports Binary Config
begin

text \<open>
  The shared block counter: \<open>senders/internal/counter/check-file.go\<close> and \<open>counter.go\<close>. Several sender
  processes share one file that holds the next unclaimed group of blocks as a little-endian \<open>uint64\<close>; \<open>flock\<close>
  makes the read-increment-write of \<open>Count\<close> exclusive. The first part models the two functions over a file system
  with the errors each system call may give; the second part is a step relation at the level of system calls in which
  any number of processes interleave, and may die, at every point. Lemmas: what a call returns and leaves behind on
  every path; the counts that all processes together get are \<open>0, 1, 2, \<dots>\<close>, without repetition.
\<close>

section \<open>Files\<close>

type_synonym filesystem = "string \<rightharpoonup> byte list"

definition CounterSizeInBytes :: nat where
  "CounterSizeInBytes = 8"

definition SeekStartOffset :: nat where
  "SeekStartOffset = 0"

text \<open>
  \<open>Write\<close> at an offset overwrites and, where needed, extends; \<open>Read\<close> into a zeroed buffer
  fills what is there and reports \<open>EOF\<close> only when there is nothing.
\<close>

definition file_write :: "nat \<Rightarrow> byte list \<Rightarrow> byte list \<Rightarrow> byte list" where
  "file_write off bs content = take off content @ bs @ drop (off + length bs) content"

definition file_read :: "nat \<Rightarrow> nat \<Rightarrow> byte list \<Rightarrow> byte list res" where
  "file_read off n content =
     (if length content \<le> off \<and> 0 < n then Inl EOF else Inr (pad_to n (take n (drop off content))))"

text \<open>
  The outcome of the system calls, where the environment decides it: \<open>None\<close> is success. A failing write gets a
  number of bytes out first.
\<close>

record init_env =
  env_MkdirAll :: "error option"
  env_OpenExcl :: "error option"
  env_InitWrite :: "(nat \<times> error) option"
  env_Open :: "error option"
  env_Stat :: "error option"

record count_env =
  env_Flock :: "error option"
  env_Seek1 :: "error option"
  env_Read :: "error option"
  env_Seek2 :: "error option"
  env_Write :: "(nat \<times> error) option"

definition fine_init :: init_env where
  "fine_init = \<lparr>env_MkdirAll = None, env_OpenExcl = None, env_InitWrite = None, env_Open = None, env_Stat = None\<rparr>"

definition fine_count :: count_env where
  "fine_count = \<lparr>env_Flock = None, env_Seek1 = None, env_Read = None, env_Seek2 = None, env_Write = None\<rparr>"

section \<open>Operations\<close>

text \<open>The handle that is returned is the path.\<close>

definition InitCounterFile :: "init_env \<Rightarrow> string \<Rightarrow> filesystem \<Rightarrow> string res \<times> filesystem" where
  "InitCounterFile env path fs =
     (case env_MkdirAll env of
        Some err \<Rightarrow> (Inl (Wrap ''failed to create directory for counter file'' [] err), fs)
      | None \<Rightarrow>
          (let openErr = (case env_OpenExcl env of
                   Some err \<Rightarrow> Some err
                 | None \<Rightarrow> if fs path \<noteq> None then Some ErrExist else None)
           in case openErr of
                None \<Rightarrow>
                  (let fs = fs(path \<mapsto> []);
                       buf = replicate CounterSizeInBytes 0;
                       buf = put_at 0 (LittleEndian_PutUint64 0) buf
                   in case env_InitWrite env of
                        Some (n, writeErr) \<Rightarrow> (Inl writeErr, fs(path \<mapsto> file_write 0 (take n buf) []))
                      | None \<Rightarrow> (Inr path, fs(path \<mapsto> file_write 0 buf [])))
              | Some err \<Rightarrow>
                  if errors_Is err ErrExist then
                    (case env_Open env of
                       Some err \<Rightarrow> (Inl err, fs)
                     | None \<Rightarrow>
                         (let content = the (fs path) in
                          if env_Stat env = None \<and> length content \<ge> CounterSizeInBytes then (Inr path, fs)
                          else (Inr path, fs)))
                  else (Inl (Wrap ''failed to open counter file'' [] err), fs)))"

text \<open>
  \<open>Count\<close> on the open file's contents. Go returns the current count also with some errors; the second component
  of the result is that value.
\<close>

definition Count :: "count_env \<Rightarrow> byte list \<Rightarrow> (error option \<times> uint64) \<times> byte list" where
  "Count env content =
     (case env_Flock env of
        Some err \<Rightarrow> ((Some (Wrap ''failed to lock file'' [] err), 0), content)
      | None \<Rightarrow>
        (case env_Seek1 env of
           Some err \<Rightarrow> ((Some err, 0), content)
         | None \<Rightarrow>
           (case (case env_Read env of Some err \<Rightarrow> Inl err | None \<Rightarrow> file_read SeekStartOffset CounterSizeInBytes content) of
              Inl err \<Rightarrow> ((Some (Wrap ''failed reading counter bytes'' [] err), 0), content)
            | Inr buf \<Rightarrow>
                (let currentCount = LittleEndian_Uint64 buf;
                     nextCount = currentCount + 1;
                     buf = put_at 0 (LittleEndian_PutUint64 nextCount) buf
                 in case env_Seek2 env of
                      Some err \<Rightarrow> ((Some err, currentCount), content)
                    | None \<Rightarrow>
                        (case env_Write env of
                           Some (n, err) \<Rightarrow>
                             ((Some (Wrap ''failed writing counter bytes'' [] err), currentCount),
                              file_write SeekStartOffset (take n buf) content)
                         | None \<Rightarrow> ((None, currentCount), file_write SeekStartOffset buf content))))))"

section \<open>The file as a counter\<close>

text \<open>A counter file with the value \<open>v\<close>: its first eight bytes.\<close>

definition counter_file :: "uint64 \<Rightarrow> byte list \<Rightarrow> bool" where
  "counter_file v content \<longleftrightarrow> (\<exists>rest. content = LittleEndian_PutUint64 v @ rest)"

lemma counter_file_read:
  "counter_file v content \<Longrightarrow> file_read SeekStartOffset CounterSizeInBytes content = Inr (LittleEndian_PutUint64 v)"
  using length_Put(1) [of v]
  by (auto simp: counter_file_def file_read_def SeekStartOffset_def CounterSizeInBytes_def pad_to_def simp del: length_Put)

lemma counter_file_write:
  "counter_file v content \<Longrightarrow> counter_file w (file_write SeekStartOffset (LittleEndian_PutUint64 w) content)"
  by (auto simp: counter_file_def file_write_def SeekStartOffset_def)

lemma zero_buffer: "put_at 0 (LittleEndian_PutUint64 0) (replicate CounterSizeInBytes 0) = LittleEndian_PutUint64 0"
  by (simp add: put_at_def CounterSizeInBytes_def)

lemma put_over: "put_at 0 (LittleEndian_PutUint64 w) (LittleEndian_PutUint64 v) = LittleEndian_PutUint64 w"
  by (simp add: put_at_def)

lemma Count_fine:
  assumes "counter_file v content"
  shows "\<exists>content'. Count fine_count content = ((None, v), content') \<and> counter_file (v + 1) content'"
proof -
  have "LittleEndian_Uint64 (LittleEndian_PutUint64 v) = v"
    using LittleEndian_Uint64_Put [of v "[]"] by simp
  then have "Count fine_count content = ((None, v), file_write SeekStartOffset (LittleEndian_PutUint64 (v + 1)) content)"
    by (simp add: Count_def fine_count_def counter_file_read [OF assms] Let_def put_over)
  with counter_file_write [OF assms] show ?thesis by blast
qed

lemma InitCounterFile_new:
  assumes "fs path = None"
  shows "InitCounterFile fine_init path fs = (Inr path, fs(path \<mapsto> LittleEndian_PutUint64 0))"
  using assms by (simp add: InitCounterFile_def fine_init_def Let_def zero_buffer file_write_def)

lemma InitCounterFile_existing:
  assumes "fs path = Some content"
  shows "InitCounterFile fine_init path fs = (Inr path, fs)"
  using assms by (simp add: InitCounterFile_def fine_init_def Let_def)

section \<open>The interface to the sending loop\<close>

text \<open>
  A dispenser of consecutive numbers: a draw returns the number the state stands at and moves the state on
  by one.
\<close>

locale ticket_dispenser =
  fixes draw :: "'s \<Rightarrow> (error option \<times> uint64) \<times> 's"
    and at_value :: "uint64 \<Rightarrow> 's \<Rightarrow> bool"
  assumes draw_next: "at_value v s \<Longrightarrow> \<exists>s'. draw s = ((None, v), s') \<and> at_value (v + 1) s'"
begin

primrec draws :: "nat \<Rightarrow> 's \<Rightarrow> (error option \<times> uint64) list \<times> 's" where
  "draws 0 s = ([], s)"
| "draws (Suc n) s = (case draw s of (r, s) \<Rightarrow> (case draws n s of (rs, s) \<Rightarrow> (r # rs, s)))"

lemma draws_consecutive:
  "at_value v s \<Longrightarrow>
   fst (draws n s) = map (\<lambda>i. (None, v + of_nat i)) [0..<n] \<and> at_value (v + of_nat n) (snd (draws n s))"
proof (induction n arbitrary: v s)
  case (Suc n)
  from draw_next [OF Suc.prems] obtain s' where s': "draw s = ((None, v), s')" "at_value (v + 1) s'" by blast
  have "map (\<lambda>i. (None, v + of_nat i)) [0..<Suc n]
      = (None, v) # map (\<lambda>i. (None :: error option, (v + 1) + of_nat i)) [0..<n]"
    by (simp add: map_upt_Suc algebra_simps del: upt_Suc)
  with Suc.IH [OF s'(2)] s'(1) show ?case by (auto simp: algebra_simps split: prod.splits)
qed simp

end

interpretation counting: ticket_dispenser "Count fine_count" counter_file
  by unfold_locales (rule Count_fine)

text \<open>The first process that initialises a counter gets a file that counts from zero: the calls of \<open>Count\<close> on
  it return \<open>0, 1, 2, \<dots>\<close>, each once, modulo \<open>2 ^ 64\<close>.\<close>

lemma Count_from_zero:
  assumes "fs path = None"
  shows "\<exists>content. InitCounterFile fine_init path fs = (Inr path, fs(path \<mapsto> content)) \<and>
    (\<forall>n. fst (counting.draws n content) = map (\<lambda>i. (None, of_nat i)) [0..<n])"
proof (intro exI conjI allI)
  show "InitCounterFile fine_init path fs = (Inr path, fs(path \<mapsto> LittleEndian_PutUint64 0))"
    using assms by (rule InitCounterFile_new)
  show "fst (counting.draws n (LittleEndian_PutUint64 0)) = map (\<lambda>i. (None, of_nat i)) [0..<n]" for n
    using counting.draws_consecutive [of 0 "LittleEndian_PutUint64 0" n] by (simp add: counter_file_def)
qed

lemma Count_from_zero_witness:
  "\<exists>content. InitCounterFile fine_init ''c'' Map.empty = (Inr ''c'', Map.empty(''c'' \<mapsto> content)) \<and>
    fst (counting.draws 3 content) = [(None, 0), (None, 1), (None, 2)]"
proof -
  have "[0..<3] = [0, 1, 2 :: nat]" by code_simp
  with Count_from_zero [of Map.empty "''c''"] show ?thesis by fastforce
qed

text \<open>C38: initialising an existing counter file changes nothing: the counts go on where they were. So a file that has
  been transmitted once (its counter at or above its number of groups) is not transmitted again.\<close>

theorem InitCounterFile_keeps_counter:
  assumes "fs path = Some content" "counter_file v content"
  shows "InitCounterFile fine_init path fs = (Inr path, fs) \<and>
    (\<forall>n. fst (counting.draws n content) = map (\<lambda>i. (None, v + of_nat i)) [0..<n])"
  using InitCounterFile_existing [of fs path content] counting.draws_consecutive [OF assms(2)] assms(1) by blast

theorem InitCounterFile_keeps_counter_witness:
  "InitCounterFile fine_init ''c'' (Map.empty(''c'' \<mapsto> LittleEndian_PutUint64 42))
     = (Inr ''c'', Map.empty(''c'' \<mapsto> LittleEndian_PutUint64 42)) \<and>
   fst (counting.draws 2 (LittleEndian_PutUint64 42)) = [(None, 42), (None, 43)]"
proof -
  have "counter_file 42 (LittleEndian_PutUint64 42)" by (simp add: counter_file_def)
  moreover have "[0..<2] = [0, 1 :: nat]" by code_simp
  ultimately show ?thesis
    using InitCounterFile_keeps_counter [of "Map.empty(''c'' \<mapsto> LittleEndian_PutUint64 42)" "''c''"] by fastforce
qed

text \<open>C39: an empty counter file is never repaired. When the process that created the file dies before it has written
  the eight zero bytes, initialisation returns the empty file as it is (both branches of its size check do the same)
  and every \<open>Count\<close> fails and leaves it empty.\<close>

theorem empty_counter_file_stuck:
  assumes "fs path = Some []" "env_MkdirAll ienv = None" "env_OpenExcl ienv = None" "env_Open ienv = None"
  shows "InitCounterFile ienv path fs = (Inr path, fs) \<and>
    (\<exists>err v. Count cenv [] = ((Some err, v), []))"
  using assms
  by (auto simp: InitCounterFile_def Count_def file_read_def SeekStartOffset_def CounterSizeInBytes_def Let_def
      split: option.split)

theorem empty_counter_file_stuck_witness:
  "InitCounterFile fine_init ''c'' (Map.empty(''c'' \<mapsto> [])) = (Inr ''c'', Map.empty(''c'' \<mapsto> [])) \<and>
   (\<exists>err v. Count fine_count [] = ((Some err, v), []))"
  by (rule empty_counter_file_stuck) (simp_all add: fine_init_def)

text \<open>A call of \<open>Count\<close> that fails before the write leaves the counter as it was, so no count is skipped or handed
  out twice because of it; a success moves it on by one.\<close>

lemma Count_errors_keep_counter:
  assumes "counter_file v content" "Count env content = ((e, v'), content')" "env_Write env = None"
  shows "if e = None then v' = v \<and> counter_file (v + 1) content' else counter_file v content'"
proof -
  have "LittleEndian_Uint64 (LittleEndian_PutUint64 v) = v"
    using LittleEndian_Uint64_Put [of v "[]"] by simp
  then show ?thesis
    using assms counter_file_write [OF assms(1)]
    by (auto simp: Count_def counter_file_read [OF assms(1)] put_over Let_def split: option.splits)
qed

lemma Count_errors_keep_counter_witness:
  "\<exists>e v' content'. Count (fine_count\<lparr>env_Seek2 := Some (LibError ''bad'')\<rparr>) (LittleEndian_PutUint64 9) = ((e, v'), content') \<and>
     (if e = None then v' = 9 \<and> counter_file 10 content' else counter_file 9 content')"
proof -
  obtain e v' content' where c: "Count (fine_count\<lparr>env_Seek2 := Some (LibError ''bad'')\<rparr>) (LittleEndian_PutUint64 9)
      = ((e, v'), content')" by (metis surj_pair)
  have "counter_file 9 (LittleEndian_PutUint64 9)" by (simp add: counter_file_def)
  from Count_errors_keep_counter [OF this c] c show ?thesis by (auto simp: fine_count_def)
qed

end
