(* ===== verification/Reader.thy ===== *)
theory Reader
  imports Erasure
begin

text \<open>
  Reading the source file in blocks: \<open>senders/internal/reader/reader.go\<close>. The memory mapping itself is
  the external package \<open>golang.org/x/exp/mmap\<close>; a mapped file carries its \<open>ReadAt\<close> as a function, with
  the contract \<open>mapped_file\<close>. Lemmas: a chunk is the corresponding slice of the file, the chunks at
  the block offsets put the file together again, and the fingerprint hash (FNV-1a of package
  \<open>hash/fnv\<close>) separates fingerprints that differ in one byte.
\<close>

section \<open>Mapped files\<close>

text \<open>\<open>ReadAt n off\<close> gives the bytes read into a buffer of length \<open>n\<close> and the error, if any.\<close>

type_synonym ReaderAt = "nat \<Rightarrow> int \<Rightarrow> byte list \<times> error option"

record MappedFile =
  mf_reader :: ReaderAt
  mf_size :: int

definition OpenFile :: "(string \<Rightarrow> (ReaderAt \<times> int) res) \<Rightarrow> string \<Rightarrow> MappedFile res" where
  "OpenFile mmap_Open path =
     (case mmap_Open path of
        Inl err \<Rightarrow> Inl (Wrap ''failed to mmap file %s'' [S path] err)
      | Inr (r, len) \<Rightarrow> Inr \<lparr>mf_reader = r, mf_size = len\<rparr>)"

definition Size :: "MappedFile \<Rightarrow> int" where
  "Size mf = mf_size mf"

definition ReadChunk :: "MappedFile \<Rightarrow> int \<Rightarrow> byte list res" where
  "ReadChunk mf offset =
     (if offset \<ge> mf_size mf then Inl EOF
      else
        (let remaining = mf_size mf - offset;
             toRead = (if remaining < int senders_ChunkSize then remaining else int senders_ChunkSize)
         in case mf_reader mf (nat toRead) offset of
              (buf, None) \<Rightarrow> Inr buf
            | (buf, Some err) \<Rightarrow>
                if \<not> errors_Is err EOF then Inl (Wrap ''failed reading chunk at offset %d'' [D offset] err)
                else Inr buf))"

text \<open>\<open>Close\<close> is the mapping's.\<close>

definition MappedFile_Close :: "(ReaderAt \<Rightarrow> error option) \<Rightarrow> MappedFile \<Rightarrow> error option" where
  "MappedFile_Close reader_Close mf = reader_Close (mf_reader mf)"

section \<open>Fingerprints\<close>

text \<open>\<open>hash/fnv\<close>, 64-bit FNV-1a.\<close>

definition fnv64a_step :: "uint64 \<Rightarrow> byte \<Rightarrow> uint64" where
  "fnv64a_step h b = (h XOR ucast b) * 1099511628211"

definition fnv64a :: "byte list \<Rightarrow> uint64" where
  "fnv64a bs = foldl fnv64a_step 14695981039346656037 bs"

text \<open>What \<open>os.Stat\<close> tells about a file: base name, size and modification time in nanoseconds.\<close>

record FileInfo =
  info_Name :: string
  info_Size :: int
  info_ModTime :: int

definition GenerateFileHash :: "(string \<Rightarrow> FileInfo res) \<Rightarrow> string \<Rightarrow> uint64 res" where
  "GenerateFileHash os_Stat path =
     (case os_Stat path of
        Inl err \<Rightarrow> Inl (Wrap ''failed to get file stat for hash'' [] err)
      | Inr info \<Rightarrow>
          (let fingerprint = Sprintf ''%s:%d:%d'' [S (info_Name info), D (info_Size info), D (info_ModTime info)]
           in Inr (fnv64a (map of_char fingerprint))))"

section \<open>The contract of a memory mapping\<close>

text \<open>
  A mapped file over the bytes \<open>data\<close>: \<open>ReadAt\<close> delivers the requested range as far as it exists and
  reports \<open>EOF\<close> exactly when it delivers less than asked for.
\<close>

locale mapped_file =
  fixes mf :: MappedFile and data :: "byte list"
  assumes size_data: "mf_size mf = int (length data)"
    and read_at: "off \<le> length data \<Longrightarrow>
      mf_reader mf n (int off) = (take n (drop off data), if off + n \<le> length data then None else Some EOF)"
begin

lemma chunk:
  assumes "off < length data"
  shows "ReadChunk mf (int off) = Inr (take config_BlockSize (drop off data))"
proof -
  let ?n = "nat (if int (length data) - int off < int config_BlockSize then int (length data) - int off
    else int config_BlockSize)"
  have "take ?n (drop off data) = take config_BlockSize (drop off data)" "off + ?n \<le> length data"
    using assms by auto
  with assms show ?thesis
    by (simp add: ReadChunk_def size_data geometry read_at Let_def)
qed

lemma chunk_eof: "length data \<le> off \<Longrightarrow> ReadChunk mf (int off) = Inl EOF"
  by (simp add: ReadChunk_def size_data)

end

text \<open>A file held in memory meets the contract.\<close>

definition mem_file :: "byte list \<Rightarrow> MappedFile" where
  "mem_file bs = \<lparr>mf_reader = (\<lambda>n off. if off < 0 \<or> int (length bs) < off then ([], Some (LibError ''mmap: invalid ReadAt offset''))
      else (take n (drop (nat off) bs), if nat off + n \<le> length bs then None else Some EOF)),
    mf_size = int (length bs)\<rparr>"

interpretation mem: mapped_file "mem_file bs" bs for bs
  by unfold_locales (auto simp: mem_file_def)

section \<open>Blocks of a file\<close>

text \<open>Block \<open>i\<close> of the file, and the number of blocks.\<close>

definition file_block :: "byte list \<Rightarrow> nat \<Rightarrow> byte list" where
  "file_block bs i = take config_BlockSize (drop (i * config_BlockSize) bs)"

definition block_count :: "byte list \<Rightarrow> nat" where
  "block_count bs = (length bs + config_BlockSize - 1) div config_BlockSize"

lemma file_block_length: "length (file_block bs i) \<le> config_BlockSize"
  by (simp add: file_block_def)

lemma concat_blocks: "concat (map (file_block bs) [0..<n]) = take (n * config_BlockSize) bs"
proof (induction n)
  case 0
  then show ?case by simp
next
  case (Suc n)
  have "take (n * config_BlockSize + config_BlockSize) bs = take (n * config_BlockSize) bs @ file_block bs n"
    by (simp add: take_add file_block_def)
  with Suc show ?case by (simp add: add.commute)
qed

lemma block_count_iff: "i < block_count bs \<longleftrightarrow> i * config_BlockSize < length bs"
proof -
  have "i < block_count bs \<longleftrightarrow> Suc i * config_BlockSize \<le> length bs + config_BlockSize - 1"
    unfolding block_count_def less_eq_Suc_le by (rule less_eq_div_iff_mult_less_eq) simp
  also have "\<dots> \<longleftrightarrow> i * config_BlockSize < length bs"
  proof -
    have "0 < config_BlockSize" by simp
    then show ?thesis unfolding mult_Suc by linarith
  qed
  finally show ?thesis .
qed

lemma blocks_whole: "concat (map (file_block bs) [0..<block_count bs]) = bs"
proof -
  have "length bs \<le> block_count bs * config_BlockSize"
    using block_count_iff [of "block_count bs" bs] by linarith
  then show ?thesis by (simp add: concat_blocks)
qed

lemma full_block: "Suc i < block_count bs \<Longrightarrow> length (file_block bs i) = config_BlockSize"
  unfolding block_count_iff by (auto simp: file_block_def)

text \<open>C36: reading the chunks of a mapped file at the offsets \<open>0, BlockSize, 2 * BlockSize, \<dots>\<close> delivers every
  block, cuts the file without gap or overlap (the blocks concatenated are the file), and reports end
  of file exactly from the block count on.\<close>

theorem ReadChunk_partitions:
  assumes "mapped_file mf bs"
  shows "(\<forall>i<block_count bs. ReadChunk mf (int (i * senders_BlockSize)) = Inr (file_block bs i)) \<and>
    (\<forall>i\<ge>block_count bs. ReadChunk mf (int (i * senders_BlockSize)) = Inl EOF) \<and>
    concat (map (file_block bs) [0..<block_count bs]) = bs"
proof (intro conjI allI impI)
  fix i
  assume "i < block_count bs"
  then show "ReadChunk mf (int (i * senders_BlockSize)) = Inr (file_block bs i)"
    unfolding block_count_iff geometry file_block_def by (rule mapped_file.chunk [OF assms])
next
  fix i
  assume "i \<ge> block_count bs"
  then have "length bs \<le> i * config_BlockSize" using block_count_iff [of i bs] by simp
  then show "ReadChunk mf (int (i * senders_BlockSize)) = Inl EOF"
    unfolding geometry by (rule mapped_file.chunk_eof [OF assms])
qed (rule blocks_whole)

theorem ReadChunk_partitions_witness:
  "ReadChunk (mem_file [1, 2, 3]) (int (0 * senders_BlockSize)) = Inr (file_block [1, 2, 3] 0) \<and>
   ReadChunk (mem_file [1, 2, 3]) (int (1 * senders_BlockSize)) = Inl EOF"
proof -
  have "block_count [1, 2, 3] = 1" by (simp add: block_count_def config_values)
  with ReadChunk_partitions [OF mem.mapped_file_axioms, of "[1, 2, 3]"]
  have "\<forall>i<1. ReadChunk (mem_file [1, 2, 3]) (int (i * senders_BlockSize)) = Inr (file_block [1, 2, 3] i)"
    and "\<forall>i\<ge>1. ReadChunk (mem_file [1, 2, 3]) (int (i * senders_BlockSize)) = Inl EOF" by simp_all
  then show ?thesis by (metis less_one order_refl)
qed

section \<open>One-byte differences in a fingerprint\<close>

lemma fnv64a_step_inj: "fnv64a_step h b = fnv64a_step h' b' \<Longrightarrow> h XOR ucast b = h' XOR ucast b'"
proof -
  assume "fnv64a_step h b = fnv64a_step h' b'"
  then have "fnv64a_step h b * 14886173955864302971 = fnv64a_step h' b' * 14886173955864302971" by simp
  then have "(h XOR ucast b) * (1099511628211 * 14886173955864302971)
      = (h' XOR ucast b') * (1099511628211 * 14886173955864302971)"
    by (simp only: fnv64a_step_def mult.assoc)
  moreover have "(1099511628211 * 14886173955864302971 :: uint64) = 1" by simp
  ultimately show ?thesis by (simp only: mult_1_right)
qed

lemma fnv64a_fold_inj: "foldl fnv64a_step h bs = foldl fnv64a_step h' bs \<Longrightarrow> h = h'"
proof (induction bs arbitrary: h h')
  case (Cons b bs)
  then have "fnv64a_step h b = fnv64a_step h' b" by simp
  then have "h XOR ucast b = h' XOR ucast b" by (rule fnv64a_step_inj)
  then have "(h XOR ucast b) XOR ucast b = (h' XOR ucast b) XOR ucast b" by simp
  then show ?case by simp
qed simp

text \<open>The fingerprint hash of \<open>GenerateFileHash\<close> separates files: two files whose fingerprints (name, size
  and modification time as text) differ in exactly one byte get different hashes.\<close>

lemma GenerateFileHash_separates:
  assumes "os_Stat p1 = Inr i1" "os_Stat p2 = Inr i2"
    and "map of_char (Sprintf ''%s:%d:%d'' [S (info_Name i1), D (info_Size i1), D (info_ModTime i1)]) = pre @ (b1 :: byte) # suf"
    and "map of_char (Sprintf ''%s:%d:%d'' [S (info_Name i2), D (info_Size i2), D (info_ModTime i2)]) = pre @ b2 # suf"
    and "b1 \<noteq> b2"
  shows "\<exists>h1 h2. GenerateFileHash os_Stat p1 = Inr h1 \<and> GenerateFileHash os_Stat p2 = Inr h2 \<and> h1 \<noteq> h2"
proof -
  have "fnv64a (pre @ b1 # suf) \<noteq> fnv64a (pre @ b2 # suf)"
  proof
    assume "fnv64a (pre @ b1 # suf) = fnv64a (pre @ b2 # suf)"
    then have "(ucast b1 :: uint64) = ucast b2"
      by (auto simp: fnv64a_def dest!: fnv64a_fold_inj fnv64a_step_inj)
    then have "b1 = b2" by (auto simp: bit_eq_iff bit_simps)
    with assms(5) show False by simp
  qed
  with assms(1-4) show ?thesis by (simp add: GenerateFileHash_def)
qed

definition two_files :: "string \<Rightarrow> FileInfo res" where
  "two_files path = Inr \<lparr>info_Name = path, info_Size = 1, info_ModTime = 2\<rparr>"

lemma GenerateFileHash_separates_witness:
  "\<exists>h1 h2. GenerateFileHash two_files ''a'' = Inr h1 \<and> GenerateFileHash two_files ''b'' = Inr h2 \<and> h1 \<noteq> h2"
proof (rule GenerateFileHash_separates)
  show "two_files ''a'' = Inr \<lparr>info_Name = ''a'', info_Size = 1, info_ModTime = 2\<rparr>"
    "two_files ''b'' = Inr \<lparr>info_Name = ''b'', info_Size = 1, info_ModTime = 2\<rparr>"
    by (simp_all add: two_files_def)
  show "map of_char (Sprintf ''%s:%d:%d'' [S (info_Name \<lparr>info_Name = ''a'', info_Size = 1, info_ModTime = 2\<rparr>),
      D (info_Size \<lparr>info_Name = ''a'', info_Size = 1, info_ModTime = 2\<rparr>),
      D (info_ModTime \<lparr>info_Name = ''a'', info_Size = 1, info_ModTime = 2\<rparr>)]) = [] @ 97 # [58, 49, 58, 50 :: byte]"
    by code_simp
  show "map of_char (Sprintf ''%s:%d:%d'' [S (info_Name \<lparr>info_Name = ''b'', info_Size = 1, info_ModTime = 2\<rparr>),
      D (info_Size \<lparr>info_Name = ''b'', info_Size = 1, info_ModTime = 2\<rparr>),
      D (info_ModTime \<lparr>info_Name = ''b'', info_Size = 1, info_ModTime = 2\<rparr>)]) = [] @ 98 # [58, 49, 58, 50 :: byte]"
    by code_simp
  show "(97 :: byte) \<noteq> 98" by simp
qed

end
