(* ===== verification/Sender.thy ===== *)
theory Sender
  imports Counter Reader Packets Sender_Ipc
begin

text \<open>
  The sending loop, \<open>senders/cmd/sender/senders.go\<close>: per task, claim groups of \<open>BlocksJump\<close> blocks from the
  shared counter, read and encode the blocks of the group, and send their symbols interleaved. The results of
  the calls of \<open>Count\<close> are a list (the other senders change the counter in between; see
  \<open>Counter_Processes\<close> for what the counts of all processes are together); the loop's result is \<open>None\<close> while the list
  does not suffice. The UDP socket is a function from the number of a write to its error. The process around
  it (start, connections, task channel) is in theory \<open>Sender_Process\<close>.
\<close>

section \<open>Blocks of a group\<close>

record EncodedBlock =
  blockIdx :: uint32
  shards :: "byte list list"

definition totalBlocks_of :: "int \<Rightarrow> uint32" where
  "totalBlocks_of readerSize = of_int ((readerSize + int senders_BlockSize - 1) div int senders_BlockSize)"

definition startBlock_of :: "uint64 \<Rightarrow> uint32" where
  "startBlock_of count = ucast count * of_nat senders_BlocksJump"

definition endBlock_of :: "uint32 \<Rightarrow> uint32 \<Rightarrow> uint32" where
  "endBlock_of startBlock totalBlocks =
     (let endBlock = startBlock + of_nat senders_BlocksJump
      in if endBlock > totalBlocks then totalBlocks else endBlock)"

datatype sender_log =
    CounterError error
  | BlockReadError uint32 error
  | EncodeError uint32 error

lemma unat_next: "(i :: uint32) < j \<Longrightarrow> unat (i + 1) = Suc (unat i)"
  using unsigned_less [of j, where ?'a = nat] by (simp add: unat_word_ariths word_less_nat_alt)

text \<open>The inner loop: read and encode until the end of the group or the first error.\<close>

function encode_group ::
  "(int \<Rightarrow> int \<Rightarrow> Codec res) \<Rightarrow> MappedFile \<Rightarrow> uint32 \<Rightarrow> uint32 \<Rightarrow> EncodedBlock list \<times> sender_log list" where
  "encode_group rs_New reader idx endBlock =
     (if idx < endBlock then
        (let offset = uint idx * int senders_BlockSize
         in case ReadChunk reader offset of
              Inl err \<Rightarrow> ([], if errors_Is err EOF then [] else [BlockReadError idx err])
            | Inr data \<Rightarrow>
                (case senders_EncodeBlock rs_New data of
                   Inl err \<Rightarrow> ([], [EncodeError idx err])
                 | Inr contents \<Rightarrow>
                     (case encode_group rs_New reader (idx + 1) endBlock of
                        (bs, logs) \<Rightarrow> (\<lparr>blockIdx = idx, shards = contents\<rparr> # bs, logs))))
      else ([], []))"
  by pat_completeness auto
termination
  by (relation "measure (\<lambda>(_, _, idx, endBlock). unat endBlock - unat idx)")
    (auto simp: unat_next word_less_nat_alt)

declare encode_group.simps [simp del]

section \<open>Interleaved sending\<close>

datatype tx_event =
    Wrote "byte list"
  | WriteFailed "byte list" error
  | Slept int

type_synonym udp = "nat \<Rightarrow> error option"

text \<open>One symbol of one block; \<open>n\<close> counts the packets of the batch sent so far.\<close>

definition send_symbol ::
  "(Packet \<Rightarrow> byte list res) \<Rightarrow> udp \<Rightarrow> uint64 \<Rightarrow> uint32 \<Rightarrow> int \<Rightarrow> nat \<Rightarrow> EncodedBlock \<Rightarrow> nat \<Rightarrow> tx_event list \<times> nat" where
  "send_symbol marshal udp fileHash totalBlocks readerSize shardIndex b n =
     (if shardIndex \<ge> length (shards b) then ([], n)
      else
        (let content = shards b ! shardIndex;
             kSymbols = of_nat senders_DefaultDataShrads;
             nSymbols = of_nat (senders_DefaultDataShrads + senders_DefaultParityShards);
             crc = CalculateCRC fileHash (blockIdx b) totalBlocks (of_nat shardIndex) kSymbols nSymbols
                     (of_int readerSize) content
         in case FormatPacket marshal fileHash (blockIdx b) totalBlocks (of_nat shardIndex) kSymbols nSymbols
                   (of_int readerSize) content crc of
              Inl err \<Rightarrow> ([], n)
            | Inr serializedData \<Rightarrow>
                (let w = (case udp n of None \<Rightarrow> Wrote serializedData | Some err \<Rightarrow> WriteFailed serializedData err);
                     n = n + 1
                 in (w # (if n mod senders_PacingBatchThreshold = 0 then [Slept senders_PacingInterval] else []), n))))"

fun send_blocks ::
  "(Packet \<Rightarrow> byte list res) \<Rightarrow> udp \<Rightarrow> uint64 \<Rightarrow> uint32 \<Rightarrow> int \<Rightarrow> nat \<Rightarrow> EncodedBlock list \<Rightarrow> nat \<Rightarrow> tx_event list \<times> nat" where
  "send_blocks marshal udp fileHash totalBlocks readerSize shardIndex [] n = ([], n)"
| "send_blocks marshal udp fileHash totalBlocks readerSize shardIndex (b # bs) n =
     (case send_symbol marshal udp fileHash totalBlocks readerSize shardIndex b n of
        (ev, n) \<Rightarrow>
          (case send_blocks marshal udp fileHash totalBlocks readerSize shardIndex bs n of
             (evs, n) \<Rightarrow> (ev @ evs, n)))"

fun send_shards ::
  "(Packet \<Rightarrow> byte list res) \<Rightarrow> udp \<Rightarrow> uint64 \<Rightarrow> uint32 \<Rightarrow> int \<Rightarrow> nat list \<Rightarrow> EncodedBlock list \<Rightarrow> nat \<Rightarrow> tx_event list \<times> nat" where
  "send_shards marshal udp fileHash totalBlocks readerSize [] bs n = ([], n)"
| "send_shards marshal udp fileHash totalBlocks readerSize (i # is) bs n =
     (case send_blocks marshal udp fileHash totalBlocks readerSize i bs n of
        (ev, n) \<Rightarrow>
          (case send_shards marshal udp fileHash totalBlocks readerSize is bs n of
             (evs, n) \<Rightarrow> (ev @ evs, n)))"

definition send_group ::
  "(Packet \<Rightarrow> byte list res) \<Rightarrow> udp \<Rightarrow> uint64 \<Rightarrow> uint32 \<Rightarrow> int \<Rightarrow> EncodedBlock list \<Rightarrow> tx_event list" where
  "send_group marshal udp fileHash totalBlocks readerSize batchBlocks =
     (let totalShardsPerBlock = senders_DefaultDataShrads + senders_DefaultParityShards
      in fst (send_shards marshal udp fileHash totalBlocks readerSize [0..<totalShardsPerBlock] batchBlocks 0))"

section \<open>A task\<close>

record task_result =
  tr_groups :: "EncodedBlock list list"
  tr_events :: "tx_event list"
  tr_logs :: "sender_log list"

text \<open>The loop over the counts; each group has its own view of the socket.\<close>

fun claim_loop ::
  "(int \<Rightarrow> int \<Rightarrow> Codec res) \<Rightarrow> (Packet \<Rightarrow> byte list res) \<Rightarrow> (nat \<Rightarrow> udp) \<Rightarrow> uint64 \<Rightarrow> MappedFile \<Rightarrow>
   (error option \<times> uint64) list \<Rightarrow> task_result \<Rightarrow> task_result option" where
  "claim_loop rs_New marshal udp fileHash reader [] tr = None"
| "claim_loop rs_New marshal udp fileHash reader ((Some err, count) # counts) tr =
     Some (tr\<lparr>tr_logs := tr_logs tr @ [CounterError err]\<rparr>)"
| "claim_loop rs_New marshal udp fileHash reader ((None, count) # counts) tr =
     (let readerSize = Size reader;
          totalBlocks = totalBlocks_of readerSize;
          startBlock = startBlock_of count
      in if startBlock \<ge> totalBlocks then Some tr
         else
           (let endBlock = endBlock_of startBlock totalBlocks;
                (batchBlocks, logs) = encode_group rs_New reader startBlock endBlock;
                evs = send_group marshal (udp (length (tr_groups tr))) fileHash totalBlocks readerSize batchBlocks
            in claim_loop rs_New marshal udp fileHash reader counts
                 (tr\<lparr>tr_groups := tr_groups tr @ [batchBlocks], tr_events := tr_events tr @ evs,
                     tr_logs := tr_logs tr @ logs\<rparr>)))"

text \<open>\<open>filepath.Join\<close> of the counter directory and a name without separators.\<close>

definition counter_path :: "uint64 \<Rightarrow> string" where
  "counter_path fileHash =
     senders_CounterFilePath @ Sprintf senders_CounterFileTemplate [D (uint fileHash)]"

datatype task_outcome = Fatal error | Finished task_result | Waiting

definition run_task ::
  "init_env \<Rightarrow> (string \<Rightarrow> (ReaderAt \<times> int) res) \<Rightarrow> (int \<Rightarrow> int \<Rightarrow> Codec res) \<Rightarrow> (Packet \<Rightarrow> byte list res) \<Rightarrow>
   (nat \<Rightarrow> udp) \<Rightarrow> (error option \<times> uint64) list \<Rightarrow> string \<Rightarrow> uint64 \<Rightarrow> filesystem \<Rightarrow> task_outcome \<times> filesystem" where
  "run_task env mmap_Open rs_New marshal udp counts filePath fileHash fs =
     (case InitCounterFile env (counter_path fileHash) fs of
        (Inl err, fs) \<Rightarrow> (Fatal err, fs)
      | (Inr counterFile, fs) \<Rightarrow>
          (case OpenFile mmap_Open filePath of
             Inl err \<Rightarrow> (Fatal err, fs)
           | Inr reader \<Rightarrow>
               (case claim_loop rs_New marshal udp fileHash reader counts
                       \<lparr>tr_groups = [], tr_events = [], tr_logs = []\<rparr> of
                  None \<Rightarrow> (Waiting, fs)
                | Some tr \<Rightarrow> (Finished tr, fs))))"

text \<open>
  What \<open>getState\<close> answers after the task has got that far; a fatal error ends the process.
\<close>

definition currentState_after :: "task_outcome \<Rightarrow> SenderState option" where
  "currentState_after r = (case r of Fatal err \<Rightarrow> None | Waiting \<Rightarrow> Some WORKING | Finished tr \<Rightarrow> Some IDLE)"

section \<open>Which blocks a count stands for\<close>

text \<open>The blocks of group \<open>c\<close> in a file of \<open>tot\<close> blocks.\<close>

definition group_blocks :: "nat \<Rightarrow> nat \<Rightarrow> nat list" where
  "group_blocks tot c = [c * senders_BlocksJump..<min (c * senders_BlocksJump + senders_BlocksJump) tot]"

lemma groups_cover:
  "concat (map (group_blocks tot) [0..<n]) = [0..<min (n * senders_BlocksJump) tot]"
proof (induction n)
  case (Suc n)
  let ?J = senders_BlocksJump
  have "[0..<min (n * ?J) tot] @ group_blocks tot n = [0..<min (Suc n * ?J) tot]"
  proof (cases "n * ?J \<le> tot")
    case True
    then have "[0..<n * ?J] @ [n * ?J..<min (n * ?J + ?J) tot] = [0..<min (n * ?J + ?J) tot]"
      by (metis le_add1 min.bounded_iff upt_add_eq_append le0 le_iff_add)
    with True show ?thesis by (simp add: group_blocks_def min_absorb1 add.commute)
  next
    case False
    then show ?thesis by (simp add: group_blocks_def min_def)
  qed
  with Suc show ?case by simp
qed simp

lemma group_blocks_empty: "tot \<le> c * senders_BlocksJump \<Longrightarrow> group_blocks tot c = []"
  by (simp add: group_blocks_def min_def)

text \<open>The code's arithmetic, at its width: no wrap-around below \<open>2 ^ 29\<close> groups.\<close>

lemma BlocksJump_value: "senders_BlocksJump = 8"
  by (simp add: senders_BlocksJump_def)

lemma unat32: "n < 2 ^ 32 \<Longrightarrow> unat (of_nat n :: uint32) = n"
  by (simp add: unsigned_of_nat take_bit_nat_eq_self)

lemma uint32: "n < 2 ^ 32 \<Longrightarrow> uint (of_nat n :: uint32) = int n"
  by (subst uint_nat) (simp add: unat32)

lemma startBlock_of_nat:
  assumes "c < 2 ^ 29"
  shows "startBlock_of (of_nat c) = of_nat (c * senders_BlocksJump)"
proof -
  have "(ucast (of_nat c :: uint64) :: uint32) = of_nat c"
    by (rule word_unat_eq_iff [THEN iffD2]) (use assms in \<open>simp add: unat32 unsigned_ucast_eq unsigned_of_nat take_bit_nat_eq_self\<close>)
  then show ?thesis by (simp add: startBlock_of_def)
qed

lemma endBlock_of_nat:
  assumes "s < tot" "tot + senders_BlocksJump \<le> 2 ^ 32"
  shows "endBlock_of (of_nat s) (of_nat tot) = of_nat (min (s + senders_BlocksJump) tot)"
proof -
  from assms have "s + senders_BlocksJump < 2 ^ 32" "tot < 2 ^ 32" by (simp_all add: BlocksJump_value)
  then have "unat (of_nat (s + senders_BlocksJump) :: uint32) = s + senders_BlocksJump"
    "unat (of_nat tot :: uint32) = tot" by (blast intro: unat32)+
  then show ?thesis by (simp add: endBlock_of_def word_less_nat_alt min_def)
qed

lemma totalBlocks_of_file:
  assumes "mapped_file mf bs"
  shows "totalBlocks_of (Size mf) = of_nat (block_count bs)"
proof -
  have "(int (length bs) + int config_BlockSize - 1) div int config_BlockSize = int (block_count bs)"
    unfolding block_count_def by (simp add: of_nat_diff zdiv_int Suc_leI)
  then show ?thesis
    by (simp add: totalBlocks_of_def Size_def mapped_file.size_data [OF assms] geometry)
qed


section \<open>Encoding a group\<close>

text \<open>The encoded form of block \<open>i\<close> of a file.\<close>

definition encodes :: "(int \<Rightarrow> int \<Rightarrow> Codec res) \<Rightarrow> byte list \<Rightarrow> nat \<Rightarrow> EncodedBlock \<Rightarrow> bool" where
  "encodes rs_New bs i b \<longleftrightarrow> unat (blockIdx b) = i \<and> senders_EncodeBlock rs_New (file_block bs i) = Inr (shards b)"

definition encodable :: "(int \<Rightarrow> int \<Rightarrow> Codec res) \<Rightarrow> bool" where
  "encodable rs_New \<longleftrightarrow>
     (\<forall>block. length block \<le> config_BlockSize \<longrightarrow> (\<exists>cw. senders_EncodeBlock rs_New block = Inr cw))"

lemma encode_group_all:
  assumes "mapped_file mf bs" "encodable rs_New"
  shows "e < 2 ^ 32 \<Longrightarrow> e \<le> block_count bs \<Longrightarrow> s \<le> e \<Longrightarrow>
    \<exists>grp. encode_group rs_New mf (of_nat s) (of_nat e) = (grp, []) \<and> list_all2 (encodes rs_New bs) [s..<e] grp"
proof (induction "e - s" arbitrary: s)
  case 0
  then show ?case by (subst encode_group.simps) simp
next
  case (Suc d)
  then have lt: "s < e" by simp
  with Suc.prems have w: "(of_nat s :: uint32) < of_nat e" by (simp add: word_less_nat_alt unat32)
  from lt Suc.prems have s: "uint (of_nat s :: uint32) = int s" by (simp add: uint32)
  obtain cw where cw: "senders_EncodeBlock rs_New (file_block bs s) = Inr cw"
    using assms(2) file_block_length [of bs s] by (auto simp: encodable_def)
  have "s * config_BlockSize < length bs" using lt Suc.prems block_count_iff [of s bs] by simp
  then have rd: "ReadChunk mf (int s * int senders_BlockSize) = Inr (file_block bs s)"
    using mapped_file.chunk [OF assms(1)] by (simp add: file_block_def geometry flip: of_nat_mult)
  obtain grp where "encode_group rs_New mf (of_nat (Suc s)) (of_nat e) = (grp, [])"
      "list_all2 (encodes rs_New bs) [Suc s..<e] grp"
  proof -
    from Suc.hyps(2) have "d = e - Suc s" by simp
    from Suc.hyps(1) [OF this Suc.prems(1,2)] lt that show thesis by auto
  qed
  with lt w s cw rd Suc.prems show ?case
    by (subst encode_group.simps) (simp add: upt_conv_Cons encodes_def unat32 add.commute)
qed

section \<open>A process and its claims\<close>

text \<open>The groups of a task: what the process encoded for each count it claimed.\<close>

definition sent_groups :: "(int \<Rightarrow> int \<Rightarrow> Codec res) \<Rightarrow> byte list \<Rightarrow> nat list \<Rightarrow> EncodedBlock list list \<Rightarrow> bool" where
  "sent_groups rs_New bs cs grps \<longleftrightarrow>
     list_all2 (\<lambda>c grp. list_all2 (encodes rs_New bs) (group_blocks (block_count bs) c) grp) cs grps"

lemma encode_claimed_group:
  assumes "mapped_file mf bs" "encodable rs_New" "block_count bs + senders_BlocksJump \<le> 2 ^ 32"
    and "c * senders_BlocksJump < block_count bs"
  shows "\<exists>grp. encode_group rs_New mf (startBlock_of (of_nat c))
      (endBlock_of (startBlock_of (of_nat c)) (of_nat (block_count bs))) = (grp, []) \<and>
    list_all2 (encodes rs_New bs) (group_blocks (block_count bs) c) grp"
proof -
  have "c < 2 ^ 29" using assms(3,4) by (simp add: BlocksJump_value)
  then show ?thesis
    using encode_group_all [OF assms(1,2), of "min (c * senders_BlocksJump + senders_BlocksJump) (block_count bs)"
        "c * senders_BlocksJump"] assms(3,4)
    by (simp add: startBlock_of_nat endBlock_of_nat group_blocks_def BlocksJump_value del: of_nat_mult)
qed

lemma claim_continues:
  assumes "mapped_file mf bs" "block_count bs + senders_BlocksJump \<le> 2 ^ 32" "c < 2 ^ 29"
  shows "startBlock_of (of_nat c) \<ge> totalBlocks_of (Size mf) \<longleftrightarrow> block_count bs \<le> c * senders_BlocksJump"
proof -
  have "c * senders_BlocksJump < 2 ^ 32" "block_count bs < 2 ^ 32" using assms(2,3) by (simp_all add: BlocksJump_value)
  then show ?thesis
    unfolding startBlock_of_nat [OF assms(3)] totalBlocks_of_file [OF assms(1)] word_le_nat_alt
    by (simp only: unat32)
qed

lemma claim_loop_groups:
  assumes mapped: "mapped_file mf bs" and enc: "encodable rs_New"
    and size: "block_count bs + senders_BlocksJump \<le> 2 ^ 32"
  shows "\<forall>c\<in>set cs. c * senders_BlocksJump < block_count bs \<Longrightarrow> e < 2 ^ 29 \<Longrightarrow> block_count bs \<le> e * senders_BlocksJump \<Longrightarrow>
    \<exists>grps evs. claim_loop rs_New marshal udp fileHash mf (map (\<lambda>c. (None, of_nat c)) cs @ (None, of_nat e) # rest) tr
        = Some (tr\<lparr>tr_groups := tr_groups tr @ grps, tr_events := tr_events tr @ evs\<rparr>) \<and>
      sent_groups rs_New bs cs grps"
proof (induction cs arbitrary: tr)
  case Nil
  then show ?case using claim_continues [OF mapped size] by (auto simp: sent_groups_def Let_def intro!: exI [of _ "[]"])
next
  case (Cons c cs)
  from Cons.prems have c: "c * senders_BlocksJump < block_count bs" by simp
  with size have "c < 2 ^ 29" by (simp add: BlocksJump_value)
  with c have go: "\<not> startBlock_of (of_nat c) \<ge> totalBlocks_of (Size mf)"
    using claim_continues [OF mapped size] by simp
  obtain grp where grp: "encode_group rs_New mf (startBlock_of (of_nat c))
      (endBlock_of (startBlock_of (of_nat c)) (totalBlocks_of (Size mf))) = (grp, [])"
    "list_all2 (encodes rs_New bs) (group_blocks (block_count bs) c) grp"
    using encode_claimed_group [OF mapped enc size c] totalBlocks_of_file [OF mapped] by auto
  define ev where "ev = send_group marshal (udp (length (tr_groups tr))) fileHash (totalBlocks_of (Size mf)) (Size mf) grp"
  from Cons.IH [of "tr\<lparr>tr_groups := tr_groups tr @ [grp], tr_events := tr_events tr @ ev\<rparr>"] Cons.prems
  obtain grps evs where "claim_loop rs_New marshal udp fileHash mf (map (\<lambda>c. (None, of_nat c)) cs @ (None, of_nat e) # rest)
      (tr\<lparr>tr_groups := tr_groups tr @ [grp], tr_events := tr_events tr @ ev\<rparr>)
    = Some (tr\<lparr>tr_groups := tr_groups tr @ grp # grps, tr_events := tr_events tr @ ev @ evs\<rparr>)"
    "sent_groups rs_New bs cs grps" by auto
  with go grp show ?case
    by (intro exI [of _ "grp # grps"] exI [of _ "ev @ evs"]) (simp add: sent_groups_def Let_def flip: ev_def)
qed

section \<open>The order of the symbols\<close>

text \<open>What is handed to the socket, whether the write succeeds or not, and the pauses.\<close>

fun attempt_of :: "tx_event \<Rightarrow> byte list list" where
  "attempt_of (Wrote bs) = [bs]"
| "attempt_of (WriteFailed bs err) = [bs]"
| "attempt_of (Slept d) = []"

definition attempted :: "tx_event list \<Rightarrow> byte list list" where
  "attempted evs = concat (map attempt_of evs)"

fun pauses_of :: "tx_event \<Rightarrow> nat" where
  "pauses_of (Slept d) = 1"
| "pauses_of (Wrote bs) = 0"
| "pauses_of (WriteFailed bs err) = 0"

definition pauses :: "tx_event list \<Rightarrow> nat" where
  "pauses evs = sum_list (map pauses_of evs)"

lemma attempted_simps [simp]:
  "attempted [] = []" "attempted (e # evs) = attempt_of e @ attempted evs"
  "attempted (evs @ evs') = attempted evs @ attempted evs'"
  "pauses [] = 0" "pauses (e # evs) = pauses_of e + pauses evs" "pauses (evs @ evs') = pauses evs + pauses evs'"
  by (simp_all add: attempted_def pauses_def)

definition format_symbol ::
  "(Packet \<Rightarrow> byte list res) \<Rightarrow> uint64 \<Rightarrow> uint32 \<Rightarrow> int \<Rightarrow> nat \<Rightarrow> EncodedBlock \<Rightarrow> byte list res" where
  "format_symbol marshal fileHash totalBlocks readerSize i b =
     (let k = of_nat senders_DefaultDataShrads;
          n = of_nat (senders_DefaultDataShrads + senders_DefaultParityShards)
      in FormatPacket marshal fileHash (blockIdx b) totalBlocks (of_nat i) k n (of_int readerSize) (shards b ! i)
           (CalculateCRC fileHash (blockIdx b) totalBlocks (of_nat i) k n (of_int readerSize) (shards b ! i)))"

lemma send_symbol_events:
  assumes "i < length (shards b)" "format_symbol marshal fh tb sz i b = Inr ser"
    and "send_symbol marshal udp fh tb sz i b n = (evs, n')"
  shows "attempted evs = [ser] \<and> n' = n + 1 \<and> pauses evs = (n + 1) div 16 - n div 16"
proof -
  have "Suc n div 16 - n div 16 = (if Suc n mod 16 = 0 then 1 else 0)"
    by (simp add: div_Suc mod_Suc)
  then show ?thesis
    using assms
    by (auto simp: send_symbol_def format_symbol_def Let_def senders_PacingBatchThreshold_def split: option.splits)
qed

lemma div_steps: "(n + a + b) div k - n div k = ((n + a) div k - n div k) + ((n + a + b) div k - (n + a) div (k :: nat))"
  by (simp add: div_le_mono)

lemma send_blocks_events:
  "\<forall>b\<in>set bs. i < length (shards b) \<and> format_symbol marshal fh tb sz i b = Inr (ser b) \<Longrightarrow>
   send_blocks marshal udp fh tb sz i bs n = (evs, n') \<Longrightarrow>
   attempted evs = map ser bs \<and> n' = n + length bs \<and> pauses evs = (n + length bs) div 16 - n div 16"
proof (induction bs arbitrary: n evs)
  case (Cons b bs)
  obtain ev n1 evs1 where 1: "send_symbol marshal udp fh tb sz i b n = (ev, n1)"
      "send_blocks marshal udp fh tb sz i bs n1 = (evs1, n')" "evs = ev @ evs1"
    using Cons.prems(2) by (auto split: prod.splits)
  have "attempted ev = [ser b] \<and> n1 = n + 1 \<and> pauses ev = (n + 1) div 16 - n div 16"
    using Cons.prems(1) by (intro send_symbol_events [OF _ _ 1(1)]) auto
  moreover have "attempted evs1 = map ser bs \<and> n' = n1 + length bs \<and> pauses evs1 = (n1 + length bs) div 16 - n1 div 16"
    using Cons.prems(1) by (intro Cons.IH [OF _ 1(2)]) auto
  ultimately show ?case using 1(3) div_steps [of n 1 "length bs" 16] by simp
qed simp

lemma send_shards_events:
  "\<forall>i\<in>set is. \<forall>b\<in>set bs. i < length (shards b) \<and> format_symbol marshal fh tb sz i b = Inr (ser i b) \<Longrightarrow>
   send_shards marshal udp fh tb sz is bs n = (evs, n') \<Longrightarrow>
   attempted evs = concat (map (\<lambda>i. map (ser i) bs) is) \<and> n' = n + length is * length bs \<and>
   pauses evs = (n + length is * length bs) div 16 - n div 16"
proof (induction "is" arbitrary: n evs)
  case (Cons i "is")
  obtain ev n1 evs1 where 1: "send_blocks marshal udp fh tb sz i bs n = (ev, n1)"
      "send_shards marshal udp fh tb sz is bs n1 = (evs1, n')" "evs = ev @ evs1"
    using Cons.prems(2) by (auto split: prod.splits)
  have "attempted ev = map (ser i) bs \<and> n1 = n + length bs \<and> pauses ev = (n + length bs) div 16 - n div 16"
    using Cons.prems(1) by (intro send_blocks_events [OF _ 1(1)]) auto
  moreover have "attempted evs1 = concat (map (\<lambda>i. map (ser i) bs) is) \<and> n' = n1 + length is * length bs \<and>
      pauses evs1 = (n1 + length is * length bs) div 16 - n1 div 16"
    using Cons.prems(1) by (intro Cons.IH [OF _ 1(2)]) auto
  ultimately show ?case using 1(3) div_steps [of n "length bs" "length is * length bs" 16] by (simp add: add.assoc)
qed simp


text \<open>The witness: two blocks; the first four packets are symbol 0 of both, then symbol 1 of both.\<close>

definition demo_block :: "uint32 \<Rightarrow> EncodedBlock" where
  "demo_block i = \<lparr>blockIdx = i, shards = replicate 150 [0]\<rparr>"

definition tag_marshal :: "Packet \<Rightarrow> byte list res" where
  "tag_marshal p = Inr [ucast (SymbolId p), ucast (BlockId p)]"


end
