(* ===== verification/Counter_Processes.thy ===== *)
theory Counter_Processes
  imports Counter
begin

text \<open>
  Several sender processes on one counter file, at the level of system calls. Every process runs
  \<open>InitCounterFile\<close> and then calls \<open>Count\<close> again and again; between any two system calls of one process the others
  may run, an I/O error may end a call, and a process may die, which closes its files and releases its locks.
  Advisory locks (\<open>flock\<close>) are exclusive (\<open>LOCK_EX\<close>) or shared (\<open>LOCK_SH\<close>).
\<close>

section \<open>Processes\<close>

text \<open>Where a process is: the system call it has completed last.\<close>

datatype pc =
    Starting
  | Created
  | CreatorLocked
  | CreatorWrote
  | Opened
  | SharedLocked
  | Ready
  | CountLocked
  | CountRead uint64
  | CountWrote uint64
  | CountFailed
  | Dead

record counter_sys =
  content :: "byte list option"
  ex_lock :: "nat option"
  sh_locks :: "nat set"
  pcs :: "nat \<Rightarrow> pc"
  claims :: "(nat \<times> uint64) list"

definition sys_start :: counter_sys where
  "sys_start = \<lparr>content = None, ex_lock = None, sh_locks = {}, pcs = (\<lambda>p. Starting), claims = []\<rparr>"

definition goto :: "nat \<Rightarrow> pc \<Rightarrow> counter_sys \<Rightarrow> counter_sys" where
  "goto p x s = s\<lparr>pcs := (pcs s)(p := x)\<rparr>"

text \<open>\<open>claims\<close> records which process has taken which count, at the moment of the write.\<close>

inductive cstep :: "counter_sys \<Rightarrow> counter_sys \<Rightarrow> bool" where
  create: "pcs s p = Starting \<Longrightarrow> content s = None \<Longrightarrow> cstep s (goto p Created (s\<lparr>content := Some []\<rparr>))"
| exists: "pcs s p = Starting \<Longrightarrow> content s \<noteq> None \<Longrightarrow> cstep s (goto p Opened s)"
| creator_lock: "pcs s p = Created \<Longrightarrow> ex_lock s = None \<Longrightarrow> sh_locks s = {} \<Longrightarrow>
    cstep s (goto p CreatorLocked (s\<lparr>ex_lock := Some p\<rparr>))"
| creator_write: "pcs s p = CreatorLocked \<Longrightarrow> content s = Some c \<Longrightarrow>
    cstep s (goto p CreatorWrote (s\<lparr>content := Some (file_write 0 (LittleEndian_PutUint64 0) c)\<rparr>))"
| creator_unlock: "pcs s p = CreatorWrote \<Longrightarrow> cstep s (goto p Ready (s\<lparr>ex_lock := None\<rparr>))"
| shared_lock: "pcs s p = Opened \<Longrightarrow> ex_lock s = None \<Longrightarrow>
    cstep s (goto p SharedLocked (s\<lparr>sh_locks := insert p (sh_locks s)\<rparr>))"
| shared_unlock: "pcs s p = SharedLocked \<Longrightarrow> cstep s (goto p Ready (s\<lparr>sh_locks := sh_locks s - {p}\<rparr>))"
| count_lock: "pcs s p = Ready \<Longrightarrow> ex_lock s = None \<Longrightarrow> sh_locks s = {} \<Longrightarrow>
    cstep s (goto p CountLocked (s\<lparr>ex_lock := Some p\<rparr>))"
| count_read: "pcs s p = CountLocked \<Longrightarrow> content s = Some c \<Longrightarrow>
    file_read SeekStartOffset CounterSizeInBytes c = Inr buf \<Longrightarrow>
    cstep s (goto p (CountRead (LittleEndian_Uint64 buf)) s)"
| count_eof: "pcs s p = CountLocked \<Longrightarrow> content s = Some c \<Longrightarrow>
    file_read SeekStartOffset CounterSizeInBytes c = Inl err \<Longrightarrow> cstep s (goto p CountFailed s)"
| count_write: "pcs s p = CountRead v \<Longrightarrow> content s = Some c \<Longrightarrow>
    cstep s (goto p (CountWrote v)
      (s\<lparr>content := Some (file_write SeekStartOffset (LittleEndian_PutUint64 (v + 1)) c), claims := claims s @ [(p, v)]\<rparr>))"
| count_fail: "pcs s p = CountLocked \<or> pcs s p = CountRead v \<Longrightarrow> cstep s (goto p CountFailed s)"
| count_return: "pcs s p = CountWrote v \<or> pcs s p = CountFailed \<Longrightarrow> cstep s (goto p Ready (s\<lparr>ex_lock := None\<rparr>))"
| die: "pcs s p \<noteq> Dead \<Longrightarrow>
    cstep s (goto p Dead (s\<lparr>ex_lock := (if ex_lock s = Some p then None else ex_lock s), sh_locks := sh_locks s - {p}\<rparr>))"

inductive creachable :: "counter_sys \<Rightarrow> bool" where
  start: "creachable sys_start"
| step: "creachable s \<Longrightarrow> cstep s s' \<Longrightarrow> creachable s'"

section \<open>The invariant\<close>

definition holds_lock :: "pc \<Rightarrow> bool" where
  "holds_lock x = (case x of CreatorLocked \<Rightarrow> True | CreatorWrote \<Rightarrow> True | CountLocked \<Rightarrow> True | CountRead v \<Rightarrow> True
     | CountWrote v \<Rightarrow> True | CountFailed \<Rightarrow> True | _ \<Rightarrow> False)"

text \<open>What the file holds: nothing before the creator's write, then the number of claims made.\<close>

definition file_inv :: "counter_sys \<Rightarrow> bool" where
  "file_inv s \<longleftrightarrow>
     (case content s of
        None \<Rightarrow> claims s = []
      | Some c \<Rightarrow> (c = [] \<and> claims s = []) \<or> c = LittleEndian_PutUint64 (of_nat (length (claims s))))"

definition pc_inv :: "counter_sys \<Rightarrow> nat \<Rightarrow> bool" where
  "pc_inv s p \<longleftrightarrow>
     (holds_lock (pcs s p) \<longrightarrow> ex_lock s = Some p) \<and>
     (pcs s p = Created \<or> pcs s p = CreatorLocked \<longrightarrow> content s = Some [] \<and>
        (\<forall>q. pcs s q = Created \<or> pcs s q = CreatorLocked \<longrightarrow> q = p)) \<and>
     (\<forall>v. pcs s p = CountRead v \<longrightarrow> v = of_nat (length (claims s)) \<and> content s = Some (LittleEndian_PutUint64 v)) \<and>
     (pcs s p \<noteq> Starting \<and> pcs s p \<noteq> Dead \<longrightarrow> content s \<noteq> None)"

definition counter_inv :: "counter_sys \<Rightarrow> bool" where
  "counter_inv s \<longleftrightarrow> file_inv s \<and> (\<forall>p. pc_inv s p) \<and>
     map snd (claims s) = map of_nat [0..<length (claims s)]"

lemma counter_inv_start: "counter_inv sys_start"
  by (simp add: counter_inv_def file_inv_def pc_inv_def sys_start_def holds_lock_def)

lemma Put_nonempty [simp]: "LittleEndian_PutUint64 v \<noteq> []" "[] \<noteq> LittleEndian_PutUint64 v"
  by (metis length_Put(1) list.size(3) zero_neq_numeral)+

lemma write_over_counter:
  "file_write SeekStartOffset (LittleEndian_PutUint64 w) (LittleEndian_PutUint64 v) = LittleEndian_PutUint64 w"
  "file_write 0 (LittleEndian_PutUint64 w) [] = LittleEndian_PutUint64 w"
  by (simp_all add: file_write_def SeekStartOffset_def)

lemma read_counter:
  "file_read SeekStartOffset CounterSizeInBytes (LittleEndian_PutUint64 v) = Inr (LittleEndian_PutUint64 v)"
  "file_read SeekStartOffset CounterSizeInBytes [] = Inl EOF"
  using counter_file_read [of v "LittleEndian_PutUint64 v"]
  by (simp_all add: counter_file_def file_read_def CounterSizeInBytes_def)

lemma Uint64_Put: "LittleEndian_Uint64 (LittleEndian_PutUint64 v) = v"
  using LittleEndian_Uint64_Put [of v "[]"] by simp

text \<open>Steps that change neither file nor claims keep the invariant if they keep it for their own process.\<close>

lemmas counter_inv_defs = counter_inv_def file_inv_def pc_inv_def goto_def

lemma lock_exclusive: "counter_inv s \<Longrightarrow> holds_lock (pcs s p) \<Longrightarrow> holds_lock (pcs s q) \<Longrightarrow> p = q"
  unfolding counter_inv_def pc_inv_def by (metis option.inject)

lemma of_nat_inverse_uint64: "i < 2 ^ 64 \<Longrightarrow> unat (of_nat i :: uint64) = i"
  by (simp add: unsigned_of_nat take_bit_nat_eq_self)

lemma holds_lock_simps [simp]:
  "holds_lock CreatorLocked" "holds_lock CreatorWrote" "holds_lock CountLocked" "holds_lock (CountRead v)"
  "holds_lock (CountWrote v)" "holds_lock CountFailed"
  "\<not> holds_lock Starting" "\<not> holds_lock Created" "\<not> holds_lock Opened" "\<not> holds_lock SharedLocked"
  "\<not> holds_lock Ready" "\<not> holds_lock Dead"
  by (simp_all add: holds_lock_def)

text \<open>Steps of a process that change neither the file nor the claims.\<close>

lemma counter_inv_frame:
  assumes "counter_inv s" "content s' = content s" "claims s' = claims s"
    and others: "\<And>q. q \<noteq> p \<Longrightarrow> pcs s' q = pcs s q"
    and "\<And>q. q \<noteq> p \<Longrightarrow> holds_lock (pcs s q) \<Longrightarrow> ex_lock s' = Some q"
    and "pcs s' p = Created \<or> pcs s' p = CreatorLocked \<Longrightarrow> pcs s p = Created \<or> pcs s p = CreatorLocked"
    and "pc_inv s' p"
  shows "counter_inv s'"
proof -
  have "pc_inv s' q" for q
  proof (cases "q = p")
    case False
    have "pc_inv s q" using assms(1) by (simp add: counter_inv_def)
    moreover have "pcs s' r = Created \<or> pcs s' r = CreatorLocked \<Longrightarrow> pcs s r = Created \<or> pcs s r = CreatorLocked" for r
      using others assms(6) by (cases "r = p") auto
    ultimately show ?thesis
      using assms(5) [OF False] by (simp add: pc_inv_def assms(2,3) others [OF False]) blast
  qed (use assms(7) in simp)
  moreover have "file_inv s'" using assms(1-3) unfolding counter_inv_def file_inv_def by metis
  ultimately show ?thesis using assms(1,3) by (simp add: counter_inv_def)
qed

text \<open>Steps to a program counter with no obligation but the lock.\<close>

lemma counter_inv_quiet:
  assumes "counter_inv s" "content s' = content s" "claims s' = claims s" "pcs s' = (pcs s)(p := x)"
    and "x \<noteq> Created" "x \<noteq> CreatorLocked" "\<And>v. x \<noteq> CountRead v"
    and "content s \<noteq> None \<or> x = Dead"
    and "holds_lock x \<Longrightarrow> ex_lock s' = Some p"
    and "\<And>q. q \<noteq> p \<Longrightarrow> holds_lock (pcs s q) \<Longrightarrow> ex_lock s' = Some q"
  shows "counter_inv s'"
  using assms(2-) by (intro counter_inv_frame [OF assms(1), where p = p]) (auto simp: pc_inv_def)

lemma counter_inv_pc: "counter_inv s \<Longrightarrow> pc_inv s p"
  by (simp add: counter_inv_def)

lemma counter_inv_lock:
  assumes "counter_inv s"
  shows "holds_lock (pcs s q) \<Longrightarrow> ex_lock s = Some q"
    and "ex_lock s = None \<Longrightarrow> \<not> holds_lock (pcs s q)"
    and "pcs s q \<noteq> Starting \<Longrightarrow> pcs s q \<noteq> Dead \<Longrightarrow> content s \<noteq> None"
  using counter_inv_pc [OF assms, of q] by (auto simp: pc_inv_def)

lemma counter_inv_create:
  assumes "counter_inv s" "pcs s p = Starting" "content s = None"
  shows "counter_inv (goto p Created (s\<lparr>content := Some []\<rparr>))"
proof -
  have "claims s = []" using assms by (simp add: counter_inv_def file_inv_def)
  moreover have "pcs s q = Starting \<or> pcs s q = Dead" for q
    using counter_inv_lock(3) [OF assms(1), of q] assms(3) by blast
  then have "pcs s q \<noteq> Created" "pcs s q \<noteq> CreatorLocked" "\<not> holds_lock (pcs s q)" "pcs s q \<noteq> CountRead v" for q v
    by (metis pc.distinct holds_lock_simps)+
  ultimately show ?thesis by (auto simp: counter_inv_def file_inv_def pc_inv_def goto_def)
qed

lemma counter_inv_creator_lock:
  assumes "counter_inv s" "pcs s p = Created" "ex_lock s = None"
  shows "counter_inv (goto p CreatorLocked (s\<lparr>ex_lock := Some p\<rparr>))"
proof -
  let ?s' = "goto p CreatorLocked (s\<lparr>ex_lock := Some p\<rparr>)"
  note free = counter_inv_lock(2) [OF assms(1,3)]
  from counter_inv_pc [OF assms(1), of p] assms(2) have "content s = Some []" "pcs s q = Created \<Longrightarrow> q = p" for q
    by (simp_all add: pc_inv_def)
  moreover from free have "pcs s q \<noteq> CreatorLocked" for q by (metis holds_lock_simps(1))
  ultimately have "pc_inv ?s' p" unfolding pc_inv_def by (simp add: goto_def)
  with assms free show ?thesis
    by (intro counter_inv_frame [OF assms(1), where p = p]) (simp_all add: goto_def)
qed

lemma counter_inv_creator_write:
  assumes "counter_inv s" "pcs s p = CreatorLocked" "content s = Some c"
  shows "counter_inv (goto p CreatorWrote (s\<lparr>content := Some (file_write 0 (LittleEndian_PutUint64 0) c)\<rparr>))"
proof -
  have "c = []" "claims s = []" and own: "\<forall>q. holds_lock (pcs s q) \<longrightarrow> q = p"
    "\<forall>q. pcs s q = Created \<or> pcs s q = CreatorLocked \<longrightarrow> q = p"
    using assms lock_exclusive [OF assms(1), of p]
    by (auto simp: counter_inv_def file_inv_def pc_inv_def)
  with assms show ?thesis
    by (auto simp: counter_inv_defs write_over_counter holds_lock_def split: pc.splits)
qed

lemma counter_inv_count_read:
  assumes "counter_inv s" "pcs s p = CountLocked" "content s = Some c"
    and "file_read SeekStartOffset CounterSizeInBytes c = Inr buf"
  shows "counter_inv (goto p (CountRead (LittleEndian_Uint64 buf)) s)"
proof -
  have "content s = Some (LittleEndian_PutUint64 (of_nat (length (claims s))))"
    using assms by (auto simp: counter_inv_def file_inv_def read_counter)
  with assms counter_inv_lock(1) [OF assms(1)] show ?thesis
    by (intro counter_inv_frame [OF assms(1), where p = p])
      (auto simp: pc_inv_def goto_def read_counter Uint64_Put)
qed

lemma counter_inv_count_write:
  assumes "counter_inv s" "pcs s p = CountRead v" "content s = Some c"
  shows "counter_inv (goto p (CountWrote v)
      (s\<lparr>content := Some (file_write SeekStartOffset (LittleEndian_PutUint64 (v + 1)) c), claims := claims s @ [(p, v)]\<rparr>))"
    (is "counter_inv ?s'")
proof -
  have v: "v = of_nat (length (claims s))" and c: "c = LittleEndian_PutUint64 v"
    using counter_inv_pc [OF assms(1), of p] assms(2,3) by (simp_all add: pc_inv_def)
  have "file_inv ?s'" by (auto simp: file_inv_def goto_def write_over_counter v c add.commute)
  moreover have "pc_inv ?s' q" for q
  proof (cases "q = p")
    case True
    with counter_inv_lock(1) [OF assms(1), of p] assms(2) show ?thesis by (auto simp: pc_inv_def goto_def)
  next
    case False
    with lock_exclusive [OF assms(1), of p q] assms(2) have free: "\<not> holds_lock (pcs s q)" by auto
    have "pcs s q \<noteq> Created" using counter_inv_pc [OF assms(1), of q] assms(3) c by (auto simp: pc_inv_def)
    with False free show ?thesis by (auto simp: pc_inv_def goto_def holds_lock_def)
  qed
  moreover have "map snd (claims ?s') = map of_nat [0..<length (claims ?s')]"
    using assms(1) v by (simp add: counter_inv_def goto_def)
  ultimately show ?thesis by (simp add: counter_inv_def)
qed

lemma counter_inv_step:
  assumes "cstep s s'" "counter_inv s"
  shows "counter_inv s'"
proof -
  note lock = counter_inv_lock [OF assms(2)]
  note lock_other = counter_inv_lock(1) [OF assms(2)]
  from assms(1) show ?thesis
  proof cases
    case (create p)
    then show ?thesis using counter_inv_create [OF assms(2)] by simp
  next
    case (creator_lock p)
    then show ?thesis using counter_inv_creator_lock [OF assms(2)] by simp
  next
    case (creator_write p c)
    then show ?thesis using counter_inv_creator_write [OF assms(2)] by simp
  next
    case (count_read p c buf)
    then show ?thesis using counter_inv_count_read [OF assms(2)] by simp
  next
    case (count_write p v c)
    then show ?thesis using counter_inv_count_write [OF assms(2)] by simp
  next
    case (creator_unlock p)
    moreover from this have "q \<noteq> p \<Longrightarrow> \<not> holds_lock (pcs s q)" for q using lock_exclusive [OF assms(2), of p q] by auto
    ultimately show ?thesis using counter_inv_lock(3) [OF assms(2), of p]
      by (intro counter_inv_quiet [OF assms(2), where p = p and x = Ready]) (simp_all add: goto_def)
  next
    case (count_return p v)
    moreover from this have "q \<noteq> p \<Longrightarrow> \<not> holds_lock (pcs s q)" for q using lock_exclusive [OF assms(2), of p q] by auto
    ultimately show ?thesis using counter_inv_lock(3) [OF assms(2), of p]
      by (intro counter_inv_quiet [OF assms(2), where p = p and x = Ready]) (auto simp: goto_def)
  next
    case (exists p)
    then show ?thesis using lock [of p] lock_other
      by (intro counter_inv_quiet [OF assms(2), where p = p and x = Opened]) (auto simp: goto_def)
  next
    case (shared_lock p)
    then show ?thesis using lock [of p] lock_other
      by (intro counter_inv_quiet [OF assms(2), where p = p and x = SharedLocked]) (auto simp: goto_def)
  next
    case (shared_unlock p)
    then show ?thesis using lock [of p] lock_other
      by (intro counter_inv_quiet [OF assms(2), where p = p and x = Ready]) (auto simp: goto_def)
  next
    case (count_lock p)
    then show ?thesis using lock [of p] lock_other
      by (intro counter_inv_quiet [OF assms(2), where p = p and x = CountLocked]) (auto simp: goto_def)
  next
    case (count_eof p c err)
    then show ?thesis using lock [of p] lock_other
      by (intro counter_inv_quiet [OF assms(2), where p = p and x = CountFailed]) (auto simp: goto_def)
  next
    case (count_fail p v)
    then show ?thesis using lock [of p] lock_other
      by (intro counter_inv_quiet [OF assms(2), where p = p and x = CountFailed]) (auto simp: goto_def)
  next
    case (die p)
    then show ?thesis using lock [of p] lock_other
      by (intro counter_inv_quiet [OF assms(2), where p = p and x = Dead]) (auto simp: goto_def)
  qed
qed

lemma counter_inv_reachable: "creachable s \<Longrightarrow> counter_inv s"
  by (induction rule: creachable.induct) (auto intro: counter_inv_start counter_inv_step)

section \<open>Properties\<close>


text \<open>The counter file always holds the number of claims made, so a lock holder reads exactly the next
  unclaimed group; only the process that created the file ever writes the initial zero, and it does so before the first
  claim.\<close>

lemma counter_file_tracks_claims:
  assumes "creachable s"
  shows "(\<forall>c. content s = Some c \<longrightarrow> c \<noteq> [] \<longrightarrow> c = LittleEndian_PutUint64 (of_nat (length (claims s)))) \<and>
    (\<forall>p. pcs s p = Created \<or> pcs s p = CreatorLocked \<longrightarrow> claims s = []) \<and>
    (\<forall>p q. holds_lock (pcs s p) \<longrightarrow> holds_lock (pcs s q) \<longrightarrow> p = q)"
proof -
  note inv = counter_inv_reachable [OF assms]
  then have "file_inv s" "\<And>p. pc_inv s p" by (simp_all add: counter_inv_def)
  then show ?thesis
    using lock_exclusive [OF inv] unfolding file_inv_def pc_inv_def by fastforce
qed

text \<open>
  Two processes: 0 creates the file and claims a group while 1 opens the existing file, then 1 claims.
\<close>

definition two_procs ::
  "byte list option \<Rightarrow> nat option \<Rightarrow> nat set \<Rightarrow> pc \<Rightarrow> pc \<Rightarrow> (nat \<times> uint64) list \<Rightarrow> counter_sys" where
  "two_procs c l sh x y cl = \<lparr>content = c, ex_lock = l, sh_locks = sh,
     pcs = (\<lambda>q. if q = 0 then x else if q = 1 then y else Starting), claims = cl\<rparr>"

lemma two_procs_step:
  "creachable s \<Longrightarrow> cstep s s' \<Longrightarrow> s' = s'' \<Longrightarrow> creachable s''"
  by (blast intro: creachable.step)

lemma two_procs_simps [simp]:
  "pcs (two_procs c l sh x y cl) 0 = x" "pcs (two_procs c l sh x y cl) (Suc 0) = y"
  "content (two_procs c l sh x y cl) = c" "ex_lock (two_procs c l sh x y cl) = l"
  "sh_locks (two_procs c l sh x y cl) = sh" "claims (two_procs c l sh x y cl) = cl"
  "goto 0 z (two_procs c l sh x y cl) = two_procs c l sh z y cl"
  "goto (Suc 0) z (two_procs c l sh x y cl) = two_procs c l sh x z cl"
  "(two_procs c l sh x y cl)\<lparr>content := c'\<rparr> = two_procs c' l sh x y cl"
  "(two_procs c l sh x y cl)\<lparr>ex_lock := l'\<rparr> = two_procs c l' sh x y cl"
  "(two_procs c l sh x y cl)\<lparr>sh_locks := sh'\<rparr> = two_procs c l sh' x y cl"
  "(two_procs c l sh x y cl)\<lparr>claims := cl'\<rparr> = two_procs c l sh x y cl'"
  by (auto simp: two_procs_def goto_def)

lemmas counter_eval = write_over_counter read_counter Uint64_Put

lemma first_claim: "creachable (two_procs (Some (LittleEndian_PutUint64 1)) None {} Ready Opened [(0, 0)])"
proof -
  let ?z = "Some (LittleEndian_PutUint64 0)"
  have "creachable (two_procs None None {} Starting Starting [])"
    using creachable.start by (simp add: sys_start_def two_procs_def cong: if_cong)
  then have "creachable (two_procs (Some []) None {} Created Starting [])"
    by (rule two_procs_step) (rule cstep.create [where p = 0], simp_all)
  then have "creachable (two_procs (Some []) None {} Created Opened [])"
    by (rule two_procs_step) (rule cstep.exists [where p = 1], simp_all)
  then have "creachable (two_procs (Some []) (Some 0) {} CreatorLocked Opened [])"
    by (rule two_procs_step) (rule cstep.creator_lock [where p = 0], simp_all)
  then have "creachable (two_procs ?z (Some 0) {} CreatorWrote Opened [])"
    by (rule two_procs_step) (rule cstep.creator_write [where p = 0 and c = "[]"], simp_all add: counter_eval)
  then have "creachable (two_procs ?z None {} Ready Opened [])"
    by (rule two_procs_step) (rule cstep.creator_unlock [where p = 0], simp_all)
  then have "creachable (two_procs ?z (Some 0) {} CountLocked Opened [])"
    by (rule two_procs_step) (rule cstep.count_lock [where p = 0], simp_all)
  then have "creachable (two_procs ?z (Some 0) {} (CountRead 0) Opened [])"
    by (rule two_procs_step) (rule cstep.count_read [where p = 0 and c = "LittleEndian_PutUint64 0" and buf = "LittleEndian_PutUint64 0"], simp_all add: counter_eval)
  then have "creachable (two_procs (Some (LittleEndian_PutUint64 1)) (Some 0) {} (CountWrote 0) Opened [(0, 0)])"
    by (rule two_procs_step) (rule cstep.count_write [where p = 0 and c = "LittleEndian_PutUint64 0" and v = 0], simp_all add: counter_eval)
  then show ?thesis
    by (rule two_procs_step) (rule cstep.count_return [where p = 0 and v = 0], simp_all)
qed

lemma two_processes: "\<exists>s. creachable s \<and> claims s = [(0, 0), (1, 1)]"
proof -
  let ?o = "Some (LittleEndian_PutUint64 1)"
  have "creachable (two_procs ?o None {1} Ready SharedLocked [(0, 0)])"
    by (rule two_procs_step [OF first_claim]) (rule cstep.shared_lock [where p = 1], simp_all)
  then have "creachable (two_procs ?o None {} Ready Ready [(0, 0)])"
    by (rule two_procs_step) (rule cstep.shared_unlock [where p = 1], simp_all)
  then have "creachable (two_procs ?o (Some 1) {} Ready CountLocked [(0, 0)])"
    by (rule two_procs_step) (rule cstep.count_lock [where p = 1], simp_all)
  then have "creachable (two_procs ?o (Some 1) {} Ready (CountRead 1) [(0, 0)])"
    by (rule two_procs_step) (rule cstep.count_read [where p = 1 and c = "LittleEndian_PutUint64 1" and buf = "LittleEndian_PutUint64 1"], simp_all add: counter_eval)
  then have "creachable (two_procs (Some (LittleEndian_PutUint64 2)) (Some 1) {} Ready (CountWrote 1) [(0, 0), (1, 1)])"
    by (rule two_procs_step) (rule cstep.count_write [where p = 1 and c = "LittleEndian_PutUint64 1" and v = 1], simp_all add: counter_eval)
  then show ?thesis by fastforce
qed


lemma counter_file_tracks_claims_witness:
  "\<exists>s. creachable s \<and> length (claims s) = 2 \<and>
     (\<forall>c. content s = Some c \<longrightarrow> c \<noteq> [] \<longrightarrow> c = LittleEndian_PutUint64 (of_nat (length (claims s))))"
proof -
  obtain s where "creachable s" "claims s = [(0, 0), (1, 1)]" using two_processes by blast
  with counter_file_tracks_claims [of s] show ?thesis by (intro exI [of _ s]) simp
qed

end
