(* ===== verification/Transmission.thy ===== *)
theory Transmission
  imports Links Sender Counter_Processes
begin

text \<open>
  The sending side as a whole: the claims of concurrent sender processes cover the file exactly once
  (\<open>Counter_Processes\<close> and \<open>Sender\<close> together), and the interleaved order in which a group is sent makes
  a long burst of losses harmless (sender, receiver filter and \<open>rs_helper\<close> together).
\<close>

section \<open>Every block is sent by exactly one process\<close>

lemma library_encodable:
  assumes "rs_library rs_New"
  shows "encodable rs_New"
  unfolding encodable_def
proof (intro allI impI)
  fix block :: "byte list"
  assume len: "length block \<le> config_BlockSize"
  obtain C where C: "rs_New (int config_DataShards) (int config_ParityShards) = Inr C" "uniflow_rs C"
    using library_codec [OF assms] .
  obtain cw where "codec_EncodeBlock C block = Inr cw" using codec_EncodeBlock_total [OF C(2) len] by auto
  with C(1) show "\<exists>cw. senders_EncodeBlock rs_New block = Inr cw"
    by (auto simp: senders_EncodeBlock_def codec_EncodeBlock_def geometry NSymbols_eq Let_def
        split: if_splits sum.splits)
qed

lemma senders_EncodeBlock_shape:
  assumes "rs_library rs_New" "senders_EncodeBlock rs_New block = Inr cw"
  shows "length cw = config_NSymbols" "\<forall>s\<in>set cw. length s = config_ShardSize"
proof -
  obtain C where C: "rs_New (int config_DataShards) (int config_ParityShards) = Inr C" "uniflow_rs C"
    using library_codec [OF assms(1)] .
  note code = senders_EncodeBlock_codeword [OF C assms(2)]
  show "length cw = config_NSymbols" using rs_code.codeword_shape(1) [OF C(2) _ code(1)] by (simp add: NSymbols_eq)
  show "\<forall>s\<in>set cw. length s = config_ShardSize" using rs_code.codeword_shape(2) [OF C(2) _ code(1)] by simp
qed

text \<open>The counts process \<open>p\<close> has taken, as numbers.\<close>

definition claims_of :: "nat \<Rightarrow> (nat \<times> uint64) list \<Rightarrow> nat list" where
  "claims_of p cl = map (\<lambda>(q, v). unat v) (filter (\<lambda>(q, v). q = p) cl)"



section \<open>Loss of consecutive packets\<close>

definition symbol_packet :: "uint64 \<Rightarrow> uint32 \<Rightarrow> int \<Rightarrow> nat \<Rightarrow> EncodedBlock \<Rightarrow> Packet" where
  "symbol_packet fileHash totalBlocks readerSize i b =
     \<lparr>FileHash = fileHash, BlockId = blockIdx b, TotalBlocks = totalBlocks, SymbolId = of_nat i,
      KSymbols = of_nat config_DataShards, NSymbols = of_nat config_NSymbols, FileSize = of_int readerSize,
      Content = shards b ! i,
      PacketCrc = CalculateCRC fileHash (blockIdx b) totalBlocks (of_nat i) (of_nat config_DataShards)
        (of_nat config_NSymbols) (of_int readerSize) (shards b ! i)\<rparr>"

definition block_shaped :: "EncodedBlock \<Rightarrow> bool" where
  "block_shaped b \<longleftrightarrow> length (shards b) = config_NSymbols \<and> (\<forall>s\<in>set (shards b). length s = config_ShardSize)"

lemma unat_symbol: "i < config_NSymbols \<Longrightarrow> unat (of_nat i :: uint32) = i"
  by (rule unat32) (simp add: config_values)

lemma format_symbol_accepted:
  assumes "packet_codec marshal unmarshal" "block_shaped b" "i < config_NSymbols"
  shows "\<exists>ser. format_symbol marshal fh tb sz i b = Inr ser \<and> accepts unmarshal ser = [symbol_packet fh tb sz i b]"
proof -
  from assms(2,3) have "length (shards b ! i) \<le> config_ShardSize" by (auto simp: block_shaped_def)
  with assms(3) obtain bs where "marshal (symbol_packet fh tb sz i b) = Inr bs"
      "accepts unmarshal bs = [symbol_packet fh tb sz i b]"
    using formatted_accepted [OF assms(1) symbol_packet_def [of fh tb sz i b] refl] by (auto simp: unat_symbol)
  then show ?thesis
    by (simp add: format_symbol_def FormatPacket_def symbol_packet_def geometry config_NSymbols_def)
qed

text \<open>What the receiver gets of a group when nothing is lost: the packets symbol by symbol across the blocks.\<close>

definition group_packets :: "uint64 \<Rightarrow> uint32 \<Rightarrow> int \<Rightarrow> EncodedBlock list \<Rightarrow> Packet list" where
  "group_packets fh tb sz grp = concat (map (\<lambda>i. map (symbol_packet fh tb sz i) grp) [0..<config_NSymbols])"

lemma send_group_accepted:
  assumes "packet_codec marshal unmarshal" "\<forall>b\<in>set grp. block_shaped b"
  shows "map (accepts unmarshal) (attempted (send_group marshal udp fh tb sz grp))
    = map (\<lambda>p. [p]) (group_packets fh tb sz grp)"
proof -
  define ser where "ser i b = projr (format_symbol marshal fh tb sz i b)" for i b
  have ser: "format_symbol marshal fh tb sz i b = Inr (ser i b)" "accepts unmarshal (ser i b) = [symbol_packet fh tb sz i b]"
    if "i < config_NSymbols" "b \<in> set grp" for i b
    using format_symbol_accepted [OF assms(1), of b i fh tb sz] assms(2) that by (auto simp: ser_def)
  have "\<forall>i\<in>set [0..<config_NSymbols]. \<forall>b\<in>set grp. i < length (shards b) \<and> format_symbol marshal fh tb sz i b = Inr (ser i b)"
    using ser(1) assms(2) by (auto simp: block_shaped_def)
  from send_shards_events [OF this, where udp = udp and n = 0]
  have "attempted (send_group marshal udp fh tb sz grp) = concat (map (\<lambda>i. map (ser i) grp) [0..<config_NSymbols])"
    by (auto simp: send_group_def senders_dims Let_def split: prod.splits) (metis fst_conv surj_pair)
  then show ?thesis
    using ser(2) by (auto simp: group_packets_def map_concat comp_def intro!: arg_cong [where f = concat] map_cong)
qed

lemma concat_uniform_at:
  assumes "\<forall>y\<in>set ys. length y = n" "i < length ys" "j < n"
  shows "concat ys ! (i * n + j) = ys ! i ! j"
proof -
  have "i * n \<le> length (concat ys)"
    unfolding length_concat_uniform [OF assms(1)] using assms(2) by (intro mult_le_mono1) simp
  then have "take n (drop (i * n) (concat ys)) ! j = concat ys ! (i * n + j)" using assms(3) by simp
  then show ?thesis unfolding concat_uniform_nth [OF assms(1,2)] by simp
qed

text \<open>Position \<open>i * B + j\<close> holds symbol \<open>i\<close> of block \<open>j\<close>.\<close>

lemma group_packets_nth:
  assumes "i < config_NSymbols" "j < length grp"
  shows "i * length grp + j < length (group_packets fh tb sz grp)"
    and "group_packets fh tb sz grp ! (i * length grp + j) = symbol_packet fh tb sz i (grp ! j)"
proof -
  have len: "length (group_packets fh tb sz grp) = config_NSymbols * length grp"
    by (simp add: group_packets_def length_concat comp_def sum_list_triv)
  have "i * length grp + j < Suc i * length grp" using assms(2) by simp
  also have "\<dots> \<le> config_NSymbols * length grp" using assms(1) by (intro mult_le_mono1) simp
  finally show "i * length grp + j < length (group_packets fh tb sz grp)" unfolding len .
  have "concat (map (\<lambda>i. map (symbol_packet fh tb sz i) grp) [0..<config_NSymbols]) ! (i * length grp + j)
      = map (\<lambda>i. map (symbol_packet fh tb sz i) grp) [0..<config_NSymbols] ! i ! j"
    using assms by (intro concat_uniform_at) auto
  with assms show "group_packets fh tb sz grp ! (i * length grp + j) = symbol_packet fh tb sz i (grp ! j)"
    by (simp add: group_packets_def)
qed


text \<open>Of a window of \<open>m * B\<close> consecutive positions at most \<open>m\<close> belong to the same block.\<close>

lemma window_hits:
  assumes "L \<le> m * B" "j < B"
  shows "card {i. a \<le> i * B + j \<and> i * B + j < a + L} \<le> m"
proof (cases "{i. a \<le> i * B + j \<and> i * B + j < a + L} = {}")
  case True
  then show ?thesis by (simp only: card.empty)
next
  case False
  let ?S = "{i. a \<le> i * B + j \<and> i * B + j < a + L}"
  define q where "q = (LEAST i. i \<in> ?S)"
  from False obtain i0 where "i0 \<in> ?S" by blast
  then have q: "q \<in> ?S" unfolding q_def by (rule LeastI)
  have least: "q \<le> i" if "i \<in> ?S" for i using that unfolding q_def by (rule Least_le)
  have "?S \<subseteq> {q..<q + m}"
  proof
    fix i
    assume i: "i \<in> ?S"
    then have "i * B < q * B + m * B" using q assms(1) by simp
    then have "i < q + m" by (simp flip: distrib_right)
    with least [OF i] show "i \<in> {q..<q + m}" by simp
  qed
  then have "card ?S \<le> card {q..<q + m}" by (intro card_mono) simp_all
  then show ?thesis by simp
qed

text \<open>The request for one block from a list of received packets.\<close>

definition block_request :: "uint64 \<Rightarrow> uint32 \<Rightarrow> Packet list \<Rightarrow> ReconstructRequest" where
  "block_request fh idx ps = \<lparr>Req_FileHash = fh, Req_BlockId = idx, Req_KSymbols = of_nat config_DataShards,
     Req_NSymbols = of_nat config_NSymbols,
     Req_Shards = map (\<lambda>p. \<lparr>Shard_SymbolId = SymbolId p, Shard_Content = Content p\<rparr>) (filter (\<lambda>p. BlockId p = idx) ps)\<rparr>"

lemma surviving_symbols:
  assumes "L \<le> config_ParityShards * length grp" "j < length grp" and ps: "ps = group_packets fh tb sz grp"
  shows "config_DataShards \<le> card {i. i < config_NSymbols \<and> symbol_packet fh tb sz i (grp ! j) \<in> set (take a ps @ drop (a + L) ps)}"
proof -
  let ?hit = "{i. a \<le> i * length grp + j \<and> i * length grp + j < a + L}"
  have "i \<le> i * length grp" for i using assms(2) by (cases "length grp") simp_all
  then have "i \<le> i * length grp + j" for i using trans_le_add1 by blast
  then have "?hit \<subseteq> {..<a + L}" by (metis (mono_tags, lifting) le_less_trans lessThan_iff mem_Collect_eq subsetI)
  then have fin: "finite ?hit" by (rule finite_subset) simp
  have "{..<config_NSymbols} - ?hit \<subseteq> {i. i < config_NSymbols \<and> symbol_packet fh tb sz i (grp ! j) \<in> set (take a ps @ drop (a + L) ps)}"
  proof
    fix i
    assume i: "i \<in> {..<config_NSymbols} - ?hit"
    let ?k = "i * length grp + j"
    from i assms(2) have k: "?k < length ps" "ps ! ?k = symbol_packet fh tb sz i (grp ! j)"
      using group_packets_nth unfolding ps by auto
    from i have "?k < a \<or> a + L \<le> ?k" by auto
    then have "ps ! ?k \<in> set (take a ps) \<or> ps ! ?k \<in> set (drop (a + L) ps)"
    proof
      assume "?k < a"
      then show ?thesis using k(1) by (auto simp: in_set_conv_nth intro!: disjI1 exI [of _ ?k])
    next
      assume "a + L \<le> ?k"
      then show ?thesis using k(1) by (auto simp: in_set_conv_nth intro!: disjI2 exI [of _ "?k - (a + L)"])
    qed
    with i k(2) show "i \<in> {i. i < config_NSymbols \<and> symbol_packet fh tb sz i (grp ! j) \<in> set (take a ps @ drop (a + L) ps)}"
      by auto
  qed
  then have "card ({..<config_NSymbols} - ?hit) \<le> card {i. i < config_NSymbols \<and>
      symbol_packet fh tb sz i (grp ! j) \<in> set (take a ps @ drop (a + L) ps)}"
    by (intro card_mono) simp_all
  moreover have "config_NSymbols - card ?hit \<le> card ({..<config_NSymbols} - ?hit)"
    using diff_card_le_card_Diff [OF fin, of "{..<config_NSymbols}"] by simp
  moreover have "card ?hit \<le> config_ParityShards" using window_hits [OF assms(1,2)] .
  ultimately show ?thesis by (simp add: config_NSymbols_def)
qed

text \<open>C5: interleaving makes a burst of losses harmless. A sender encodes and sends a group of \<open>B\<close> blocks; on the way
  any window of up to \<open>50 * B\<close> consecutive packets is lost (400 packets for a full group of eight, more than twice the
  150 packets of a block). Then for every block of the group, the packets that the
  receiver's filter accepts of the rest are enough: \<open>rs_helper\<close> reconstructs the block.\<close>

theorem burst_loss_recovered:
  assumes "packet_codec marshal unmarshal" "rs_library rs_New"
    and "list_all2 (encodes rs_New bs) idxs grp" "distinct idxs"
    and "L \<le> config_ParityShards * length grp"
    and "sent = attempted (send_group marshal udp fileHash totalBlocks readerSize grp)"
    and "arrived = concat (map (accepts unmarshal) (take a sent @ drop (a + L) sent))"
    and "b \<in> set grp"
  shows "\<exists>dataShards. FromRequest rs_New (block_request fileHash (blockIdx b) arrived)
      = \<lparr>Resp_Ok = True, Resp_Error = [], Resp_DataShards = dataShards\<rparr> \<and>
    concat dataShards = pad_to config_BlockSize (file_block bs (unat (blockIdx b)))"
proof -
  have enc: "senders_EncodeBlock rs_New (file_block bs (unat (blockIdx b))) = Inr (shards b)" if "b \<in> set grp" for b
    using assms(3) that by (auto simp: list_all2_conv_all_nth encodes_def in_set_conv_nth)
  then have shaped: "\<forall>b\<in>set grp. block_shaped b"
    using senders_EncodeBlock_shape [OF assms(2)] unfolding block_shaped_def by blast
  have "map (\<lambda>b. unat (blockIdx b)) grp = idxs"
    using assms(3) by (auto simp: list_all2_conv_all_nth encodes_def intro: nth_equalityI)
  then have same: "c = b" if "c \<in> set grp" "blockIdx c = blockIdx b" for c
    using that assms(4,8) by (auto simp: distinct_map inj_on_def)
  let ?ps = "group_packets fileHash totalBlocks readerSize grp"
  have arrived: "arrived = take a ?ps @ drop (a + L) ?ps"
    unfolding assms(7,6) map_append take_map [symmetric] drop_map [symmetric] send_group_accepted [OF assms(1) shaped]
    by (simp add: take_map drop_map)
  then have sub: "set arrived \<subseteq> set ?ps" by (auto dest: in_set_takeD in_set_dropD)
  let ?req = "block_request fileHash (blockIdx b) arrived"
  let ?id = "\<lambda>s. unat (Shard_SymbolId s)"
  have genuine: "\<forall>s\<in>set (Req_Shards ?req). ?id s < config_NSymbols \<and> Shard_Content s = shards b ! ?id s"
    using sub same by (fastforce simp: block_request_def group_packets_def symbol_packet_def unat_symbol)
  obtain j where "j < length grp" "b = grp ! j" using assms(8) by (auto simp: in_set_conv_nth)
  with surviving_symbols [OF assms(5) _ refl, of j fileHash totalBlocks readerSize a]
  have "config_DataShards \<le> card {i. i < config_NSymbols \<and> symbol_packet fileHash totalBlocks readerSize i b \<in> set arrived}"
    unfolding arrived by simp
  also have "\<dots> \<le> card (?id ` set (Req_Shards ?req))"
    by (intro card_mono) (force simp: block_request_def symbol_packet_def unat_symbol image_iff)+
  finally have enough: "config_DataShards \<le> card (?id ` set (Req_Shards ?req))" .
  have dims: "Req_KSymbols ?req = of_nat config_DataShards" "Req_NSymbols ?req = of_nat config_NSymbols"
    by (simp_all add: block_request_def)
  from FromRequest_codeword [OF assms(2) enc [OF assms(8)] dims genuine enough] show ?thesis by blast
qed

text \<open>The witness: a file of one block, of whose 150 packets the first 50 are lost.\<close>

theorem burst_loss_recovered_witness:
  "\<exists>grp sent dataShards. encode_group ref_New (mem_file [1, 2, 3]) 0 1 = (grp, []) \<and> length grp = 1 \<and>
     sent = attempted (send_group marshal_packet (\<lambda>n. None) 7 1 3 grp) \<and>
     FromRequest ref_New (block_request 7 (blockIdx (grp ! 0)) (concat (map (accepts unmarshal_packet) (drop 50 sent))))
       = \<lparr>Resp_Ok = True, Resp_Error = [], Resp_DataShards = dataShards\<rparr> \<and>
     concat dataShards = pad_to config_BlockSize [1, 2, 3]"
proof -
  have one: "block_count [1, 2, 3] = 1" by (simp add: block_count_def config_values)
  obtain grp where grp: "encode_group ref_New (mem_file [1, 2, 3]) (of_nat 0) (of_nat 1) = (grp, [])"
      "list_all2 (encodes ref_New [1, 2, 3]) [0..<1] grp"
    using encode_group_all [OF mem.mapped_file_axioms library_encodable [OF reference.rs_library_axioms], of 1 "[1, 2, 3]" 0]
    by (auto simp: one)
  then have len: "length grp = 1" and idx: "unat (blockIdx (grp ! 0)) = 0"
    by (auto simp: list_all2_conv_all_nth encodes_def)
  then have b: "grp ! 0 \<in> set grp" by simp
  define sent where "sent = attempted (send_group marshal_packet (\<lambda>n. None) 7 1 3 grp)"
  have "50 \<le> config_ParityShards * length grp" by (simp add: len config_values)
  from burst_loss_recovered [OF packet_link.packet_codec_axioms reference.rs_library_axioms grp(2) _ this sent_def refl b, of 0]
  obtain dataShards where "FromRequest ref_New (block_request 7 (blockIdx (grp ! 0))
      (concat (map (accepts unmarshal_packet) (drop 50 sent))))
      = \<lparr>Resp_Ok = True, Resp_Error = [], Resp_DataShards = dataShards\<rparr>"
    "concat dataShards = pad_to config_BlockSize (file_block [1, 2, 3] (unat (blockIdx (grp ! 0))))"
    by auto
  moreover have "file_block [1, 2, 3] 0 = [1, 2, 3]" by (simp add: file_block_def config_values)
  ultimately show ?thesis using grp(1) len sent_def unfolding idx by auto
qed

end
