(* ===== verification/Session_Manager.thy ===== *)
theory Session_Manager
  imports Transmission "HOL-Library.AList"
begin

text \<open>
  The session manager, \<open>session-manager/src/*.py\<close>: symbols of all receivers pooled per block, blocks reconstructed
  through \<open>rs_helper\<close>, blocks collected per file, the finished file checked against its hash and written. Each
  handler is a function on the state of its object; the threads that call them are in \<open>Session_Pipeline\<close>.
\<close>

section \<open>Aggregator\<close>

text \<open>
  \<open>aggregator.py\<close>. A dict is a map, except that the dict of a block's symbols, which is iterated later in insertion
  order, is a list of pairs. The part under the lock is \<open>add_packet\<close>; its result is what \<open>on_block_ready\<close> is then
  called with, if anything.
\<close>

type_synonym block_key = "uint64 \<times> uint32"

record block_meta =
  k_symbols :: uint32
  n_symbols :: uint32
  file_size :: uint64
  total_blocks :: uint32

record Aggregator =
  pending_shards :: "block_key \<rightharpoonup> (uint32 \<times> byte list) list"
  pending_meta :: "block_key \<rightharpoonup> block_meta"
  contributing_receivers :: "block_key \<rightharpoonup> uint32 set"
  completed :: "block_key set"

definition empty_aggregator :: Aggregator where
  "empty_aggregator = \<lparr>pending_shards = Map.empty, pending_meta = Map.empty,
     contributing_receivers = Map.empty, completed = {}\<rparr>"

record block_ready =
  br_key :: block_key
  br_meta :: block_meta
  br_shards :: "(uint32 \<times> byte list) list"
  br_receivers :: "uint32 set"

text \<open>A \<open>defaultdict\<close> lookup.\<close>

definition default_get :: "'b \<Rightarrow> ('a \<rightharpoonup> 'b) \<Rightarrow> 'a \<Rightarrow> 'b" where
  "default_get d m x = (case m x of None \<Rightarrow> d | Some y \<Rightarrow> y)"

definition packet_key :: "Packet \<Rightarrow> block_key" where
  "packet_key packet = (FileHash packet, BlockId packet)"

definition add_packet :: "uint32 \<Rightarrow> Packet \<Rightarrow> Aggregator \<Rightarrow> Aggregator \<times> block_ready option" where
  "add_packet receiver_id packet agg =
     (let key = packet_key packet in
      if key \<in> completed agg then (agg, None)
      else
        (let shards = default_get [] (pending_shards agg) key;
             fresh = SymbolId packet \<notin> fst ` set shards;
             shards = (if fresh then shards @ [(SymbolId packet, Content packet)] else shards);
             meta = (if fresh
               then (pending_meta agg)(key \<mapsto> \<lparr>k_symbols = KSymbols packet, n_symbols = NSymbols packet,
                      file_size = FileSize packet, total_blocks = TotalBlocks packet\<rparr>)
               else pending_meta agg);
             receivers = insert receiver_id (default_get {} (contributing_receivers agg) key)
         in if length shards < unat (KSymbols packet) then
              (agg\<lparr>pending_shards := (pending_shards agg)(key \<mapsto> shards), pending_meta := meta,
                 contributing_receivers := (contributing_receivers agg)(key \<mapsto> receivers)\<rparr>, None)
            else
              (agg\<lparr>pending_shards := (pending_shards agg)(key := None), pending_meta := meta(key := None),
                 contributing_receivers := (contributing_receivers agg)(key := None),
                 completed := insert key (completed agg)\<rparr>,
               Some \<lparr>br_key = key, br_meta = the (meta key), br_shards = shards, br_receivers = receivers\<rparr>)))"

text \<open>\<open>batch_handler.py\<close>: the packets of a batch one by one; the blocks that became ready on the way.\<close>

fun handle_packets :: "uint32 \<Rightarrow> Packet list \<Rightarrow> Aggregator \<Rightarrow> Aggregator \<times> block_ready list" where
  "handle_packets receiver_id [] agg = (agg, [])"
| "handle_packets receiver_id (packet # packets) agg =
     (case add_packet receiver_id packet agg of
        (agg, r) \<Rightarrow>
          (case handle_packets receiver_id packets agg of
             (agg, rs) \<Rightarrow> (agg, (case r of None \<Rightarrow> rs | Some x \<Rightarrow> x # rs))))"

definition handle_batch :: "SymbolBatch \<Rightarrow> Aggregator \<Rightarrow> Aggregator \<times> block_ready list" where
  "handle_batch b agg = handle_packets (ReceiverId b) (SB_Packets b) agg"

section \<open>Block assembler\<close>

text \<open>
  \<open>rs_client.py\<close>: the request for one block, and the data shards of the answer or the text of the
  \<open>ReconstructionError\<close>. The parameter \<open>helper\<close> is what \<open>rs_helper\<close> answers.
\<close>

definition reconstruct_request :: "block_ready \<Rightarrow> ReconstructRequest" where
  "reconstruct_request r = \<lparr>Req_FileHash = fst (br_key r), Req_BlockId = snd (br_key r),
     Req_KSymbols = k_symbols (br_meta r), Req_NSymbols = n_symbols (br_meta r),
     Req_Shards = map (\<lambda>(i, c). \<lparr>Shard_SymbolId = i, Shard_Content = c\<rparr>) (br_shards r)\<rparr>"

definition rs_client_reconstruct ::
  "(ReconstructRequest \<Rightarrow> ReconstructResponse) \<Rightarrow> block_ready \<Rightarrow> string + byte list list" where
  "rs_client_reconstruct helper r =
     (let response = helper (reconstruct_request r)
      in if \<not> Resp_Ok response then Inl (Resp_Error response) else Inr (Resp_DataShards response))"

definition BLOCK_SIZE :: int where
  "BLOCK_SIZE = 134400"

text \<open>Python's \<open>xs[:n]\<close>: a negative bound counts from the end.\<close>

definition slice_to :: "int \<Rightarrow> 'a list \<Rightarrow> 'a list" where
  "slice_to n xs = (if n < 0 then take (nat (int (length xs) + n)) xs else take (nat n) xs)"

text \<open>\<open>block_assembler.py\<close>: the assembled block, or nothing when reconstruction failed (which is only printed).\<close>

record block_assembled =
  ba_file_hash :: uint64
  ba_block_id :: uint32
  ba_total_blocks :: uint32
  ba_bytes :: "byte list"
  ba_receivers :: "uint32 set"

definition handle_block_ready ::
  "(ReconstructRequest \<Rightarrow> ReconstructResponse) \<Rightarrow> block_ready \<Rightarrow> block_assembled option" where
  "handle_block_ready helper r =
     (case rs_client_reconstruct helper r of
        Inl e \<Rightarrow> None
      | Inr data_shards \<Rightarrow>
          (let block_bytes = concat data_shards;
               tot = uint (total_blocks (br_meta r));
               block_bytes =
                 (if uint (snd (br_key r)) = tot - 1
                  then slice_to (uint (file_size (br_meta r)) - (tot - 1) * BLOCK_SIZE) block_bytes
                  else block_bytes)
           in Some \<lparr>ba_file_hash = fst (br_key r), ba_block_id = snd (br_key r),
                ba_total_blocks = total_blocks (br_meta r), ba_bytes = block_bytes, ba_receivers = br_receivers r\<rparr>))"

section \<open>File tracker and file writer\<close>

text \<open>
  \<open>file_tracker.py\<close>: the blocks of each file, and what \<open>on_file_complete\<close> is called with once there are as many as
  the file has. A missing block number while they are joined is a \<open>KeyError\<close>.
\<close>

record FileTracker =
  tracked_blocks :: "uint64 \<rightharpoonup> (uint32 \<times> byte list) list"
  receivers_seen :: "uint64 \<rightharpoonup> uint32 set"
  completed_files :: "uint64 set"

definition empty_tracker :: FileTracker where
  "empty_tracker = \<lparr>tracked_blocks = Map.empty, receivers_seen = Map.empty, completed_files = {}\<rparr>"

datatype tracker_result = Incomplete | KeyError | Complete uint64 "byte list" "uint32 set"

definition join_blocks :: "nat \<Rightarrow> (uint32 \<times> byte list) list \<Rightarrow> byte list option" where
  "join_blocks tot bl =
     (if \<forall>i\<in>set [0..<tot]. map_of bl (of_nat i) \<noteq> None
      then Some (concat (map (\<lambda>i. the (map_of bl (of_nat i))) [0..<tot])) else None)"

definition handle_block_assembled :: "block_assembled \<Rightarrow> FileTracker \<Rightarrow> FileTracker \<times> tracker_result" where
  "handle_block_assembled b tr =
     (let h = ba_file_hash b in
      if h \<in> completed_files tr then (tr, Incomplete)
      else
        (let blocks = AList.update (ba_block_id b) (ba_bytes b) (default_get [] (tracked_blocks tr) h);
             seen = default_get {} (receivers_seen tr) h \<union> ba_receivers b
         in if length blocks < unat (ba_total_blocks b) then
              (tr\<lparr>tracked_blocks := (tracked_blocks tr)(h \<mapsto> blocks), receivers_seen := (receivers_seen tr)(h \<mapsto> seen)\<rparr>,
               Incomplete)
            else
              (tr\<lparr>tracked_blocks := (tracked_blocks tr)(h := None), receivers_seen := (receivers_seen tr)(h := None),
                 completed_files := insert h (completed_files tr)\<rparr>,
               case join_blocks (unat (ba_total_blocks b)) blocks of
                 None \<Rightarrow> KeyError
               | Some bytes \<Rightarrow> Complete h bytes seen)))"

text \<open>\<open>integrity.py\<close> and \<open>file_writer.py\<close>; SHA-256 is a parameter, as is the outcome of writing the file.\<close>

definition compute_reference_hash :: "(byte list \<Rightarrow> byte list) \<Rightarrow> byte list \<Rightarrow> uint64" where
  "compute_reference_hash sha256 file_bytes = le_word (rev (take 8 (sha256 file_bytes)))"

definition verify_file :: "(byte list \<Rightarrow> byte list) \<Rightarrow> uint64 \<Rightarrow> byte list \<Rightarrow> bool" where
  "verify_file sha256 file_hash file_bytes \<longleftrightarrow> compute_reference_hash sha256 file_bytes = file_hash"

datatype writer_result = IntegrityFailure uint64 | OutputError error | Written string "byte list"

definition output_path :: "string \<Rightarrow> uint64 \<Rightarrow> string" where
  "output_path output_dir file_hash = output_dir @ ''/'' @ Sprintf ''%d.bin'' [D (uint file_hash)]"

definition handle_file_complete ::
  "(byte list \<Rightarrow> byte list) \<Rightarrow> (string \<Rightarrow> byte list \<Rightarrow> error option) \<Rightarrow> string \<Rightarrow> uint64 \<Rightarrow> byte list \<Rightarrow> writer_result" where
  "handle_file_complete sha256 os_write output_dir file_hash file_bytes =
     (if \<not> verify_file sha256 file_hash file_bytes then IntegrityFailure file_hash
      else case os_write (output_path output_dir file_hash) file_bytes of
             Some err \<Rightarrow> OutputError err
           | None \<Rightarrow> Written (output_path output_dir file_hash) file_bytes)"

section \<open>Symbols of known files\<close>

text \<open>
  A packet is genuine when it carries a symbol of a block of the file with its hash, and the sender's description of
  that file.
\<close>

definition genuine :: "(int \<Rightarrow> int \<Rightarrow> Codec res) \<Rightarrow> (uint64 \<Rightarrow> byte list) \<Rightarrow> Packet \<Rightarrow> bool" where
  "genuine rs_New files p \<longleftrightarrow>
     unat (BlockId p) < block_count (files (FileHash p)) \<and> unat (SymbolId p) < config_NSymbols \<and>
     KSymbols p = of_nat config_DataShards \<and> NSymbols p = of_nat config_NSymbols \<and>
     FileSize p = of_nat (length (files (FileHash p))) \<and> TotalBlocks p = of_nat (block_count (files (FileHash p))) \<and>
     (\<exists>cw. senders_EncodeBlock rs_New (file_block (files (FileHash p)) (unat (BlockId p))) = Inr cw \<and>
       Content p = cw ! unat (SymbolId p))"

definition meta_of :: "byte list \<Rightarrow> block_meta" where
  "meta_of bs = \<lparr>k_symbols = of_nat config_DataShards, n_symbols = of_nat config_NSymbols,
     file_size = of_nat (length bs), total_blocks = of_nat (block_count bs)\<rparr>"

lemma genuine_meta:
  assumes "genuine rs_New files p"
  shows "\<lparr>k_symbols = KSymbols p, n_symbols = NSymbols p, file_size = FileSize p, total_blocks = TotalBlocks p\<rparr>
    = meta_of (files (FileHash p))" "unat (KSymbols p) = config_DataShards"
  using assms by (simp_all add: genuine_def meta_of_def config_values)

lemma genuine_content:
  assumes "genuine rs_New files p" "genuine rs_New files q" "packet_key p = packet_key q" "SymbolId p = SymbolId q"
  shows "Content p = Content q"
  using assms by (auto simp: genuine_def packet_key_def)

text \<open>The symbols of a block among the packets seen, and the state of its pool.\<close>

definition symbols_of :: "Packet set \<Rightarrow> block_key \<Rightarrow> uint32 set" where
  "symbols_of seen key = SymbolId ` {p \<in> seen. packet_key p = key}"

definition pooled :: "Packet set \<Rightarrow> block_key \<Rightarrow> (uint32 \<times> byte list) list \<Rightarrow> bool" where
  "pooled seen key sh \<longleftrightarrow> distinct (map fst sh) \<and>
     set sh = (\<lambda>p. (SymbolId p, Content p)) ` {p \<in> seen. packet_key p = key}"

definition pool_ok ::
  "(uint64 \<Rightarrow> byte list) \<Rightarrow> Packet set \<Rightarrow> block_key \<Rightarrow> (uint32 \<times> byte list) list \<Rightarrow> block_meta option \<Rightarrow> bool" where
  "pool_ok files seen key sh m \<longleftrightarrow> pooled seen key sh \<and> length sh < config_DataShards \<and>
     (sh \<noteq> [] \<longrightarrow> m = Some (meta_of (files (fst key))))"

definition aggregator_inv :: "(uint64 \<Rightarrow> byte list) \<Rightarrow> Packet set \<Rightarrow> Aggregator \<Rightarrow> bool" where
  "aggregator_inv files seen agg \<longleftrightarrow> (\<forall>key. key \<notin> completed agg \<longrightarrow>
     pool_ok files seen key (default_get [] (pending_shards agg) key) (pending_meta agg key))"

lemma aggregator_invD:
  "aggregator_inv files seen agg \<Longrightarrow> key \<notin> completed agg \<Longrightarrow>
   pool_ok files seen key (default_get [] (pending_shards agg) key) (pending_meta agg key)"
  unfolding aggregator_inv_def by blast

lemma aggregator_invI:
  "(\<And>key. key \<notin> completed agg \<Longrightarrow> pool_ok files seen key (default_get [] (pending_shards agg) key) (pending_meta agg key)) \<Longrightarrow>
   aggregator_inv files seen agg"
  unfolding aggregator_inv_def by blast

lemma pooled_symbols: "pooled seen key sh \<Longrightarrow> fst ` set sh = symbols_of seen key"
  by (auto simp: pooled_def symbols_of_def image_iff)

lemma pooled_length:
  assumes "pooled seen key sh"
  shows "length sh = card (symbols_of seen key)"
  using assms distinct_card [of "map fst sh"] pooled_symbols [OF assms] by (simp add: pooled_def)

lemma pooled_insert:
  assumes "pooled seen (packet_key p) sh" "\<forall>q\<in>insert p seen. genuine rs_New files q"
  shows "pooled (insert p seen) (packet_key p) (if SymbolId p \<notin> fst ` set sh then sh @ [(SymbolId p, Content p)] else sh)"
proof (cases "SymbolId p \<in> fst ` set sh")
  case True
  then obtain q where q: "q \<in> seen" "packet_key q = packet_key p" "SymbolId q = SymbolId p"
    using pooled_symbols [OF assms(1)] by (auto simp: symbols_of_def)
  then have "Content q = Content p" using genuine_content [of rs_New files q p] assms(2) by auto
  with q have "(SymbolId p, Content p) \<in> (\<lambda>p. (SymbolId p, Content p)) ` {q \<in> seen. packet_key q = packet_key p}"
    by (auto simp: image_iff intro!: bexI [of _ q])
  with True assms(1) show ?thesis by (auto simp: pooled_def)
next
  case False
  with assms(1) show ?thesis by (auto simp: pooled_def)
qed

lemma pooled_other: "packet_key p \<noteq> key \<Longrightarrow> pooled (insert p seen) key sh \<longleftrightarrow> pooled seen key sh"
  by (auto simp: pooled_def)

text \<open>A block handed over is complete: enough distinct symbols of one codeword, with the right description.\<close>

definition ready_ok :: "(int \<Rightarrow> int \<Rightarrow> Codec res) \<Rightarrow> (uint64 \<Rightarrow> byte list) \<Rightarrow> block_ready \<Rightarrow> bool" where
  "ready_ok rs_New files r \<longleftrightarrow>
     unat (snd (br_key r)) < block_count (files (fst (br_key r))) \<and> br_meta r = meta_of (files (fst (br_key r))) \<and>
     config_DataShards \<le> card (fst ` set (br_shards r)) \<and>
     (\<exists>cw. senders_EncodeBlock rs_New (file_block (files (fst (br_key r))) (unat (snd (br_key r)))) = Inr cw \<and>
       (\<forall>(i, c)\<in>set (br_shards r). unat i < config_NSymbols \<and> c = cw ! unat i))"

lemma pooled_ready:
  assumes "pooled (insert p seen) (packet_key p) sh" "\<forall>q\<in>insert p seen. genuine rs_New files q"
    and "config_DataShards \<le> length sh"
  shows "ready_ok rs_New files \<lparr>br_key = packet_key p, br_meta = meta_of (files (FileHash p)), br_shards = sh,
    br_receivers = rs\<rparr>"
proof -
  have "config_DataShards \<le> card (fst ` set sh)"
    using assms(1,3) distinct_card [of "map fst sh"] by (simp add: pooled_def)
  moreover obtain cw where cw: "senders_EncodeBlock rs_New (file_block (files (FileHash p)) (unat (BlockId p))) = Inr cw"
    using assms(2) by (auto simp: genuine_def)
  moreover have "\<forall>(i, c)\<in>set sh. unat i < config_NSymbols \<and> c = cw ! unat i"
    using assms(1,2) cw by (fastforce simp: pooled_def genuine_def packet_key_def)
  ultimately show ?thesis using assms(2) by (auto simp: ready_ok_def packet_key_def genuine_def)
qed

lemma pool_ok_other: "packet_key p \<noteq> key \<Longrightarrow> pool_ok files (insert p seen) key sh m \<longleftrightarrow> pool_ok files seen key sh m"
  by (simp add: pool_ok_def pooled_other)

lemma default_get_update [simp]: "default_get d (m(k := v)) x = (if x = k then (case v of None \<Rightarrow> d | Some y \<Rightarrow> y) else default_get d m x)"
  by (simp add: default_get_def)

text \<open>The pool and the description after a packet of a block that is not complete.\<close>

definition pool_with :: "Packet \<Rightarrow> Aggregator \<Rightarrow> (uint32 \<times> byte list) list" where
  "pool_with p agg = (let sh = default_get [] (pending_shards agg) (packet_key p)
     in if SymbolId p \<notin> fst ` set sh then sh @ [(SymbolId p, Content p)] else sh)"

definition meta_with :: "block_meta \<Rightarrow> Packet \<Rightarrow> Aggregator \<Rightarrow> block_key \<rightharpoonup> block_meta" where
  "meta_with m p agg = (if SymbolId p \<notin> fst ` set (default_get [] (pending_shards agg) (packet_key p))
     then (pending_meta agg)(packet_key p \<mapsto> m) else pending_meta agg)"

definition receivers_with :: "uint32 \<Rightarrow> Packet \<Rightarrow> Aggregator \<Rightarrow> uint32 set" where
  "receivers_with rid p agg = insert rid (default_get {} (contributing_receivers agg) (packet_key p))"

lemma add_packet_eq:
  assumes "genuine rs_New files p" and "packet_key p \<notin> completed agg"
  shows "add_packet rid p agg =
    (let m = meta_with (meta_of (files (FileHash p))) p agg in
     if length (pool_with p agg) < config_DataShards then
       (agg\<lparr>pending_shards := (pending_shards agg)(packet_key p \<mapsto> pool_with p agg), pending_meta := m,
          contributing_receivers := (contributing_receivers agg)(packet_key p \<mapsto> receivers_with rid p agg)\<rparr>, None)
     else
       (agg\<lparr>pending_shards := (pending_shards agg)(packet_key p := None), pending_meta := m(packet_key p := None),
          contributing_receivers := (contributing_receivers agg)(packet_key p := None),
          completed := insert (packet_key p) (completed agg)\<rparr>,
        Some \<lparr>br_key = packet_key p, br_meta = the (m (packet_key p)), br_shards = pool_with p agg,
          br_receivers = receivers_with rid p agg\<rparr>))"
  using assms(2) unfolding add_packet_def Let_def genuine_meta [OF assms(1)] pool_with_def meta_with_def receivers_with_def
  by (simp only: if_False)

lemma meta_with:
  assumes "aggregator_inv files seen agg" "packet_key p \<notin> completed agg"
  shows "meta_with (meta_of (files (FileHash p))) p agg (packet_key p) = Some (meta_of (files (FileHash p)))"
    and "key \<noteq> packet_key p \<Longrightarrow> meta_with m p agg key = pending_meta agg key"
  using aggregator_invD [OF assms] by (auto simp: meta_with_def pool_ok_def packet_key_def)

lemma pooled_with:
  assumes "aggregator_inv files seen agg" "packet_key p \<notin> completed agg" "\<forall>q\<in>insert p seen. genuine rs_New files q"
  shows "pooled (insert p seen) (packet_key p) (pool_with p agg)"
  using aggregator_invD [OF assms(1,2)] unfolding pool_with_def Let_def
  by (intro pooled_insert [OF _ assms(3)]) (simp add: pool_ok_def)

lemma other_pools:
  assumes "aggregator_inv files seen agg" "key \<notin> completed agg" "key \<noteq> packet_key p"
  shows "pool_ok files (insert p seen) key (default_get [] (pending_shards agg) key) (pending_meta agg key)"
  using aggregator_invD [OF assms(1,2)] assms(3) by (simp add: pool_ok_other)

lemma add_packet_inv:
  assumes inv: "aggregator_inv files seen agg" and gen: "\<forall>q\<in>insert p seen. genuine rs_New files q"
    and add: "add_packet rid p agg = (agg', r)"
  shows "aggregator_inv files (insert p seen) agg' \<and>
    (case r of None \<Rightarrow> completed agg' = completed agg
      | Some b \<Rightarrow> br_key b = packet_key p \<and> packet_key p \<notin> completed agg \<and>
          completed agg' = insert (packet_key p) (completed agg) \<and> ready_ok rs_New files b)"
proof (cases "packet_key p \<in> completed agg")
  case True
  with add have "agg' = agg" "r = None" by (simp_all add: add_packet_def)
  moreover have "aggregator_inv files (insert p seen) agg"
    using True other_pools [OF inv] by (intro aggregator_invI) metis
  ultimately show ?thesis by simp
next
  case False
  from gen have p: "genuine rs_New files p" by blast
  note eq = add_packet_eq [OF p False, unfolded Let_def] and meta = meta_with [OF inv False]
  note pool = pooled_with [OF inv False gen] and others = other_pools [OF inv]
  show ?thesis
  proof (cases "length (pool_with p agg) < config_DataShards")
    case True
    with pool have "pool_ok files (insert p seen) (packet_key p) (pool_with p agg) (Some (meta_of (files (FileHash p))))"
      by (simp add: pool_ok_def packet_key_def)
    then have "aggregator_inv files (insert p seen) agg'"
      using True add others unfolding eq by (intro aggregator_invI) (auto simp: meta)
    with True add show ?thesis unfolding eq by auto
  next
    case full: False
    then have "aggregator_inv files (insert p seen) agg'"
      using add others unfolding eq by (intro aggregator_invI) (auto simp: meta)
    moreover have "ready_ok rs_New files (the r)"
      using full add pooled_ready [OF pool gen] unfolding eq by (auto simp: meta)
    ultimately show ?thesis using full False add unfolding eq by auto
  qed
qed

section \<open>Assembly of a block\<close>

lemma BLOCK_SIZE_value: "BLOCK_SIZE = int config_BlockSize"
  by (simp add: BLOCK_SIZE_def config_values)

definition assembled_ok :: "(uint64 \<Rightarrow> byte list) \<Rightarrow> block_assembled \<Rightarrow> bool" where
  "assembled_ok files b \<longleftrightarrow> unat (ba_block_id b) < block_count (files (ba_file_hash b)) \<and>
     ba_total_blocks b = of_nat (block_count (files (ba_file_hash b))) \<and>
     ba_bytes b = file_block (files (ba_file_hash b)) (unat (ba_block_id b))"

text \<open>The last block, cut to what is left of the file, and every other block, which is full, lose their padding.\<close>

lemma trim_block:
  assumes "i < block_count bs"
  shows "(if int i = int (block_count bs) - 1
     then slice_to (int (length bs) - (int (block_count bs) - 1) * BLOCK_SIZE) (pad_to config_BlockSize (file_block bs i))
     else pad_to config_BlockSize (file_block bs i)) = file_block bs i"
proof (cases "Suc i = block_count bs")
  case True
  then have i: "int i = int (block_count bs) - 1" by linarith
  have lt: "i * config_BlockSize < length bs" using assms block_count_iff by blast
  have "length bs \<le> Suc i * config_BlockSize" using block_count_iff [of "Suc i" bs] True by simp
  then have len: "length (file_block bs i) = length bs - i * config_BlockSize" by (simp add: file_block_def min_def)
  have "int (length bs) - int i * BLOCK_SIZE = int (length bs - i * config_BlockSize)"
    using lt by (simp add: BLOCK_SIZE_value)
  then have "slice_to (int (length bs) - int i * BLOCK_SIZE) (pad_to config_BlockSize (file_block bs i)) = file_block bs i"
    unfolding slice_to_def by (simp add: pad_to_def len)
  then show ?thesis using i by simp
next
  case False
  with assms have "Suc i < block_count bs" by simp
  then have "length (file_block bs i) = config_BlockSize" by (rule full_block)
  with False show ?thesis by (simp add: pad_to_def)
qed

lemma reconstruct_ready:
  assumes "rs_library rs_New" "ready_ok rs_New files r"
  obtains data_shards where "rs_client_reconstruct (FromRequest rs_New) r = Inr data_shards"
    "concat data_shards = pad_to config_BlockSize (file_block (files (fst (br_key r))) (unat (snd (br_key r))))"
proof -
  obtain cw where cw: "senders_EncodeBlock rs_New (file_block (files (fst (br_key r))) (unat (snd (br_key r)))) = Inr cw"
      "\<forall>(i, c)\<in>set (br_shards r). unat i < config_NSymbols \<and> c = cw ! unat i"
    using assms(2) by (auto simp: ready_ok_def)
  let ?req = "reconstruct_request r"
  have dims: "Req_KSymbols ?req = of_nat config_DataShards" "Req_NSymbols ?req = of_nat config_NSymbols"
    using assms(2) by (simp_all add: reconstruct_request_def ready_ok_def meta_of_def)
  have shs: "\<forall>s\<in>set (Req_Shards ?req). unat (Shard_SymbolId s) < config_NSymbols \<and> Shard_Content s = cw ! unat (Shard_SymbolId s)"
    using cw(2) by (auto simp: reconstruct_request_def)
  have "(\<lambda>s. unat (Shard_SymbolId s)) ` set (Req_Shards ?req) = unat ` fst ` set (br_shards r)"
    by (force simp: reconstruct_request_def image_iff)
  moreover have "card (unat ` fst ` set (br_shards r)) = card (fst ` set (br_shards r))"
    by (intro card_image) (auto simp: inj_on_def word_unat_eq_iff)
  ultimately have enough: "config_DataShards \<le> card ((\<lambda>s. unat (Shard_SymbolId s)) ` set (Req_Shards ?req))"
    using assms(2) by (simp add: ready_ok_def)
  from FromRequest_codeword [OF assms(1) cw(1) dims shs enough] that show thesis
    by (simp add: rs_client_reconstruct_def)
qed

lemma handle_block_ready_ok:
  assumes "rs_library rs_New" "ready_ok rs_New files r" "block_count (files (fst (br_key r))) < 2 ^ 32"
    and "length (files (fst (br_key r))) < 2 ^ 64"
  obtains b where "handle_block_ready (FromRequest rs_New) r = Some b" "assembled_ok files b"
    "ba_file_hash b = fst (br_key r)" "ba_block_id b = snd (br_key r)"
proof -
  let ?bs = "files (fst (br_key r))" and ?i = "unat (snd (br_key r))"
  obtain data_shards where rec: "rs_client_reconstruct (FromRequest rs_New) r = Inr data_shards"
    "concat data_shards = pad_to config_BlockSize (file_block ?bs ?i)"
    using reconstruct_ready [OF assms(1,2)] .
  have lt: "?i < block_count ?bs" and m: "br_meta r = meta_of ?bs" using assms(2) by (simp_all add: ready_ok_def)
  have tot: "uint (of_nat (block_count ?bs) :: uint32) = int (block_count ?bs)"
    using assms(3) by (rule uint32)
  have sz: "uint (of_nat (length ?bs) :: uint64) = int (length ?bs)"
    using assms(4) by (simp add: unsigned_of_nat take_bit_nat_eq_self)
  have id: "uint (snd (br_key r)) = int ?i" by (rule uint_nat)
  define b where "b = \<lparr>ba_file_hash = fst (br_key r), ba_block_id = snd (br_key r),
    ba_total_blocks = of_nat (block_count ?bs), ba_bytes = file_block ?bs ?i, ba_receivers = br_receivers r\<rparr>"
  have "handle_block_ready (FromRequest rs_New) r = Some b"
    using trim_block [OF lt] by (simp only: handle_block_ready_def rec m meta_of_def block_meta.select_convs tot sz id
        Let_def sum.case b_def)
  with that [of b] lt show thesis by (simp add: b_def assembled_ok_def)
qed

section \<open>Collection of a file\<close>

definition tracked_ok :: "byte list \<Rightarrow> (uint32 \<times> byte list) list \<Rightarrow> bool" where
  "tracked_ok bs bl \<longleftrightarrow> distinct (map fst bl) \<and>
     (\<forall>(i, b)\<in>set bl. unat i < block_count bs \<and> b = file_block bs (unat i))"

definition tracker_inv :: "(uint64 \<Rightarrow> byte list) \<Rightarrow> FileTracker \<Rightarrow> bool" where
  "tracker_inv files tr \<longleftrightarrow> (\<forall>h. tracked_ok (files h) (default_get [] (tracked_blocks tr) h) \<and>
     (0 < block_count (files h) \<longrightarrow> length (default_get [] (tracked_blocks tr) h) < block_count (files h)))"

text \<open>The tracker has a block when the file is finished or the block is kept.\<close>

definition tracker_has :: "FileTracker \<Rightarrow> block_key \<Rightarrow> bool" where
  "tracker_has tr key \<longleftrightarrow> fst key \<in> completed_files tr \<or> snd key \<in> fst ` set (default_get [] (tracked_blocks tr) (fst key))"

lemma set_update_subset: "set (AList.update k v al) \<subseteq> insert (k, v) (set al)"
  by (induction al) auto

lemma fst_set_update: "fst ` set (AList.update k v al) = insert k (fst ` set al)"
  by (induction al) auto

lemma tracked_ok_Nil [simp]: "tracked_ok bs []"
  by (simp add: tracked_ok_def)

lemma tracked_update:
  assumes "tracked_ok bs bl" "unat i < block_count bs"
  shows "tracked_ok bs (AList.update i (file_block bs (unat i)) bl)"
  using assms set_update_subset [of i "file_block bs (unat i)" bl]
  by (fastforce simp: tracked_ok_def distinct_update)

lemma tracked_keys:
  assumes "tracked_ok bs bl" "block_count bs < 2 ^ 32"
  shows "length bl \<le> block_count bs"
    and "block_count bs \<le> length bl \<Longrightarrow> fst ` set bl = of_nat ` {..<block_count bs}"
proof -
  have sub: "fst ` set bl \<subseteq> of_nat ` {..<block_count bs}"
  proof
    fix i
    assume "i \<in> fst ` set bl"
    then have "unat i < block_count bs" using assms(1) by (auto simp: tracked_ok_def)
    then show "i \<in> of_nat ` {..<block_count bs}" by (intro image_eqI [of _ _ "unat i"]) simp_all
  qed
  have card: "card (fst ` set bl) = length bl"
    using assms(1) distinct_card [of "map fst bl"] by (simp add: tracked_ok_def)
  have le: "card (of_nat ` {..<block_count bs} :: uint32 set) \<le> block_count bs"
    using card_image_le [of "{..<block_count bs}" "of_nat :: nat \<Rightarrow> uint32"] by simp
  from card_mono [OF _ sub] card le show "length bl \<le> block_count bs" by simp
  show "fst ` set bl = of_nat ` {..<block_count bs}" if "block_count bs \<le> length bl"
    using card_subset_eq [OF _ sub] card_mono [OF _ sub] card le that by simp
qed

lemma join_tracked:
  assumes "tracked_ok bs bl" "block_count bs < 2 ^ 32" "block_count bs \<le> length bl"
  shows "join_blocks (block_count bs) bl = Some bs"
proof -
  have at: "map_of bl (of_nat i) = Some (file_block bs i)" if "i < block_count bs" for i
  proof -
    have "of_nat i \<in> fst ` set bl" using tracked_keys(2) [OF assms] that by blast
    then obtain b where b: "(of_nat i, b) \<in> set bl" by auto
    then have "map_of bl (of_nat i) = Some b" using assms(1) by (simp add: tracked_ok_def map_of_is_SomeI)
    moreover have "b = file_block bs i" using assms(1,2) b that unat32 [of i] by (fastforce simp: tracked_ok_def)
    ultimately show ?thesis by simp
  qed
  then have "concat (map (\<lambda>i. the (map_of bl (of_nat i))) [0..<block_count bs]) = concat (map (file_block bs) [0..<block_count bs])"
    by (intro arg_cong [where f = concat] map_cong) simp_all
  with at show ?thesis by (simp add: join_blocks_def blocks_whole)
qed

lemma handle_block_assembled_inv:
  assumes inv: "tracker_inv files tr" and ok: "assembled_ok files b"
    and small: "block_count (files (ba_file_hash b)) < 2 ^ 32"
    and eq: "handle_block_assembled b tr = (tr', res)"
  shows "tracker_inv files tr' \<and> tracker_has tr' (ba_file_hash b, ba_block_id b) \<and>
    (\<forall>key. tracker_has tr key \<longrightarrow> tracker_has tr' key) \<and>
    (case res of KeyError \<Rightarrow> False | Incomplete \<Rightarrow> completed_files tr' = completed_files tr
      | Complete h bytes rs \<Rightarrow> h = ba_file_hash b \<and> bytes = files h \<and> h \<notin> completed_files tr \<and>
          completed_files tr' = insert h (completed_files tr))"
proof (cases "ba_file_hash b \<in> completed_files tr")
  case True
  with eq inv show ?thesis by (auto simp: handle_block_assembled_def tracker_has_def)
next
  case False
  let ?h = "ba_file_hash b"
  let ?bl = "AList.update (ba_block_id b) (ba_bytes b) (default_get [] (tracked_blocks tr) ?h)"
  have tot: "unat (ba_total_blocks b) = block_count (files ?h)" using ok small by (simp add: assembled_ok_def unat32)
  have bl: "tracked_ok (files ?h) ?bl"
    using inv ok tracked_update [of "files ?h" _ "ba_block_id b"] by (simp add: tracker_inv_def assembled_ok_def)
  show ?thesis
  proof (cases "length ?bl < block_count (files ?h)")
    case True
    with False eq inv bl show ?thesis
      by (auto simp: handle_block_assembled_def tot Let_def tracker_inv_def tracker_has_def fst_set_update
          split: if_splits) (metis fst_conv imageI)+
  next
    case full: False
    with join_tracked [OF bl small] have "join_blocks (block_count (files ?h)) ?bl = Some (files ?h)" by simp
    with full False eq inv show ?thesis
      by (auto simp: handle_block_assembled_def tot Let_def tracker_inv_def tracker_has_def)
  qed
qed

section \<open>Reading the receivers' connections\<close>

text \<open>
  \<open>receiver_server.py\<close>: \<open>_recv_exact\<close> gives the bytes, \<open>None\<close> when the peer has closed (even in the middle), and
  raises on a socket error; \<open>_read_batch\<close> reads one frame and parses it; the loop of \<open>_handle_connection\<close> passes every
  batch on and ends when the peer closes or on an exception, of which only socket errors are caught.
\<close>

definition recv_exact :: "nat \<Rightarrow> conn \<Rightarrow> ((byte list \<times> conn) option) res" where
  "recv_exact n c =
     (if n \<le> length (rx c) then Inr (Some (take n (rx c), c\<lparr>rx := drop n (rx c)\<rparr>))
      else if rx_end c = EOF then Inr None else Inl (rx_end c))"

datatype batch_read = Batch SymbolBatch conn | PeerClosed | SocketError error | DecodeError error

definition read_batch :: "(byte list \<Rightarrow> SymbolBatch res) \<Rightarrow> conn \<Rightarrow> batch_read" where
  "read_batch unmarshal c =
     (case recv_exact 4 c of
        Inl err \<Rightarrow> SocketError err
      | Inr None \<Rightarrow> PeerClosed
      | Inr (Some (header, c)) \<Rightarrow>
          (case recv_exact (unat (BigEndian_Uint32 header)) c of
             Inl err \<Rightarrow> SocketError err
           | Inr None \<Rightarrow> PeerClosed
           | Inr (Some (payload, c)) \<Rightarrow>
               (case unmarshal payload of
                  Inl err \<Rightarrow> DecodeError err
                | Inr b \<Rightarrow> Batch b c)))"

lemma recv_exact_Some: "recv_exact n c = Inr (Some (bs, c')) \<Longrightarrow> length (rx c') + n = length (rx c)"
  by (auto simp: recv_exact_def split: if_splits)

lemma read_batch_consumes: "read_batch unmarshal c = Batch b c' \<Longrightarrow> length (rx c') < length (rx c)"
  by (auto simp: read_batch_def split: sum.splits option.splits prod.splits dest!: recv_exact_Some)

datatype connection_end = Disconnected | Uncaught error

function handle_connection :: "(byte list \<Rightarrow> SymbolBatch res) \<Rightarrow> conn \<Rightarrow> SymbolBatch list \<times> connection_end" where
  "handle_connection unmarshal c =
     (case read_batch unmarshal c of
        Batch b c' \<Rightarrow> (case handle_connection unmarshal c' of (bs, e) \<Rightarrow> (b # bs, e))
      | PeerClosed \<Rightarrow> ([], Disconnected)
      | SocketError err \<Rightarrow> ([], Disconnected)
      | DecodeError err \<Rightarrow> ([], Uncaught err))"
  by pat_completeness auto
termination
  by (relation "measure (\<lambda>(_, c). length (rx c))") (auto dest: read_batch_consumes)

declare handle_connection.simps [simp del]

lemma read_batch_frame:
  assumes "rx c = frame p @ rest" "length p < 2 ^ 32" "unmarshal p = Inr b"
  shows "read_batch unmarshal c = Batch b (c\<lparr>rx := rest\<rparr>)"
proof -
  have "recv_exact 4 c = Inr (Some (BigEndian_PutUint32 (of_nat (length p)), c\<lparr>rx := p @ rest\<rparr>))"
    using assms(1) by (simp add: recv_exact_def frame_def)
  then show ?thesis using assms(2,3) frame_length [OF assms(2)] by (simp add: read_batch_def recv_exact_def)
qed

lemma read_batch_truncated:
  assumes "rx c = take n (frame p)" "n < length (frame p)" "length p < 2 ^ 32" "rx_end c = EOF"
  shows "read_batch unmarshal c = PeerClosed"
proof (cases "n < 4")
  case True
  with assms show ?thesis by (simp add: read_batch_def recv_exact_def)
next
  case False
  with assms have "rx c = BigEndian_PutUint32 (of_nat (length p)) @ take (n - 4) p" by (simp add: frame_def)
  moreover from False assms(2) have "n - 4 < length p" by (simp add: frame_def)
  ultimately show ?thesis using frame_length [OF assms(3)] assms(4) by (simp add: read_batch_def recv_exact_def)
qed

lemma handle_connection_frames:
  "\<forall>p\<in>set ps. length p < 2 ^ 32 \<and> unmarshal p = Inr (f p) \<Longrightarrow>
   rx c = concat (map frame ps) @ take n (frame q) \<Longrightarrow> n < length (frame q) \<Longrightarrow> length q < 2 ^ 32 \<Longrightarrow> rx_end c = EOF \<Longrightarrow>
   handle_connection unmarshal c = (map f ps, Disconnected)"
proof (induction ps arbitrary: c)
  case Nil
  then show ?case by (subst handle_connection.simps) (simp add: read_batch_truncated)
next
  case (Cons p ps)
  let ?c = "c\<lparr>rx := concat (map frame ps) @ take n (frame q)\<rparr>"
  have "read_batch unmarshal c = Batch (f p) ?c" using Cons.prems by (intro read_batch_frame [where p = p]) auto
  moreover have "handle_connection unmarshal ?c = (map f ps, Disconnected)" using Cons.prems by (intro Cons.IH) simp_all
  ultimately show ?case by (subst handle_connection.simps) simp
qed

lemma handle_connection_socket:
  assumes "broken_socket ps c" "\<forall>p\<in>set ps. unmarshal p = Inr (f p)"
  shows "handle_connection unmarshal (peer c) = (map f ps, Disconnected)"
proof -
  from assms(1) obtain q n where "tx c = concat (map frame ps) @ take n (frame q)" "n < length (frame q)" "length q < 2 ^ 32"
      "\<forall>p\<in>set ps. length p < 2 ^ 32" by (auto simp: broken_socket_def)
  with assms(2) show ?thesis by (intro handle_connection_frames) (auto simp: peer_def)
qed



section \<open>Every block is handed over once\<close>

text \<open>
  Packets of all receivers in the order in which the lock lets them in; a list of batches is enough for that, since a batch
  may hold a single packet.
\<close>

fun handle_batches :: "SymbolBatch list \<Rightarrow> Aggregator \<Rightarrow> Aggregator \<times> block_ready list" where
  "handle_batches [] agg = (agg, [])"
| "handle_batches (b # bs) agg =
     (case handle_batch b agg of (agg, rs) \<Rightarrow> (case handle_batches bs agg of (agg, rs') \<Rightarrow> (agg, rs @ rs')))"

text \<open>Pools never hold a symbol twice, and have a description when they are not empty.\<close>

definition pools_inv :: "Aggregator \<Rightarrow> bool" where
  "pools_inv agg \<longleftrightarrow> (\<forall>key sh. pending_shards agg key = Some sh \<longrightarrow> distinct (map fst sh) \<and> (sh \<noteq> [] \<longrightarrow> pending_meta agg key \<noteq> None))"

definition handed_over :: "Aggregator \<Rightarrow> block_ready list \<Rightarrow> Aggregator \<Rightarrow> bool" where
  "handed_over agg rs agg' \<longleftrightarrow> pools_inv agg' \<and> distinct (map br_key rs) \<and> set (map br_key rs) \<inter> completed agg = {} \<and>
     completed agg' = completed agg \<union> set (map br_key rs) \<and>
     (\<forall>r\<in>set rs. distinct (map fst (br_shards r)) \<and> br_shards r \<noteq> [])"

lemma handed_over_trans: "handed_over agg rs agg1 \<Longrightarrow> handed_over agg1 rs' agg' \<Longrightarrow> handed_over agg (rs @ rs') agg'"
  unfolding handed_over_def by auto

lemma add_packet_hands_over:
  assumes "pools_inv agg" "add_packet rid p agg = (agg', r)"
  shows "handed_over agg (case r of None \<Rightarrow> [] | Some b \<Rightarrow> [b]) agg'"
proof (cases "packet_key p \<in> completed agg")
  case True
  with assms show ?thesis by (auto simp: add_packet_def handed_over_def)
next
  case False
  let ?sh = "default_get [] (pending_shards agg) (packet_key p)"
  have "distinct (map fst ?sh)" "?sh \<noteq> [] \<Longrightarrow> pending_meta agg (packet_key p) \<noteq> None"
    using assms(1) by (auto simp: pools_inv_def default_get_def simp del: split_paired_All split: option.splits)
  with False assms show ?thesis
    by (auto simp: add_packet_def handed_over_def pools_inv_def Let_def split: if_splits)
qed

lemma handle_packets_hands_over:
  "pools_inv agg \<Longrightarrow> handle_packets rid ps agg = (agg', rs) \<Longrightarrow> handed_over agg rs agg'"
proof (induction ps arbitrary: agg rs)
  case Nil
  then show ?case by (simp add: handed_over_def)
next
  case (Cons p ps)
  obtain agg1 r where 1: "add_packet rid p agg = (agg1, r)" by fastforce
  obtain rs1 where 2: "handle_packets rid ps agg1 = (agg', rs1)" "rs = (case r of None \<Rightarrow> [] | Some b \<Rightarrow> [b]) @ rs1"
    using Cons.prems(2) 1 by (auto split: prod.splits option.splits)
  note hands = add_packet_hands_over [OF Cons.prems(1) 1]
  then have "pools_inv agg1" by (simp add: handed_over_def)
  from handed_over_trans [OF hands Cons.IH [OF this 2(1)]] show ?case unfolding 2(2) .
qed

text \<open>The aggregator hands every block over at most once, whichever receivers report its symbols, in whatever order and
  however often, and whatever the packets claim: the blocks handed over are distinct, they are exactly the completed ones,
  and each comes with symbols of distinct numbers, at least one.\<close>

lemma each_block_ready_once:
  assumes "handle_batches bs empty_aggregator = (agg, rs)"
  shows "distinct (map br_key rs) \<and> completed agg = set (map br_key rs) \<and>
    (\<forall>r\<in>set rs. distinct (map fst (br_shards r)) \<and> br_shards r \<noteq> [])"
proof -
  have "handed_over agg0 rs agg" if "pools_inv agg0" "handle_batches bs agg0 = (agg, rs)" for agg0
    using that
  proof (induction bs arbitrary: agg0 rs)
    case Nil
    then show ?case by (simp add: handed_over_def)
  next
    case (Cons b bs)
    obtain agg1 rs1 where 1: "handle_batch b agg0 = (agg1, rs1)" by fastforce
    obtain rs2 where 2: "handle_batches bs agg1 = (agg, rs2)" "rs = rs1 @ rs2"
      using Cons.prems(2) 1 by (auto split: prod.splits)
    have hands: "handed_over agg0 rs1 agg1"
      using handle_packets_hands_over [OF Cons.prems(1)] 1 by (simp add: handle_batch_def)
    then have "pools_inv agg1" by (simp add: handed_over_def)
    from handed_over_trans [OF hands Cons.IH [OF this 2(1)]] show ?case unfolding 2(2) .
  qed
  from this [OF _ assms] show ?thesis by (simp add: handed_over_def pools_inv_def empty_aggregator_def)
qed

text \<open>The witness: two symbols are needed; the second receiver repeats the first symbol and then completes the block.\<close>

definition two_symbols :: "uint32 \<Rightarrow> Packet" where
  "two_symbols i = \<lparr>FileHash = 1, BlockId = 0, TotalBlocks = 1, SymbolId = i, KSymbols = 2, NSymbols = 3, FileSize = 2,
     Content = [5], PacketCrc = 0\<rparr>"

lemma each_block_ready_once_witness:
  "\<exists>agg r. handle_batches [\<lparr>ReceiverId = 1, SB_Packets = [two_symbols 0]\<rparr>,
       \<lparr>ReceiverId = 2, SB_Packets = [two_symbols 0, two_symbols 2, two_symbols 1]\<rparr>] empty_aggregator = (agg, [r]) \<and>
     br_key r = (1, 0) \<and> map fst (br_shards r) = [0, 2] \<and> br_receivers r = {1, 2} \<and> completed agg = {(1, 0)}"
proof -
  let ?bs = "[\<lparr>ReceiverId = 1, SB_Packets = [two_symbols 0]\<rparr>,
       \<lparr>ReceiverId = 2, SB_Packets = [two_symbols 0, two_symbols 2, two_symbols 1]\<rparr>]"
  obtain agg r where run: "handle_batches ?bs empty_aggregator = (agg, [r])" "br_key r = (1, 0)"
      "map fst (br_shards r) = [0, 2]" "br_receivers r = {1, 2}"
    by (auto simp: handle_batch_def add_packet_def packet_key_def two_symbols_def empty_aggregator_def default_get_def Let_def)
  with each_block_ready_once [OF run(1)] show ?thesis by (intro exI [of _ agg] exI [of _ r]) simp
qed

end
