(* ===== verification/File_Monitor.thy ===== *)
theory File_Monitor
  imports Session_Manager
begin

text \<open>
  The file monitor, \<open>file-monitor/src/*.py\<close>: the content hash of a file and the watcher's filter, and the orchestrator that
  hands files to the senders. Dicts are association lists in insertion order. The loop of \<open>run\<close> is a step relation:
  heartbeats and new files arrive between its rounds of \<open>_sync_states\<close> and \<open>_dispatch_tasks\<close>.
\<close>

section \<open>Hashing and watching\<close>

record FileMetadata =
  file_path :: string
  file_name :: string
  meta_file_size :: int
  file_hash :: uint64

definition BUFFER_CHUNK_SIZE :: nat where
  "BUFFER_CHUNK_SIZE = 64 * 1024"

text \<open>
  The read loop of \<open>compute_file_hash\<close>. \<open>os.read\<close> returns at least one byte of what is left and at most
  \<open>BUFFER_CHUNK_SIZE\<close>; how many is the parameter \<open>avail\<close>.
\<close>

function hash_loop :: "('h \<Rightarrow> byte list \<Rightarrow> 'h) \<Rightarrow> (byte list \<Rightarrow> nat) \<Rightarrow> 'h \<Rightarrow> byte list \<Rightarrow> 'h" where
  "hash_loop update avail hasher bs =
     (if bs = [] then hasher
      else (let n = max 1 (min BUFFER_CHUNK_SIZE (avail bs))
            in hash_loop update avail (update hasher (take n bs)) (drop n bs)))"
  by pat_completeness auto
termination
  by (relation "measure (\<lambda>(_, _, _, bs). length bs)") auto

declare hash_loop.simps [simp del]

definition compute_file_hash ::
  "'h \<Rightarrow> ('h \<Rightarrow> byte list \<Rightarrow> 'h) \<Rightarrow> ('h \<Rightarrow> byte list) \<Rightarrow> (byte list \<Rightarrow> nat) \<Rightarrow> byte list \<Rightarrow> uint64" where
  "compute_file_hash sha256_new update digest avail bs = le_word (rev (take 8 (digest (hash_loop update avail sha256_new bs))))"

definition process_file :: "(string \<Rightarrow> string) \<Rightarrow> (byte list \<Rightarrow> uint64) \<Rightarrow> string \<Rightarrow> byte list \<Rightarrow> FileMetadata" where
  "process_file basename hash path bs =
     \<lparr>file_path = path, file_name = basename path, meta_file_size = int (length bs), file_hash = hash bs\<rparr>"

text \<open>One inotify event: directories, vanished files and empty files are skipped. The file is taken not to change while its event
  is handled.\<close>

record inotify_event =
  ev_isdir :: bool
  ev_name :: string

definition watch_event ::
  "(string \<Rightarrow> string) \<Rightarrow> (byte list \<Rightarrow> uint64) \<Rightarrow> (string \<Rightarrow> byte list option) \<Rightarrow> string \<Rightarrow> inotify_event \<Rightarrow> FileMetadata list" where
  "watch_event basename hash fs watch_dir event =
     (if ev_isdir event then []
      else let full_path = watch_dir @ ''/'' @ ev_name event
           in case fs full_path of
                None \<Rightarrow> []
              | Some bs \<Rightarrow> if length bs = 0 then [] else [process_file basename hash full_path bs])"

section \<open>Orchestrator\<close>

type_synonym sender_id = nat

record Orchestrator =
  task_queue :: "FileMetadata list"
  sender_states :: "(sender_id \<times> SenderState) list"
  active_transfers :: "(string \<times> sender_id list) list"
  current_large_file :: "FileMetadata option"
  finished_large_file_senders :: "sender_id set"
  sent_tasks :: "(sender_id \<times> TaskAssignment) list"

definition TEN_MB_BYTES :: int where
  "TEN_MB_BYTES = 10 * 1024 * 1024"

definition is_current :: "Orchestrator \<Rightarrow> string \<Rightarrow> bool" where
  "is_current orch path = (case current_large_file orch of None \<Rightarrow> False | Some f \<Rightarrow> file_path f = path)"

definition working :: "(sender_id \<times> SenderState) list \<Rightarrow> sender_id \<Rightarrow> bool" where
  "working states sock \<longleftrightarrow> map_of states sock = Some WORKING"

text \<open>\<open>_sync_states\<close>: the loop over the transfers, then the removal of the completed ones.\<close>

definition sync_transfers :: "Orchestrator \<Rightarrow> Orchestrator" where
  "sync_transfers orch = orch\<lparr>
     active_transfers := map (\<lambda>(path, socks). (path, filter (working (sender_states orch)) socks)) (active_transfers orch),
     finished_large_file_senders := finished_large_file_senders orch \<union>
       set (concat (map (\<lambda>(path, socks). filter (\<lambda>s. \<not> working (sender_states orch) s) socks)
         (filter (\<lambda>(path, socks). is_current orch path) (active_transfers orch))))\<rparr>"

definition remove_completed :: "Orchestrator \<Rightarrow> Orchestrator" where
  "remove_completed orch =
     (let completed_paths = map fst (filter (\<lambda>(path, socks). socks = []) (active_transfers orch));
          cleared = (\<exists>path\<in>set completed_paths. is_current orch path)
      in orch\<lparr>active_transfers := filter (\<lambda>(path, socks). socks \<noteq> []) (active_transfers orch),
           current_large_file := (if cleared then None else current_large_file orch),
           finished_large_file_senders := (if cleared then {} else finished_large_file_senders orch)\<rparr>)"

definition sync_states :: "Orchestrator \<Rightarrow> Orchestrator" where
  "sync_states orch = remove_completed (sync_transfers orch)"

text \<open>
  \<open>_assign_task\<close>. The parameter \<open>socks_open\<close> holds the senders that \<open>connect_to_senders\<close> reached; for any other the lookup in
  \<open>_send_framed\<close> gives \<open>None\<close>, whose \<open>sendall\<close> raises (no result). What is noted after the send is \<open>note_assignment\<close>; the
  send itself, byte by byte, is in theory \<open>Monitor_Link\<close>.
\<close>

definition note_assignment :: "sender_id \<Rightarrow> FileMetadata \<Rightarrow> Orchestrator \<Rightarrow> Orchestrator" where
  "note_assignment sock metadata orch = orch\<lparr>
     sent_tasks := sent_tasks orch @ [(sock, \<lparr>FilePath = file_path metadata, Task_FileHash = file_hash metadata\<rparr>)],
     sender_states := AList.update sock WORKING (sender_states orch),
     active_transfers := AList.update (file_path metadata)
       ((case map_of (active_transfers orch) (file_path metadata) of None \<Rightarrow> [] | Some socks \<Rightarrow> socks) @ [sock])
       (active_transfers orch)\<rparr>"

definition assign_task :: "sender_id set \<Rightarrow> sender_id \<Rightarrow> FileMetadata \<Rightarrow> Orchestrator \<Rightarrow> Orchestrator option" where
  "assign_task socks_open sock metadata orch =
     (if sock \<notin> socks_open then None else Some (note_assignment sock metadata orch))"

fun assign_all :: "sender_id set \<Rightarrow> sender_id list \<Rightarrow> FileMetadata \<Rightarrow> Orchestrator \<Rightarrow> Orchestrator option" where
  "assign_all socks_open [] metadata orch = Some orch"
| "assign_all socks_open (sock # socks) metadata orch =
     (case assign_task socks_open sock metadata orch of
        None \<Rightarrow> None
      | Some orch \<Rightarrow> assign_all socks_open socks metadata orch)"

definition idle_sockets :: "Orchestrator \<Rightarrow> sender_id list" where
  "idle_sockets orch = map fst (filter (\<lambda>(sock, state). state = IDLE) (sender_states orch))"

definition dispatch_tasks :: "sender_id set \<Rightarrow> Orchestrator \<Rightarrow> Orchestrator option" where
  "dispatch_tasks socks_open orch =
     (let idle = idle_sockets orch in
      if idle = [] then Some orch
      else
        (case current_large_file orch of
           Some f \<Rightarrow> assign_all socks_open (filter (\<lambda>sock. sock \<notin> finished_large_file_senders orch) idle) f orch
         | None \<Rightarrow>
             (case task_queue orch of
                [] \<Rightarrow> Some orch
              | metadata # queue \<Rightarrow>
                  if meta_file_size metadata < TEN_MB_BYTES
                  then assign_task socks_open (hd idle) metadata (orch\<lparr>task_queue := queue\<rparr>)
                  else assign_all socks_open idle metadata
                    (orch\<lparr>task_queue := queue, current_large_file := Some metadata\<rparr>))))"

text \<open>A heartbeat sets the state of its sender (\<open>_handle_read\<close>).\<close>

definition handle_heartbeat :: "sender_id \<Rightarrow> SenderState \<Rightarrow> Orchestrator \<Rightarrow> Orchestrator" where
  "handle_heartbeat sock state orch = orch\<lparr>sender_states := AList.update sock state (sender_states orch)\<rparr>"

definition start_orchestrator :: "sender_id list \<Rightarrow> Orchestrator" where
  "start_orchestrator ids = \<lparr>task_queue = [], sender_states = map (\<lambda>i. (i, IDLE)) ids, active_transfers = [],
     current_large_file = None, finished_large_file_senders = {}, sent_tasks = []\<rparr>"

text \<open>
  Steps of the monitor. The second component of the state lists the senders that have been given the current large file,
  since it became current.
\<close>

definition new_helpers :: "Orchestrator \<Rightarrow> Orchestrator \<Rightarrow> sender_id list" where
  "new_helpers before after = map fst (drop (length (sent_tasks before)) (sent_tasks after))"

inductive mstep :: "sender_id set \<Rightarrow> Orchestrator \<times> sender_id list \<Rightarrow> Orchestrator \<times> sender_id list \<Rightarrow> bool" for socks_open where
  file_queued: "mstep socks_open (orch, hs) (orch\<lparr>task_queue := task_queue orch @ [metadata]\<rparr>, hs)"
| heartbeat: "sock \<in> fst ` set (sender_states orch) \<Longrightarrow> mstep socks_open (orch, hs) (handle_heartbeat sock state orch, hs)"
| round: "orch1 = sync_states orch \<Longrightarrow> dispatch_tasks socks_open orch1 = Some orch2 \<Longrightarrow>
    mstep socks_open (orch, hs)
      (orch2, if current_large_file orch2 = None then []
              else (if current_large_file orch1 = None then [] else hs) @ new_helpers orch1 orch2)"

inductive mreachable :: "sender_id list \<Rightarrow> sender_id set \<Rightarrow> Orchestrator \<times> sender_id list \<Rightarrow> bool" for ids socks_open where
  start: "mreachable ids socks_open (start_orchestrator ids, [])"
| step: "mreachable ids socks_open s \<Longrightarrow> mstep socks_open s s' \<Longrightarrow> mreachable ids socks_open s'"

section \<open>The two hashes agree\<close>

text \<open>What \<open>hashlib\<close> promises: updates in pieces are one update with their concatenation.\<close>

locale incremental_hash =
  fixes sha256_new :: 'h
    and update :: "'h \<Rightarrow> byte list \<Rightarrow> 'h"
    and digest :: "'h \<Rightarrow> byte list"
    and sha256 :: "byte list \<Rightarrow> byte list"
  assumes digest_pieces: "digest (foldl update sha256_new pieces) = sha256 (concat pieces)"
begin

lemma hash_loop_pieces: "\<exists>pieces. hash_loop update avail h bs = foldl update h pieces \<and> concat pieces = bs"
proof (induction update avail h bs rule: hash_loop.induct)
  case (1 update avail hasher bs)
  show ?case
  proof (cases "bs = []")
    case True
    then show ?thesis by (intro exI [of _ "[]"]) (simp add: hash_loop.simps)
  next
    case False
    let ?n = "max 1 (min BUFFER_CHUNK_SIZE (avail bs))"
    from 1 [OF False refl] obtain pieces where
      "hash_loop update avail (update hasher (take ?n bs)) (drop ?n bs) = foldl update (update hasher (take ?n bs)) pieces"
      "concat pieces = drop ?n bs" by blast
    with False show ?thesis by (intro exI [of _ "take ?n bs # pieces"]) (subst hash_loop.simps, simp add: Let_def)
  qed
qed

lemma file_hash_reference: "compute_file_hash sha256_new update digest avail bs = compute_reference_hash sha256 bs"
proof -
  obtain pieces where "hash_loop update avail sha256_new bs = foldl update sha256_new pieces" "concat pieces = bs"
    using hash_loop_pieces by blast
  then show ?thesis using digest_pieces [of pieces] by (simp add: compute_file_hash_def compute_reference_hash_def)
qed

end

text \<open>A hasher that collects its input meets the contract, for every hash function.\<close>

interpretation collecting: incremental_hash "[]" "(@)" sha256 sha256 for sha256
proof
  have "foldl (@) xs pieces = xs @ concat pieces" for xs :: "byte list" and pieces
    by (induction pieces arbitrary: xs) simp_all
  then show "sha256 (foldl (@) [] pieces) = sha256 (concat pieces)" for pieces by simp
qed

section \<open>Dispatching\<close>

lemma map_of_update: "map_of (AList.update k v al) = (map_of al)(k \<mapsto> v)"
  by (rule update_conv')

definition assigned :: "FileMetadata \<Rightarrow> sender_id list \<Rightarrow> Orchestrator \<Rightarrow> Orchestrator \<Rightarrow> bool" where
  "assigned m socks orch orch' \<longleftrightarrow>
     sent_tasks orch' = sent_tasks orch @ map (\<lambda>s. (s, \<lparr>FilePath = file_path m, Task_FileHash = file_hash m\<rparr>)) socks \<and>
     (\<forall>s. map_of (sender_states orch') s = (if s \<in> set socks then Some WORKING else map_of (sender_states orch) s)) \<and>
     (\<forall>path. map_of (active_transfers orch') path = (if path = file_path m \<and> socks \<noteq> []
        then Some ((case map_of (active_transfers orch) path of None \<Rightarrow> [] | Some x \<Rightarrow> x) @ socks)
        else map_of (active_transfers orch) path)) \<and>
     task_queue orch' = task_queue orch \<and> current_large_file orch' = current_large_file orch \<and>
     finished_large_file_senders orch' = finished_large_file_senders orch \<and>
     (distinct (map fst (sender_states orch)) \<longrightarrow> distinct (map fst (sender_states orch'))) \<and>
     (distinct (map fst (active_transfers orch)) \<longrightarrow> distinct (map fst (active_transfers orch')))"

lemma assign_task_assigned: "assign_task socks_open s m orch = Some orch' \<Longrightarrow> assigned m [s] orch orch'"
  by (auto simp: assign_task_def note_assignment_def assigned_def map_of_update distinct_update split: if_splits option.splits)

lemma assigned_trans: "assigned m socks orch orch1 \<Longrightarrow> assigned m socks' orch1 orch' \<Longrightarrow> assigned m (socks @ socks') orch orch'"
  unfolding assigned_def by (auto split: option.splits)

lemma assign_all_assigned: "assign_all socks_open socks m orch = Some orch' \<Longrightarrow> assigned m socks orch orch'"
proof (induction socks arbitrary: orch)
  case Nil
  then show ?case by (simp add: assigned_def)
next
  case (Cons s socks)
  then obtain orch1 where "assign_task socks_open s m orch = Some orch1" "assign_all socks_open socks m orch1 = Some orch'"
    by (auto split: option.splits)
  from assigned_trans [OF assign_task_assigned [OF this(1)] Cons.IH [OF this(2)]] show ?case by simp
qed

lemma idle_sockets_idle:
  assumes "distinct (map fst (sender_states orch))"
  shows "s \<in> set (idle_sockets orch) \<Longrightarrow> map_of (sender_states orch) s = Some IDLE" "distinct (idle_sockets orch)"
  using assms by (auto simp: idle_sockets_def map_of_is_SomeI distinct_map distinct_filter intro: inj_on_subset)

lemma assign_all_None: "assign_all socks_open socks m orch = None \<longleftrightarrow> \<not> set socks \<subseteq> socks_open"
  by (induction socks arbitrary: orch) (auto simp: assign_task_def split: option.splits)

text \<open>The file a round hands out, to whom, and what it does to the queue.\<close>

definition targets :: "Orchestrator \<Rightarrow> sender_id list" where
  "targets orch = (case current_large_file orch of
     Some f \<Rightarrow> filter (\<lambda>s. s \<notin> finished_large_file_senders orch) (idle_sockets orch)
   | None \<Rightarrow> (case task_queue orch of [] \<Rightarrow> []
       | m # q \<Rightarrow> if meta_file_size m < TEN_MB_BYTES then take 1 (idle_sockets orch) else idle_sockets orch))"

lemma targets_idle: "set (targets orch) \<subseteq> set (idle_sockets orch)" "distinct (idle_sockets orch) \<Longrightarrow> distinct (targets orch)"
  by (auto simp: targets_def split: option.splits list.splits dest: in_set_takeD)

lemma take_1: "xs \<noteq> [] \<Longrightarrow> take 1 xs = [hd xs]"
  by (cases xs) simp_all

lemma dispatch_None: "dispatch_tasks socks_open orch = None \<longleftrightarrow> \<not> set (targets orch) \<subseteq> socks_open"
proof (cases "idle_sockets orch = []")
  case True
  then show ?thesis using targets_idle(1) [of orch] by (simp add: dispatch_tasks_def)
next
  case False
  then show ?thesis
    by (auto simp: dispatch_tasks_def targets_def assign_all_None take_1 assign_task_def Let_def simp del: One_nat_def
        split: option.splits list.splits)
qed

lemma dispatch_assigned:
  assumes "dispatch_tasks socks_open orch = Some orch'"
  obtains (current) f where "current_large_file orch = Some f" "assigned f (targets orch) orch orch'"
  | (rest) "current_large_file orch = None" "targets orch = []" "orch' = orch"
  | (small) m q where "current_large_file orch = None" "task_queue orch = m # q" "meta_file_size m < TEN_MB_BYTES"
      "assigned m (targets orch) (orch\<lparr>task_queue := q\<rparr>) orch'"
  | (large) m q where "current_large_file orch = None" "task_queue orch = m # q" "\<not> meta_file_size m < TEN_MB_BYTES"
      "targets orch = idle_sockets orch" "idle_sockets orch \<noteq> []"
      "assigned m (targets orch) (orch\<lparr>task_queue := q, current_large_file := Some m\<rparr>) orch'"
proof (cases "current_large_file orch")
  case (Some f)
  with assms current show thesis
    by (cases "idle_sockets orch = []")
      (auto simp: dispatch_tasks_def targets_def assigned_def [of _ "[]"] Let_def dest!: assign_all_assigned)
next
  case None
  show thesis
  proof (cases "idle_sockets orch = [] \<or> task_queue orch = []")
    case True
    then have none: "targets orch = []" using None by (auto simp: targets_def split: list.splits)
    have "orch' = orch" using True None assms by (auto simp: dispatch_tasks_def Let_def split: if_splits)
    from rest [OF None none this] show thesis .
  next
    case False
    then obtain m q where q: "task_queue orch = m # q" by (cases "task_queue orch") auto
    show thesis
    proof (cases "meta_file_size m < TEN_MB_BYTES")
      case True
      then have "targets orch = [hd (idle_sockets orch)]" using False None q by (simp add: targets_def take_1 del: One_nat_def)
      then show thesis using small [OF None q True] True False None q assms assign_task_assigned
        by (simp add: dispatch_tasks_def Let_def)
    next
      case large_file: False
      then have "targets orch = idle_sockets orch" using None q by (simp add: targets_def)
      then show thesis using large [OF None q large_file] large_file False None q assms assign_all_assigned
        by (simp add: dispatch_tasks_def Let_def)
    qed
  qed
qed


text \<open>The witness: three senders, of which the second is busy; a small file goes to the first.\<close>

definition demo_monitor :: Orchestrator where
  "demo_monitor = (start_orchestrator [1, 2, 3])\<lparr>sender_states := [(1, IDLE), (2, WORKING), (3, IDLE)],
     task_queue := [\<lparr>file_path = ''/in/a'', file_name = ''a'', meta_file_size = 5, file_hash = 9\<rparr>]\<rparr>"


section \<open>Large files\<close>

definition large_inv :: "Orchestrator \<Rightarrow> sender_id list \<Rightarrow> bool" where
  "large_inv orch hs \<longleftrightarrow> (\<forall>f. current_large_file orch = Some f \<longrightarrow>
     (\<exists>socks. map_of (active_transfers orch) (file_path f) = Some socks \<and> socks \<noteq> [] \<and> distinct hs \<and>
       set hs \<subseteq> set socks \<union> finished_large_file_senders orch))"

definition monitor_inv :: "Orchestrator \<Rightarrow> sender_id list \<Rightarrow> bool" where
  "monitor_inv orch hs \<longleftrightarrow> distinct (map fst (sender_states orch)) \<and> distinct (map fst (active_transfers orch)) \<and> large_inv orch hs"

lemma map_of_filter_values:
  "distinct (map fst al) \<Longrightarrow> map_of (filter (\<lambda>(k, v). P v) al) k = (case map_of al k of None \<Rightarrow> None | Some v \<Rightarrow> if P v then Some v else None)"
  by (induction al) (auto split: option.splits dest: map_of_SomeD intro: rev_image_eqI)

lemma map_of_sync:
  assumes "distinct (map fst (active_transfers orch))"
  shows "map_of (active_transfers (sync_states orch)) path =
    (case map_of (active_transfers orch) path of None \<Rightarrow> None
     | Some socks \<Rightarrow> if filter (working (sender_states orch)) socks = [] then None
         else Some (filter (working (sender_states orch)) socks))"
proof -
  let ?al = "map (\<lambda>(path, socks). (path, filter (working (sender_states orch)) socks)) (active_transfers orch)"
  have "distinct (map fst ?al)" using assms by (simp add: comp_def case_prod_beta)
  moreover have "map_of ?al path = map_option (filter (working (sender_states orch))) (map_of (active_transfers orch) path)"
    by (induction "active_transfers orch") (auto simp: map_of_map)
  ultimately show ?thesis
    by (simp add: sync_states_def remove_completed_def sync_transfers_def Let_def
        map_of_filter_values [where P = "\<lambda>v. v \<noteq> []"] split: option.splits)
qed

lemma sync_current:
  assumes "monitor_inv orch hs" "current_large_file (sync_states orch) = Some f"
  shows "current_large_file orch = Some f" "large_inv (sync_states orch) hs"
    "\<exists>socks. map_of (active_transfers (sync_states orch)) (file_path f) = Some socks \<and> (\<forall>s\<in>set socks. working (sender_states orch) s)"
proof -
  have dist: "distinct (map fst (active_transfers orch))" and large: "large_inv orch hs" using assms(1) by (simp_all add: monitor_inv_def)
  from assms(2) show cur: "current_large_file orch = Some f"
    by (auto simp: sync_states_def remove_completed_def sync_transfers_def Let_def split: if_splits)
  let ?w = "working (sender_states orch)"
  obtain socks where socks: "map_of (active_transfers orch) (file_path f) = Some socks" "distinct hs"
      "set hs \<subseteq> set socks \<union> finished_large_file_senders orch"
    using large cur by (auto simp: large_inv_def)
  have some: "filter ?w socks \<noteq> []"
  proof
    assume "filter ?w socks = []"
    with socks(1) have "(file_path f, []) \<in> set (active_transfers (sync_transfers orch))"
      by (force simp: sync_transfers_def dest: map_of_SomeD)
    then have "current_large_file (sync_states orch) = None"
      by (force simp: sync_states_def remove_completed_def Let_def is_current_def sync_transfers_def cur)
    with assms(2) show False by simp
  qed
  then have new: "map_of (active_transfers (sync_states orch)) (file_path f) = Some (filter ?w socks)"
    using map_of_sync [OF dist, of "file_path f"] socks(1) by simp
  then show "\<exists>socks. map_of (active_transfers (sync_states orch)) (file_path f) = Some socks \<and> (\<forall>s\<in>set socks. ?w s)" by auto
  have "{s \<in> set socks. \<not> ?w s} \<union> finished_large_file_senders orch \<subseteq> finished_large_file_senders (sync_states orch)"
    using map_of_SomeD [OF socks(1)] assms(2)
    by (force simp: sync_states_def remove_completed_def sync_transfers_def Let_def is_current_def cur split: if_splits)
  with new some socks(2,3) show "large_inv (sync_states orch) hs" by (auto simp: large_inv_def assms(2))
qed

lemma sync_keys:
  "sender_states (sync_states orch) = sender_states orch"
  "distinct (map fst (active_transfers orch)) \<Longrightarrow> distinct (map fst (active_transfers (sync_states orch)))"
  by (auto simp: sync_states_def remove_completed_def sync_transfers_def Let_def distinct_map inj_on_def case_prod_beta
      intro!: distinct_filter)

lemma new_helpers_assigned:
  "assigned m socks orch orch' \<Longrightarrow> sent_tasks orch = sent_tasks orch0 \<Longrightarrow> new_helpers orch0 orch' = socks"
  by (simp add: new_helpers_def assigned_def comp_def)

lemma join_inv:
  assumes inv: "monitor_inv orch hs" and cur: "current_large_file (sync_states orch) = Some f"
    and asg: "assigned f (targets (sync_states orch)) (sync_states orch) orch2"
  shows "large_inv orch2 (hs @ targets (sync_states orch))"
proof -
  let ?o = "sync_states orch"
  note sync = sync_current [OF inv cur]
  obtain socks where socks: "map_of (active_transfers ?o) (file_path f) = Some socks" "socks \<noteq> []" "distinct hs"
      "set hs \<subseteq> set socks \<union> finished_large_file_senders ?o" using sync(2) cur by (auto simp: large_inv_def)
  have states: "distinct (map fst (sender_states ?o))" using inv by (simp add: monitor_inv_def sync_keys)
  have "s \<notin> set socks" if "s \<in> set (targets ?o)" for s
  proof -
    have "map_of (sender_states ?o) s = Some IDLE" using that targets_idle(1) idle_sockets_idle(1) [OF states] by blast
    then show ?thesis using sync(3) socks(1) by (auto simp: working_def sync_keys)
  qed
  moreover have "s \<notin> finished_large_file_senders ?o" if "s \<in> set (targets ?o)" for s
    using that by (simp add: targets_def cur)
  ultimately have "distinct (hs @ targets ?o)"
    using socks(3,4) targets_idle(2) [OF idle_sockets_idle(2) [OF states]] by auto
  moreover have "map_of (active_transfers orch2) (file_path f) = Some (socks @ targets ?o)"
    using asg socks(1) by (auto simp: assigned_def)
  moreover have "current_large_file orch2 = Some f" "finished_large_file_senders orch2 = finished_large_file_senders ?o"
    using asg cur by (simp_all add: assigned_def)
  ultimately show ?thesis using socks(2,4) by (auto simp: large_inv_def)
qed

lemma round_inv:
  assumes inv: "monitor_inv orch hs" and dis: "dispatch_tasks socks_open (sync_states orch) = Some orch2"
  shows "monitor_inv orch2 (if current_large_file orch2 = None then []
    else (if current_large_file (sync_states orch) = None then [] else hs) @ new_helpers (sync_states orch) orch2)"
proof -
  let ?o = "sync_states orch"
  have keys: "distinct (map fst (sender_states ?o))" "distinct (map fst (active_transfers ?o))"
    using inv by (simp_all add: monitor_inv_def sync_keys)
  from dis show ?thesis
  proof (cases rule: dispatch_assigned)
    case (current f)
    then have "current_large_file orch2 = Some f" by (simp add: assigned_def)
    with current keys join_inv [OF inv current] new_helpers_assigned [OF current(2) refl] show ?thesis
      by (simp add: monitor_inv_def assigned_def)
  next
    case rest
    with keys show ?thesis by (simp add: monitor_inv_def large_inv_def)
  next
    case (small m q)
    with keys show ?thesis by (simp add: monitor_inv_def large_inv_def assigned_def)
  next
    case (large m q)
    have "new_helpers ?o orch2 = idle_sockets ?o" using new_helpers_assigned [OF large(6)] large(4) by simp
    with large keys idle_sockets_idle(2) [OF keys(1)] show ?thesis
      by (auto simp: monitor_inv_def large_inv_def assigned_def split: option.splits)
  qed
qed

lemma monitor_inv_step: "mstep socks_open s s' \<Longrightarrow> monitor_inv (fst s) (snd s) \<Longrightarrow> monitor_inv (fst s') (snd s')"
proof (induction rule: mstep.induct)
  case (round orch1 orch orch2 hs)
  then show ?case unfolding round(1) fst_conv snd_conv by (intro round_inv [of orch hs socks_open]) simp_all
qed (auto simp: monitor_inv_def large_inv_def handle_heartbeat_def distinct_update)

lemma monitor_inv_reachable:
  assumes "mreachable ids socks_open s" "distinct ids"
  shows "monitor_inv (fst s) (snd s)"
  using assms(1)
proof induction
  case start
  then show ?case using assms(2) by (simp add: monitor_inv_def large_inv_def start_orchestrator_def comp_def)
next
  case (step s s')
  then show ?case by (blast intro: monitor_inv_step)
qed

text \<open>C28: a large file is shared well. While a large file is current, no sender is given it twice, whatever heartbeats arrive
  between the rounds; some sender is always entered as sending it, so the orchestrator cannot be stuck on a file that nobody
  sends; and as soon as no sender reports to be working, the next round lets go of the file.\<close>

theorem large_file_shared:
  assumes "mreachable ids socks_open (orch, helpers)" "distinct ids" "current_large_file orch = Some f"
  shows "distinct helpers \<and>
    (\<exists>socks. map_of (active_transfers orch) (file_path f) = Some socks \<and> socks \<noteq> []) \<and>
    ((\<forall>s. map_of (sender_states orch) s \<noteq> Some WORKING) \<longrightarrow> current_large_file (sync_states orch) = None)"
proof -
  have inv: "monitor_inv orch helpers" using monitor_inv_reachable [OF assms(1,2)] by simp
  then have "large_inv orch helpers" by (simp add: monitor_inv_def)
  then obtain socks where "map_of (active_transfers orch) (file_path f) = Some socks" "socks \<noteq> []" "distinct helpers"
    using assms(3) unfolding large_inv_def by blast
  moreover have "current_large_file (sync_states orch) = None" if "\<forall>s. map_of (sender_states orch) s \<noteq> Some WORKING"
  proof (rule ccontr)
    assume "current_large_file (sync_states orch) \<noteq> None"
    then obtain g where g: "current_large_file (sync_states orch) = Some g" by blast
    from sync_current(2,3) [OF inv g] g that show False by (fastforce simp: large_inv_def working_def)
  qed
  ultimately show ?thesis by blast
qed

text \<open>The witness: a file of eleven megabytes goes to both senders in the first round; the second one becomes idle and is not
  given the file again.\<close>

definition big_file :: FileMetadata where
  "big_file = \<lparr>file_path = ''/in/b'', file_name = ''b'', meta_file_size = 11534336, file_hash = 4\<rparr>"

definition big_state :: "SenderState \<Rightarrow> sender_id list \<Rightarrow> sender_id set \<Rightarrow> Orchestrator" where
  "big_state st socks fin = \<lparr>task_queue = [], sender_states = [(1, WORKING), (2, st)], active_transfers = [(''/in/b'', socks)],
     current_large_file = Some big_file, finished_large_file_senders = fin,
     sent_tasks = [(1, \<lparr>FilePath = ''/in/b'', Task_FileHash = 4\<rparr>), (2, \<lparr>FilePath = ''/in/b'', Task_FileHash = 4\<rparr>)]\<rparr>"

lemmas monitor_eval = sync_states_def sync_transfers_def remove_completed_def is_current_def working_def dispatch_tasks_def
  idle_sockets_def assign_task_def note_assignment_def handle_heartbeat_def new_helpers_def big_state_def big_file_def start_orchestrator_def
  TEN_MB_BYTES_def

lemma big_run: "mreachable [1, 2] {1, 2} (big_state IDLE [1] {2}, [1, 2])"
proof -
  define q where "q = (start_orchestrator [1, 2])\<lparr>task_queue := task_queue (start_orchestrator [1, 2]) @ [big_file]\<rparr>"
  have "mreachable [1, 2] {1, 2} (q, [])" unfolding q_def by (rule mreachable.step [OF mreachable.start file_queued])
  moreover have "mstep {1, 2} (q, []) (big_state WORKING [1, 2] {}, [1, 2])"
    using round [of "sync_states q" q "{1, 2}" "big_state WORKING [1, 2] {}" "[]"]
    by (simp add: monitor_eval q_def)
  moreover have "mstep {1, 2} (big_state WORKING [1, 2] {}, [1, 2]) (big_state IDLE [1, 2] {}, [1, 2])"
    using heartbeat [of 2 "big_state WORKING [1, 2] {}" "{1, 2}" "[1, 2]" IDLE] by (simp add: monitor_eval)
  moreover have "mstep {1, 2} (big_state IDLE [1, 2] {}, [1, 2]) (big_state IDLE [1] {2}, [1, 2])"
  proof -
    have "sync_states (big_state IDLE [1, 2] {}) = big_state IDLE [1] {2}"
      by (simp add: sync_states_def sync_transfers_def remove_completed_def is_current_def working_def big_state_def big_file_def)
    moreover have "dispatch_tasks {1, 2} (big_state IDLE [1] {2}) = Some (big_state IDLE [1] {2})"
      by (simp add: dispatch_tasks_def idle_sockets_def big_state_def)
    moreover have "current_large_file (big_state IDLE [1] {2}) = Some big_file" by (simp add: big_state_def)
    moreover have "new_helpers (big_state IDLE [1] {2}) (big_state IDLE [1] {2}) = []" by (simp add: new_helpers_def)
    ultimately show ?thesis
      using round [of "big_state IDLE [1] {2}" "big_state IDLE [1, 2] {}" "{1, 2}" "big_state IDLE [1] {2}" "[1, 2]"] by simp
  qed
  ultimately show ?thesis by (blast intro: mreachable.step)
qed

theorem large_file_shared_witness:
  "\<exists>orch socks. mreachable [1, 2] {1, 2} (orch, [1, 2]) \<and> current_large_file orch = Some big_file \<and>
     map_of (sender_states orch) 2 = Some IDLE \<and> map fst (sent_tasks orch) = [1, 2] \<and>
     map_of (active_transfers orch) ''/in/b'' = Some socks \<and> socks \<noteq> []"
proof -
  have cur: "current_large_file (big_state IDLE [1] {2}) = Some big_file" by (simp add: big_state_def)
  have "distinct [1, 2 :: nat]" by simp
  from large_file_shared [OF big_run this cur] obtain socks where
    "map_of (active_transfers (big_state IDLE [1] {2})) ''/in/b'' = Some socks" "socks \<noteq> []"
    by (auto simp: big_file_def)
  with big_run cur show ?thesis
    by (intro exI [of _ "big_state IDLE [1] {2}"] exI [of _ socks]) (simp add: big_state_def)
qed

section \<open>What is announced can be verified\<close>

text \<open>The monitor and the session manager agree on the hash. The metadata that the watcher queues for a file, read in pieces
  of whatever sizes, carry the size of the file and a hash that the session manager's integrity check accepts for the same
  bytes; an empty file is never queued.\<close>

lemma watched_file_verifies:
  assumes "incremental_hash sha256_new update digest sha256"
    and "m \<in> set (watch_event basename (compute_file_hash sha256_new update digest avail) fs watch_dir event)"
  shows "\<exists>bs. fs (file_path m) = Some bs \<and> bs \<noteq> [] \<and> meta_file_size m = int (length bs) \<and> verify_file sha256 (file_hash m) bs"
  using assms(2) incremental_hash.file_hash_reference [OF assms(1)]
  by (auto simp: watch_event_def process_file_def verify_file_def Let_def split: if_splits option.splits) metis

lemma watched_file_verifies_witness:
  "\<exists>m bs. watch_event id (compute_file_hash [] (@) (\<lambda>bs. replicate 8 (of_nat (length bs))) (\<lambda>bs. 2))
       [''/in/a'' \<mapsto> [1, 2, 3]] ''/in'' \<lparr>ev_isdir = False, ev_name = ''a''\<rparr> = [m] \<and>
     [''/in/a'' \<mapsto> [1, 2, 3]] (file_path m) = Some bs \<and> verify_file (\<lambda>bs. replicate 8 (of_nat (length bs))) (file_hash m) bs"
proof -
  let ?hash = "compute_file_hash [] (@) (\<lambda>bs. replicate 8 (of_nat (length bs))) (\<lambda>bs. 2)"
  let ?fs = "[''/in/a'' \<mapsto> [1, 2, 3 :: byte]]"
  let ?ev = "\<lparr>ev_isdir = False, ev_name = ''a''\<rparr>"
  obtain m where m: "watch_event id ?hash ?fs ''/in'' ?ev = [m]" by (simp add: watch_event_def)
  then have "m \<in> set (watch_event id ?hash ?fs ''/in'' ?ev)" by simp
  from watched_file_verifies [OF collecting.incremental_hash_axioms this] m show ?thesis by blast
qed

end
