(* ===== verification/Unix_Socket.thy ===== *)
theory Unix_Socket
  imports Prelude
begin

text \<open>
  What the programs use of the operating system to listen on a Unix socket: \<open>os.Remove\<close>, \<open>net.Listen\<close>, and \<open>log.Fatal\<close>. A
  path that exists can not be listened on, and removing one that does not exist is an error of its own kind.
\<close>

text \<open>
  The files the operating system knows about at socket paths. \<open>os.Remove\<close> and \<open>net.Listen\<close> may also fail for reasons of
  their own (permissions, an unusable path); \<open>refused\<close> and \<open>unusable\<close> give those errors.
\<close>

definition ErrNotExist :: error where
  "ErrNotExist = LibError ''file does not exist''"

definition ErrInUse :: error where
  "ErrInUse = LibError ''address already in use''"

record os =
  paths :: "string set"
  refused :: "string \<Rightarrow> error option"
  unusable :: "string \<Rightarrow> error option"

definition os_Remove :: "string \<Rightarrow> os \<Rightarrow> error option \<times> os" where
  "os_Remove path w =
     (case refused w path of
        Some err \<Rightarrow> (Some err, w)
      | None \<Rightarrow> if path \<in> paths w then (None, w\<lparr>paths := paths w - {path}\<rparr>) else (Some ErrNotExist, w))"

definition net_Listen :: "string \<Rightarrow> os \<Rightarrow> unit res \<times> os" where
  "net_Listen path w =
     (case unusable w path of
        Some err \<Rightarrow> (Inl err, w)
      | None \<Rightarrow> if path \<in> paths w then (Inl ErrInUse, w) else (Inr (), w\<lparr>paths := insert path (paths w)\<rparr>))"

text \<open>A call of \<open>log.Fatal\<close> ends the process and runs no deferred call.\<close>

datatype 'a started = Exits error | Returns 'a

text \<open>Remove, then listen: whatever was at the path is replaced.\<close>

lemma remove_listen:
  assumes "refused w path = None" "unusable w path = None" "os_Remove path w = (e, w1)"
  shows "(e = None \<or> e = Some ErrNotExist) \<and> net_Listen path w1 = (Inr (), w\<lparr>paths := insert path (paths w)\<rparr>)"
  using assms by (auto simp: os_Remove_def net_Listen_def split: if_splits)

lemma remove_unusable:
  assumes "refused w path = None" "unusable w path = Some err" "os_Remove path w = (e, w1)"
  shows "(e = None \<or> e = Some ErrNotExist) \<and> net_Listen path w1 = (Inl err, w\<lparr>paths := paths w - {path}\<rparr>)"
  using assms by (auto simp: os_Remove_def net_Listen_def split: if_splits)

end
