(* ===== verification/Sender_Process.thy ===== *)
theory Sender_Process
  imports File_Monitor Sender Unix_Socket
begin

text \<open>
  The sender as a process: the start of \<open>main\<close> in \<open>senders/cmd/sender/senders.go\<close>, \<open>StartUDSServer\<close> and the accept
  loop of \<open>senders/internal/IPC/sender-monitor.go\<close>, and what runs concurrently after it: one goroutine per
  connection, which reads frames, answers pings and sends tasks on an unbuffered channel, and \<open>main\<close>, which takes
  them from it. \<open>sender_step\<close> interleaves them in every order; a send on the channel and its receive are
  one step. Lemmas: tasks are run one at a time and in order, what heartbeats report, and how the sender starts. Together with
  theory \<open>File_Monitor\<close>: what the monitor makes of an early heartbeat.
\<close>

section \<open>Starting\<close>

definition StartUDSServer :: "string \<Rightarrow> os \<Rightarrow> unit res started \<times> os" where
  "StartUDSServer socketPath w =
     (case os_Remove socketPath w of
        (e, w) \<Rightarrow>
          if e \<noteq> None \<and> e \<noteq> Some ErrNotExist then (Exits (Wrap ''Failed to remove old socket file'' [] (the e)), w)
          else
            (case net_Listen socketPath w of
               (Inl err, w) \<Rightarrow> (Returns (Inl (Wrap ''failed to start UDS server'' [] err)), w)
             | (Inr listener, w) \<Rightarrow> (Returns (Inr listener), w)))"

section \<open>Serving a connection, round by round\<close>

text \<open>One round of the goroutine's loop, with the state that \<open>getState\<close> returns in it.\<close>

datatype conn_round =
    Ends conn "ipc_log option"
  | Hands TaskAssignment conn
  | Replies conn
  | Skips conn ipc_log

definition task_of :: "(byte list \<Rightarrow> TaskAssignment res) \<Rightarrow> byte list \<Rightarrow> TaskAssignment option" where
  "task_of unmarshalTask payload =
     (case unmarshalTask payload of
        Inl err \<Rightarrow> None
      | Inr task \<Rightarrow> if GetFilePath (Some task) \<noteq> [] then Some task else None)"

definition serve_round ::
  "(byte list \<Rightarrow> TaskAssignment res) \<Rightarrow> (byte list \<Rightarrow> Ping res) \<Rightarrow> (Heartbeat \<Rightarrow> byte list res) \<Rightarrow> SenderState \<Rightarrow>
   conn \<Rightarrow> conn_round" where
  "serve_round unmarshalTask unmarshalPing marshalHb state c =
     (case readFramed c of
        Inl err \<Rightarrow> Ends c (if err \<noteq> EOF then Some (SocketReadError err) else None)
      | Inr (payload, c1) \<Rightarrow>
          (case task_of unmarshalTask payload of
             Some task \<Rightarrow> Hands task c1
           | None \<Rightarrow>
               (case unmarshalPing payload of
                  Inr ping \<Rightarrow>
                    (case writeFramed marshalHb c1 \<lparr>State = state\<rparr> of
                       (Some err, c2) \<Rightarrow> Ends c2 (Some (HeartbeatFailed err))
                     | (None, c2) \<Rightarrow> Replies c2)
                | Inl _ \<Rightarrow> Skips c1 (Unrecognized (length payload)))))"

section \<open>The process\<close>

text \<open>
  The goroutine of a connection reads, stands in the send on the unbuffered task channel with a task, or has returned.
  \<open>origin\<close> is the connection as it was accepted; the program does not keep it.
\<close>

datatype conn_phase = Listening | Handing TaskAssignment | Hung_up

record goroutine =
  origin :: conn
  sock :: conn
  gphase :: conn_phase

text \<open>\<open>main\<close>: at the receive of its loop; with a task before the state is stored; in the loop over the counts;
  ended by \<open>log.Fatalf\<close>.\<close>

datatype sender_phase = Ranging | Preparing TaskAssignment | Transmitting TaskAssignment MappedFile | Exited TaskAssignment error

datatype process_log = FromConn ipc_log | AcceptError error

record sender =
  goroutines :: "goroutine list"
  sphase :: sender_phase
  currentState :: SenderState
  counter_files :: filesystem
  taken :: "(nat \<times> TaskAssignment) list"
  results :: "(TaskAssignment \<times> task_result) list"
  process_logs :: "process_log list"

text \<open>\<open>main\<close> up to its loop. The UDP socket is resolved and dialled after the listener has started.\<close>

definition boot_sender ::
  "(string \<Rightarrow> 'addr res) \<Rightarrow> ('addr \<Rightarrow> unit res) \<Rightarrow> string \<Rightarrow> string \<Rightarrow> filesystem \<Rightarrow> os \<Rightarrow> sender started \<times> os" where
  "boot_sender resolve dial targetAddrStr socketPath fs w =
     (case StartUDSServer socketPath w of
        (Exits err, w) \<Rightarrow> (Exits err, w)
      | (Returns (Inl err), w) \<Rightarrow> (Exits err, w)
      | (Returns (Inr l), w) \<Rightarrow>
          (case resolve targetAddrStr of
             Inl err \<Rightarrow> (Exits err, w)
           | Inr addr \<Rightarrow>
               (case dial addr of
                  Inl err \<Rightarrow> (Exits err, w)
                | Inr conn \<Rightarrow>
                    (Returns \<lparr>goroutines = [], sphase = Ranging, currentState = IDLE, counter_files = fs, taken = [],
                       results = [], process_logs = []\<rparr>, w))))"

definition running :: "sender \<Rightarrow> bool" where
  "running s = (case sphase s of Exited t err \<Rightarrow> False | _ \<Rightarrow> True)"

definition set_conn :: "nat \<Rightarrow> conn \<Rightarrow> conn_phase \<Rightarrow> sender \<Rightarrow> sender" where
  "set_conn i c ph s = s\<lparr>goroutines := (goroutines s)[i := (goroutines s ! i)\<lparr>sock := c, gphase := ph\<rparr>]\<rparr>"

definition log_conn :: "ipc_log option \<Rightarrow> sender \<Rightarrow> sender" where
  "log_conn l s = s\<lparr>process_logs := process_logs s @ (case l of None \<Rightarrow> [] | Some l \<Rightarrow> [FromConn l])\<rparr>"

text \<open>What a round does to the process.\<close>

definition after_round :: "nat \<Rightarrow> conn_round \<Rightarrow> sender \<Rightarrow> sender" where
  "after_round i r s =
     (case r of
        Ends c l \<Rightarrow> log_conn l (set_conn i c Hung_up s)
      | Hands task c \<Rightarrow> set_conn i c (Handing task) s
      | Replies c \<Rightarrow> set_conn i c Listening s
      | Skips c l \<Rightarrow> log_conn (Some l) (set_conn i c Listening s))"

inductive sender_step ::
  "(byte list \<Rightarrow> TaskAssignment res) \<Rightarrow> (byte list \<Rightarrow> Ping res) \<Rightarrow> (Heartbeat \<Rightarrow> byte list res) \<Rightarrow>
   (string \<Rightarrow> (ReaderAt \<times> int) res) \<Rightarrow> (int \<Rightarrow> int \<Rightarrow> Codec res) \<Rightarrow> (Packet \<Rightarrow> byte list res) \<Rightarrow> sender \<Rightarrow> sender \<Rightarrow> bool"
  for unmarshalTask unmarshalPing marshalHb mmap_Open rs_New marshal where
  accepted: "running s \<Longrightarrow> tx c = [] \<Longrightarrow>
    sender_step unmarshalTask unmarshalPing marshalHb mmap_Open rs_New marshal s
      (s\<lparr>goroutines := goroutines s @ [\<lparr>origin = c, sock = c, gphase = Listening\<rparr>]\<rparr>)"
| accept_failed: "running s \<Longrightarrow>
    sender_step unmarshalTask unmarshalPing marshalHb mmap_Open rs_New marshal s
      (s\<lparr>process_logs := process_logs s @ [AcceptError err]\<rparr>)"
| conn_served: "running s \<Longrightarrow> i < length (goroutines s) \<Longrightarrow> gphase (goroutines s ! i) = Listening \<Longrightarrow>
    serve_round unmarshalTask unmarshalPing marshalHb (currentState s) (sock (goroutines s ! i)) = r \<Longrightarrow>
    sender_step unmarshalTask unmarshalPing marshalHb mmap_Open rs_New marshal s (after_round i r s)"
| task_taken: "sphase s = Ranging \<Longrightarrow> i < length (goroutines s) \<Longrightarrow> gphase (goroutines s ! i) = Handing task \<Longrightarrow>
    sender_step unmarshalTask unmarshalPing marshalHb mmap_Open rs_New marshal s
      (set_conn i (sock (goroutines s ! i)) Listening (s\<lparr>sphase := Preparing task, taken := taken s @ [(i, task)]\<rparr>))"
| counter_fatal: "sphase s = Preparing task \<Longrightarrow>
    InitCounterFile env (counter_path (Task_FileHash task)) (counter_files s) = (Inl err, fs) \<Longrightarrow>
    sender_step unmarshalTask unmarshalPing marshalHb mmap_Open rs_New marshal s
      (s\<lparr>counter_files := fs, sphase := Exited task err\<rparr>)"
| open_fatal: "sphase s = Preparing task \<Longrightarrow>
    InitCounterFile env (counter_path (Task_FileHash task)) (counter_files s) = (Inr f, fs) \<Longrightarrow>
    OpenFile mmap_Open (FilePath task) = Inl err \<Longrightarrow>
    sender_step unmarshalTask unmarshalPing marshalHb mmap_Open rs_New marshal s
      (s\<lparr>counter_files := fs, sphase := Exited task err\<rparr>)"
| task_started: "sphase s = Preparing task \<Longrightarrow>
    InitCounterFile env (counter_path (Task_FileHash task)) (counter_files s) = (Inr f, fs) \<Longrightarrow>
    OpenFile mmap_Open (FilePath task) = Inr reader \<Longrightarrow>
    sender_step unmarshalTask unmarshalPing marshalHb mmap_Open rs_New marshal s
      (s\<lparr>counter_files := fs, sphase := Transmitting task reader, currentState := WORKING\<rparr>)"
| task_finished: "sphase s = Transmitting task reader \<Longrightarrow>
    claim_loop rs_New marshal udp (Task_FileHash task) reader counts \<lparr>tr_groups = [], tr_events = [], tr_logs = []\<rparr> = Some tr \<Longrightarrow>
    sender_step unmarshalTask unmarshalPing marshalHb mmap_Open rs_New marshal s
      (s\<lparr>results := results s @ [(task, tr)], sphase := Ranging, currentState := IDLE\<rparr>)"

inductive sender_reachable ::
  "(byte list \<Rightarrow> TaskAssignment res) \<Rightarrow> (byte list \<Rightarrow> Ping res) \<Rightarrow> (Heartbeat \<Rightarrow> byte list res) \<Rightarrow>
   (string \<Rightarrow> (ReaderAt \<times> int) res) \<Rightarrow> (int \<Rightarrow> int \<Rightarrow> Codec res) \<Rightarrow> (Packet \<Rightarrow> byte list res) \<Rightarrow> sender \<Rightarrow> sender \<Rightarrow> bool"
  for unmarshalTask unmarshalPing marshalHb mmap_Open rs_New marshal s0 where
  booted: "sender_reachable unmarshalTask unmarshalPing marshalHb mmap_Open rs_New marshal s0 s0"
| stepped: "sender_reachable unmarshalTask unmarshalPing marshalHb mmap_Open rs_New marshal s0 s \<Longrightarrow>
    sender_step unmarshalTask unmarshalPing marshalHb mmap_Open rs_New marshal s s' \<Longrightarrow>
    sender_reachable unmarshalTask unmarshalPing marshalHb mmap_Open rs_New marshal s0 s'"

section \<open>Rounds and the whole connection\<close>

text \<open>\<open>serveConn\<close> of theory \<open>Sender_Ipc\<close> is these rounds, one after the other.\<close>

lemma serveConn_rounds:
  "serveConn ut up mh gs c out =
     (case serve_round ut up mh (gs (polls out)) c of
        Ends c l \<Rightarrow> (c, out\<lparr>ipc_logs := ipc_logs out @ (case l of None \<Rightarrow> [] | Some l \<Rightarrow> [l]),
          polls := polls out + (case l of Some (HeartbeatFailed err) \<Rightarrow> 1 | _ \<Rightarrow> 0)\<rparr>)
      | Hands task c \<Rightarrow> serveConn ut up mh gs c (out\<lparr>taskChan := taskChan out @ [task]\<rparr>)
      | Replies c \<Rightarrow> serveConn ut up mh gs c (out\<lparr>polls := polls out + 1\<rparr>)
      | Skips c l \<Rightarrow> serveConn ut up mh gs c (out\<lparr>ipc_logs := ipc_logs out @ [l]\<rparr>))"
  by (subst serveConn.simps)
    (auto simp: serve_round_def task_of_def Let_def split: sum.splits prod.splits option.splits)

text \<open>The tasks in the bytes a connection still has to deliver.\<close>

function stream_tasks :: "(byte list \<Rightarrow> TaskAssignment res) \<Rightarrow> conn \<Rightarrow> TaskAssignment list" where
  "stream_tasks ut c =
     (case readFramed c of
        Inl err \<Rightarrow> []
      | Inr (payload, c1) \<Rightarrow> (case task_of ut payload of None \<Rightarrow> [] | Some t \<Rightarrow> [t]) @ stream_tasks ut c1)"
  by pat_completeness auto
termination
  by (relation "measure (\<lambda>(_, c). length (rx c))") (auto simp: readFramed_frame dest: read_frame_consumes)

declare stream_tasks.simps [simp del]

lemma ReadFull_same_input:
  assumes "rx c = rx c'" "rx_end c = rx_end c'"
  shows "ReadFull n c' = map_sum id (\<lambda>(bs, d). (bs, c'\<lparr>rx := rx d\<rparr>)) (ReadFull n c)"
  using assms by (simp add: ReadFull_def)

lemma ReadFull_end: "ReadFull n c = Inr (bs, d) \<Longrightarrow> rx_end d = rx_end c"
  by (auto simp: ReadFull_def split: if_splits)

lemma readFramed_same_input:
  assumes "rx c = rx c'" "rx_end c = rx_end c'" "readFramed c = Inr (p, d)"
  shows "\<exists>d'. readFramed c' = Inr (p, d') \<and> rx d' = rx d \<and> rx_end d' = rx_end d"
proof -
  from assms(3) obtain h e where h: "ReadFull 4 c = Inr (h, e)" and p: "ReadFull (unat (BigEndian_Uint32 h)) e = Inr (p, d)"
    by (auto simp: readFramed_def split: sum.splits)
  have "ReadFull 4 c' = Inr (h, c'\<lparr>rx := rx e\<rparr>)" using ReadFull_same_input [OF assms(1,2)] h by simp
  moreover have "rx_end e = rx_end c" "rx_end d = rx_end e" using ReadFull_end h p by blast+
  moreover have "ReadFull (unat (BigEndian_Uint32 h)) (c'\<lparr>rx := rx e\<rparr>) = Inr (p, c'\<lparr>rx := rx d\<rparr>)"
    using ReadFull_same_input [of e "c'\<lparr>rx := rx e\<rparr>"] p calculation(2) assms(2) by simp
  ultimately show ?thesis using assms(2) by (simp add: readFramed_def)
qed

lemma readFramed_same_error:
  assumes "rx c = rx c'" "rx_end c = rx_end c'" "readFramed c = Inl err"
  shows "\<exists>err'. readFramed c' = Inl err'"
proof (rule ccontr)
  assume "\<not> ?thesis"
  then obtain p d where "readFramed c' = Inr (p, d)" by (cases "readFramed c'") auto
  from readFramed_same_input [OF assms(1) [symmetric] assms(2) [symmetric] this] assms(3) show False by simp
qed

lemma stream_tasks_same_input:
  "rx c = rx c' \<Longrightarrow> rx_end c = rx_end c' \<Longrightarrow> stream_tasks ut c = stream_tasks ut c'"
proof (induction ut c arbitrary: c' rule: stream_tasks.induct)
  case (1 ut c)
  show ?case
  proof (cases "readFramed c")
    case (Inl err)
    with readFramed_same_error [OF 1(2,3)] show ?thesis
      by (auto simp: stream_tasks.simps [of ut c] stream_tasks.simps [of ut c'])
  next
    case (Inr r)
    then obtain p d where rd: "readFramed c = Inr (p, d)" by (cases r) auto
    from readFramed_same_input [OF 1(2,3) this] obtain d' where
      d': "readFramed c' = Inr (p, d')" "rx d' = rx d" "rx_end d' = rx_end d" by blast
    have "stream_tasks ut d = stream_tasks ut d'" by (rule "1.IH" [OF rd refl]) (simp_all add: d')
    with rd d'(1) show ?thesis by (simp add: stream_tasks.simps [of ut c] stream_tasks.simps [of ut c'])
  qed
qed

lemma writeFramed_input: "writeFramed mh c hb = (e, c') \<Longrightarrow> rx c' = rx c \<and> rx_end c' = rx_end c"
  by (auto simp: writeFramed_def Let_def split: sum.splits dest!: WriteTo_rx)

fun task_in :: "conn_round \<Rightarrow> TaskAssignment list" where
  "task_in (Hands task c) = [task]"
| "task_in _ = []"

fun conn_in :: "conn_round \<Rightarrow> conn" where
  "conn_in (Ends c l) = c"
| "conn_in (Hands task c) = c"
| "conn_in (Replies c) = c"
| "conn_in (Skips c l) = c"

lemma serve_round_stream:
  "stream_tasks ut c = task_in (serve_round ut up mh st c) @ stream_tasks ut (conn_in (serve_round ut up mh st c))"
proof (cases "readFramed c")
  case (Inl err)
  then show ?thesis by (simp add: serve_round_def stream_tasks.simps [of ut c])
next
  case (Inr r)
  then obtain p c1 where rd: "readFramed c = Inr (p, c1)" by (cases r) auto
  obtain e c2 where wr: "writeFramed mh c1 \<lparr>State = st\<rparr> = (e, c2)" by fastforce
  then have "stream_tasks ut c2 = stream_tasks ut c1"
    by (intro stream_tasks_same_input) (simp_all add: writeFramed_input)
  with rd wr show ?thesis
    by (simp add: serve_round_def stream_tasks.simps [of ut c] split: option.split sum.split)
qed

text \<open>On a connection that carries the monitor's messages, the tasks are the assignments among them.\<close>

lemma stream_tasks_carried:
  "list_all2 (carries ut up) ms ps \<Longrightarrow> rx c = concat (map frame ps) \<Longrightarrow> stream_tasks ut c = tasks_of ms"
proof (induction ms ps arbitrary: c rule: list_all2_induct)
  case Nil
  then show ?case by (simp add: stream_tasks.simps [of ut c] readFramed_frame read_frame_empty)
next
  case (Cons m ms p ps)
  from Cons.hyps have "length p < 2 ^ 32" by (cases m) auto
  with Cons.prems have "readFramed c = Inr (p, c\<lparr>rx := concat (map frame ps)\<rparr>)"
    by (simp add: readFramed_frame read_frame_frame)
  with Cons.IH [of "c\<lparr>rx := concat (map frame ps)\<rparr>"] Cons.hyps show ?case
    by (cases m) (auto simp: stream_tasks.simps [of ut c] task_of_def split: sum.splits)
qed

section \<open>Invariant\<close>

fun waiting :: "conn_phase \<Rightarrow> TaskAssignment list" where
  "waiting (Handing task) = [task]"
| "waiting Listening = []"
| "waiting Hung_up = []"

fun in_hand :: "sender_phase \<Rightarrow> TaskAssignment list" where
  "in_hand Ranging = []"
| "in_hand (Preparing task) = [task]"
| "in_hand (Transmitting task reader) = [task]"
| "in_hand (Exited task err) = [task]"

definition taken_from :: "nat \<Rightarrow> sender \<Rightarrow> TaskAssignment list" where
  "taken_from i s = map snd (filter (\<lambda>x. fst x = i) (taken s))"

definition conn_ok :: "(byte list \<Rightarrow> TaskAssignment res) \<Rightarrow> sender \<Rightarrow> nat \<Rightarrow> bool" where
  "conn_ok ut s i \<longleftrightarrow>
     (let g = goroutines s ! i in
      stream_tasks ut (origin g) = taken_from i s @ waiting (gphase g) @ stream_tasks ut (sock g))"

definition result_ok ::
  "(string \<Rightarrow> (ReaderAt \<times> int) res) \<Rightarrow> (int \<Rightarrow> int \<Rightarrow> Codec res) \<Rightarrow> (Packet \<Rightarrow> byte list res) \<Rightarrow>
   TaskAssignment \<times> task_result \<Rightarrow> bool" where
  "result_ok mmap_Open rs_New marshal res \<longleftrightarrow>
     (\<exists>reader udp counts. OpenFile mmap_Open (FilePath (fst res)) = Inr reader \<and>
        claim_loop rs_New marshal udp (Task_FileHash (fst res)) reader counts \<lparr>tr_groups = [], tr_events = [], tr_logs = []\<rparr>
          = Some (snd res))"

fun phase_ok :: "(string \<Rightarrow> (ReaderAt \<times> int) res) \<Rightarrow> sender_phase \<Rightarrow> SenderState \<Rightarrow> bool" where
  "phase_ok mmap_Open (Transmitting task reader) st \<longleftrightarrow> st = WORKING \<and> OpenFile mmap_Open (FilePath task) = Inr reader"
| "phase_ok mmap_Open Ranging st \<longleftrightarrow> st = IDLE"
| "phase_ok mmap_Open (Preparing task) st \<longleftrightarrow> st = IDLE"
| "phase_ok mmap_Open (Exited task err) st \<longleftrightarrow> st = IDLE"

definition sender_inv ::
  "(byte list \<Rightarrow> TaskAssignment res) \<Rightarrow> (string \<Rightarrow> (ReaderAt \<times> int) res) \<Rightarrow> (int \<Rightarrow> int \<Rightarrow> Codec res) \<Rightarrow>
   (Packet \<Rightarrow> byte list res) \<Rightarrow> sender \<Rightarrow> bool" where
  "sender_inv ut mmap_Open rs_New marshal s \<longleftrightarrow>
     (\<forall>i<length (goroutines s). conn_ok ut s i) \<and> (\<forall>x\<in>set (taken s). fst x < length (goroutines s)) \<and>
     map snd (taken s) = map fst (results s) @ in_hand (sphase s) \<and> phase_ok mmap_Open (sphase s) (currentState s) \<and>
     list_all (result_ok mmap_Open rs_New marshal) (results s)"

lemma boot_inv:
  "boot_sender resolve dial target path fs w = (Returns s, w') \<Longrightarrow> sender_inv ut mmap_Open rs_New marshal s"
  by (auto simp: boot_sender_def sender_inv_def split: prod.splits started.splits sum.splits)

lemma conn_ok_other:
  "i \<noteq> j \<Longrightarrow> conn_ok ut (s\<lparr>goroutines := (goroutines s)[j := g]\<rparr>) i = conn_ok ut s i"
  by (simp add: conn_ok_def taken_from_def)

lemma conn_ok_served:
  assumes "conn_ok ut s i" "i < length (goroutines s)" "gphase (goroutines s ! i) = Listening"
    and "serve_round ut up mh st (sock (goroutines s ! i)) = r"
  shows "conn_ok ut (after_round i r s) i"
  using assms serve_round_stream [of ut "sock (goroutines s ! i)" up mh st]
  by (cases r) (auto simp: conn_ok_def after_round_def set_conn_def log_conn_def taken_from_def Let_def)

lemma after_round_other:
  "taken (after_round i r s) = taken s" "results (after_round i r s) = results s" "sphase (after_round i r s) = sphase s"
  "currentState (after_round i r s) = currentState s" "length (goroutines (after_round i r s)) = length (goroutines s)"
  "j \<noteq> i \<Longrightarrow> goroutines (after_round i r s) ! j = goroutines s ! j"
  by (cases r; simp add: after_round_def set_conn_def log_conn_def)+

lemma sender_inv_step:
  assumes "sender_step ut up mh mmap_Open rs_New marshal s s'" "sender_inv ut mmap_Open rs_New marshal s"
  shows "sender_inv ut mmap_Open rs_New marshal s'"
  using assms(1)
proof cases
  case (accepted c)
  have "taken_from (length (goroutines s)) s = []"
    using assms(2) by (auto simp: sender_inv_def taken_from_def filter_empty_conv)
  with accepted assms(2) show ?thesis
    by (auto simp: sender_inv_def conn_ok_def taken_from_def Let_def nth_append less_Suc_eq)
next
  case (conn_served i r)
  have "conn_ok ut (after_round i r s) j" if "j < length (goroutines s)" for j
  proof (cases "j = i")
    case True
    with conn_served assms(2) show ?thesis by (auto simp: sender_inv_def intro!: conn_ok_served)
  next
    case False
    with that assms(2) show ?thesis by (simp add: sender_inv_def conn_ok_def taken_from_def after_round_other)
  qed
  with conn_served(1) assms(2) show ?thesis by (simp add: sender_inv_def after_round_other)
next
  case (task_taken i task)
  then have "conn_ok ut s' j" if "j < length (goroutines s)" for j
    using that assms(2)
    by (cases "j = i") (auto simp: sender_inv_def conn_ok_def taken_from_def set_conn_def Let_def)
  with task_taken assms(2) show ?thesis by (auto simp: sender_inv_def set_conn_def)
next
  case (task_finished task reader udp counts tr)
  with assms(2) show ?thesis
    by (auto simp: sender_inv_def conn_ok_def taken_from_def result_ok_def)
qed (use assms(2) in \<open>auto simp: sender_inv_def conn_ok_def taken_from_def\<close>)

lemma sender_inv_reachable:
  "sender_reachable ut up mh mmap_Open rs_New marshal s0 s \<Longrightarrow> sender_inv ut mmap_Open rs_New marshal s0 \<Longrightarrow>
   sender_inv ut mmap_Open rs_New marshal s"
  by (induction rule: sender_reachable.induct) (auto intro: sender_inv_step)

text \<open>What the sender has taken from a monitor's connection is an initial part of the assignments sent on it, and all of
  them once the connection has nothing more to say.\<close>

lemma monitor_tasks_taken:
  assumes "sender_inv ut mmap_Open rs_New marshal s" "i < length (goroutines s)"
    and "list_all2 (carries ut up) ms ps" "rx (origin (goroutines s ! i)) = concat (map frame ps)"
  shows "\<exists>rest. tasks_of ms = taken_from i s @ rest \<and>
    (waiting (gphase (goroutines s ! i)) = [] \<and> stream_tasks ut (sock (goroutines s ! i)) = [] \<longrightarrow> rest = [])"
  using assms(1,2) stream_tasks_carried [OF assms(3,4)]
  by (intro exI [of _ "waiting (gphase (goroutines s ! i)) @ stream_tasks ut (sock (goroutines s ! i))"])
    (simp add: sender_inv_def conn_ok_def Let_def)

section \<open>Properties\<close>

text \<open>C15: the sender runs the tasks of its monitor one at a time, each once, in the order it takes them, and per
  connection in the order sent. In every state it can reach: the tasks taken are those finished and at most one in hand;
  the tasks in the bytes of a connection are, in order, those taken from it, at most one that stands in the
  unbuffered channel, and those not read yet; each finished task was run by the sending loop on the file it names; and
  the state that heartbeats report is \<open>WORKING\<close> exactly while that loop runs.\<close>

theorem sender_runs_tasks_in_order:
  assumes "boot_sender resolve dial target path fs w = (Returns s0, w')"
    and "sender_reachable unmarshalTask unmarshalPing marshalHb mmap_Open rs_New marshal s0 s"
  shows "map snd (taken s) = map fst (results s) @ in_hand (sphase s) \<and>
    (\<forall>i<length (goroutines s). stream_tasks unmarshalTask (origin (goroutines s ! i)) =
       taken_from i s @ waiting (gphase (goroutines s ! i)) @ stream_tasks unmarshalTask (sock (goroutines s ! i))) \<and>
    (\<forall>res\<in>set (results s). result_ok mmap_Open rs_New marshal res) \<and>
    (currentState s = WORKING \<longleftrightarrow> (\<exists>task reader. sphase s = Transmitting task reader))"
proof -
  have inv: "sender_inv unmarshalTask mmap_Open rs_New marshal s"
    by (rule sender_inv_reachable [OF assms(2) boot_inv [OF assms(1)]])
  then have "currentState s = WORKING \<longleftrightarrow> (\<exists>task reader. sphase s = Transmitting task reader)"
    by (cases "sphase s") (auto simp: sender_inv_def)
  with inv show ?thesis by (simp add: sender_inv_def conn_ok_def list_all_iff Let_def)
qed

text \<open>C31: a heartbeat can report a task as finished before it has started. \<open>main\<close> stores \<open>WORKING\<close> only after it
  has opened the counter file and the file; a ping that is served between taking the task and that store is answered with \<open>IDLE\<close>. The
  monitor then finds the transfer without a working sender and drops it as completed, with the task
  still before its first block.\<close>

theorem premature_idle_report:
  assumes "boot_sender resolve dial target path fs w = (Returns s0, w')"
    and "sender_reachable unmarshalTask unmarshalPing marshalHb mmap_Open rs_New marshal s0 s"
    and "sphase s = Preparing task" "i < length (goroutines s)" "gphase (goroutines s ! i) = Listening"
    and "readFramed (sock (goroutines s ! i)) = Inr (p, c)" "task_of unmarshalTask p = None" "unmarshalPing p = Inr Ping"
    and "marshalHb \<lparr>State = IDLE\<rparr> = Inr hb" "tx_fault c = None"
    and "distinct (map fst (active_transfers orch))" "map_of (active_transfers orch) (FilePath task) = Some [sid]"
  shows "\<exists>s'. sender_step unmarshalTask unmarshalPing marshalHb mmap_Open rs_New marshal s s' \<and>
      tx (sock (goroutines s' ! i)) = tx c @ frame hb \<and> sphase s' = Preparing task \<and> results s' = results s \<and>
    map_of (active_transfers (sync_states (handle_heartbeat sid IDLE orch))) (FilePath task) = None"
proof -
  have "sender_inv unmarshalTask mmap_Open rs_New marshal s"
    by (rule sender_inv_reachable [OF assms(2) boot_inv [OF assms(1)]])
  with assms(3) have idle: "currentState s = IDLE" by (simp add: sender_inv_def)
  let ?c = "c\<lparr>tx := tx c @ frame hb\<rparr>"
  have "serve_round unmarshalTask unmarshalPing marshalHb (currentState s) (sock (goroutines s ! i)) = Replies ?c"
    using assms(6-10) idle by (simp add: serve_round_def writeFramed_def WriteTo_fine frame_def)
  then have "sender_step unmarshalTask unmarshalPing marshalHb mmap_Open rs_New marshal s (after_round i (Replies ?c) s)"
    using assms(3-5) by (intro sender_step.conn_served) (simp_all add: running_def)
  moreover have "tx (sock (goroutines (after_round i (Replies ?c) s) ! i)) = tx c @ frame hb"
    using assms(4) by (simp add: after_round_def set_conn_def)
  moreover have "\<not> working (sender_states (handle_heartbeat sid IDLE orch)) sid"
    by (simp add: handle_heartbeat_def working_def update_conv')
  then have "map_of (active_transfers (sync_states (handle_heartbeat sid IDLE orch))) (FilePath task) = None"
    using assms(11,12) map_of_sync [of "handle_heartbeat sid IDLE orch" "FilePath task"] by (simp add: handle_heartbeat_def)
  ultimately show ?thesis using assms(3) after_round_other by metis
qed

section \<open>Starting over a stale socket\<close>

lemma StartUDSServer_stale:
  "refused w path = None \<Longrightarrow> unusable w path = None \<Longrightarrow>
   StartUDSServer path w = (Returns (Inr ()), w\<lparr>paths := insert path (paths w)\<rparr>)"
  by (auto simp: StartUDSServer_def os_Remove_def net_Listen_def ErrNotExist_def)

text \<open>The start of a sender. A socket file left behind by an earlier process does not matter: it is removed and replaced. The
  sender comes up, idle and with nothing taken, exactly when the old socket can be removed, the path can be listened on, and the
  target resolves and can be dialled. When only the UDP side fails, the process ends with its socket
  file left in place (\<open>log.Fatal\<close> runs no deferred call).\<close>

lemma sender_boots:
  assumes "refused w path \<noteq> Some ErrNotExist"
  shows "boot_sender resolve dial target path fs w =
     (case refused w path of
        Some err \<Rightarrow> (Exits (Wrap ''Failed to remove old socket file'' [] err), w)
      | None \<Rightarrow>
          (case unusable w path of
             Some err \<Rightarrow> (Exits (Wrap ''failed to start UDS server'' [] err), w\<lparr>paths := paths w - {path}\<rparr>)
           | None \<Rightarrow>
               (let w = w\<lparr>paths := insert path (paths w)\<rparr> in
                case resolve target of
                  Inl err \<Rightarrow> (Exits err, w)
                | Inr addr \<Rightarrow>
                    (case dial addr of
                       Inl err \<Rightarrow> (Exits err, w)
                     | Inr conn \<Rightarrow> (Returns \<lparr>goroutines = [], sphase = Ranging, currentState = IDLE, counter_files = fs,
                         taken = [], results = [], process_logs = []\<rparr>, w)))))"
proof (cases "refused w path")
  case (Some err)
  with assms show ?thesis by (simp add: boot_sender_def StartUDSServer_def os_Remove_def)
next
  case None
  show ?thesis
  proof (cases "unusable w path")
    case (Some err)
    with None show ?thesis
      by (auto simp: boot_sender_def StartUDSServer_def os_Remove_def net_Listen_def ErrNotExist_def)
  next
    case none: None
    with None show ?thesis
      by (simp add: boot_sender_def StartUDSServer_stale Let_def split: sum.split)
  qed
qed

section \<open>A run\<close>

definition demo_os :: os where
  "demo_os = \<lparr>paths = {''/tmp/u.sock''}, refused = (\<lambda>p. None), unusable = (\<lambda>p. None)\<rparr>"

definition demo_sender :: sender where
  "demo_sender = \<lparr>goroutines = [], sphase = Ranging, currentState = IDLE, counter_files = Map.empty, taken = [],
     results = [], process_logs = []\<rparr>"

lemma demo_boot:
  "boot_sender (\<lambda>a. Inr ()) (\<lambda>a. Inr ()) ''t'' ''/tmp/u.sock'' Map.empty demo_os = (Returns demo_sender, demo_os)"
  by (simp add: boot_sender_def StartUDSServer_stale demo_os_def demo_sender_def)

text \<open>An empty file, a task for it, and then a ping.\<close>

definition demo_tasks :: "byte list \<Rightarrow> TaskAssignment res" where
  "demo_tasks p = (if p = [] then Inr \<lparr>FilePath = [], Task_FileHash = 0\<rparr> else Inr demo_task)"

definition demo_hb :: "Heartbeat \<Rightarrow> byte list res" where
  "demo_hb m = Inr (case State m of IDLE \<Rightarrow> [] | WORKING \<Rightarrow> [8, 1])"

definition demo_mmap :: "string \<Rightarrow> (ReaderAt \<times> int) res" where
  "demo_mmap path = Inr ((\<lambda>off n. ([], Some EOF)), 0)"

abbreviation demo_sstep2 :: "sender \<Rightarrow> sender \<Rightarrow> bool" where
  "demo_sstep2 \<equiv> sender_step demo_tasks (\<lambda>p. Inr Ping) demo_hb demo_mmap (\<lambda>k m. Inl EOF) (\<lambda>p. Inl EOF)"

abbreviation demo_sreach :: "sender \<Rightarrow> bool" where
  "demo_sreach \<equiv> sender_reachable demo_tasks (\<lambda>p. Inr Ping) demo_hb demo_mmap (\<lambda>k m. Inl EOF) (\<lambda>p. Inl EOF) demo_sender"

definition demo_input :: "byte list list \<Rightarrow> conn" where
  "demo_input ps = \<lparr>rx = concat (map frame ps), rx_end = EOF, tx = [], tx_fault = None\<rparr>"

definition demo_served :: "conn_phase \<Rightarrow> byte list list \<Rightarrow> sender" where
  "demo_served ph ps = demo_sender\<lparr>goroutines := [\<lparr>origin = demo_input [[1], []], sock = demo_input ps, gphase = ph\<rparr>]\<rparr>"

definition demo_preparing :: sender where
  "demo_preparing = (demo_served Listening [[]])\<lparr>sphase := Preparing demo_task, taken := [(0, demo_task)]\<rparr>"

lemma demo_input_read: "length p < 2 ^ 32 \<Longrightarrow> readFramed (demo_input (p # ps)) = Inr (p, demo_input ps)"
  by (simp add: demo_input_def readFramed_frame read_frame_frame)

lemma demo_preparing_reached: "demo_sreach demo_preparing"
proof -
  let ?l = "demo_served Listening [[1], []]"
  let ?h = "demo_served (Handing demo_task) [[]]"
  have "demo_sstep2 demo_sender ?l"
    using accepted [of demo_sender "demo_input [[1], []]"]
    by (simp add: running_def demo_served_def demo_sender_def demo_input_def)
  moreover have "demo_sstep2 ?l ?h"
    using conn_served [of ?l 0 demo_tasks "\<lambda>p. Inr Ping" demo_hb "Hands demo_task (demo_input [[]])"]
    by (simp add: running_def demo_served_def demo_sender_def serve_round_def demo_input_read task_of_def demo_tasks_def
        demo_task_def after_round_def set_conn_def)
  moreover have "demo_sstep2 ?h demo_preparing"
    using task_taken [of ?h 0 demo_task]
    by (simp add: demo_preparing_def demo_served_def demo_sender_def set_conn_def)
  ultimately show ?thesis by (meson sender_reachable.intros)
qed

lemma sender_boots_witness:
  "boot_sender (\<lambda>a. Inr ()) (\<lambda>a. Inl EOF) ''t'' ''/tmp/u.sock'' Map.empty demo_os = (Exits EOF, demo_os) \<and>
   ''/tmp/u.sock'' \<in> paths demo_os"
  by (subst sender_boots) (simp_all add: demo_os_def ErrNotExist_def)

theorem sender_runs_tasks_in_order_witness:
  "\<exists>s tr. demo_sreach s \<and> sphase s = Ranging \<and> results s = [(demo_task, tr)] \<and> taken_from 0 s = [demo_task] \<and>
     stream_tasks demo_tasks (demo_input [[1], []]) = [demo_task] @ stream_tasks demo_tasks (demo_input [[]])"
proof -
  let ?env = "\<lparr>env_MkdirAll = None, env_OpenExcl = None, env_InitWrite = None, env_Open = None, env_Stat = None\<rparr>"
  obtain f fs where f: "InitCounterFile ?env (counter_path (Task_FileHash demo_task)) Map.empty = (Inr f, fs)"
    by (simp add: InitCounterFile_def Let_def)
  obtain reader where r: "OpenFile demo_mmap (FilePath demo_task) = Inr reader" "Size reader = 0"
    by (simp add: OpenFile_def demo_mmap_def Size_def)
  let ?t = "demo_preparing\<lparr>counter_files := fs, sphase := Transmitting demo_task reader, currentState := WORKING\<rparr>"
  have "demo_sstep2 demo_preparing ?t"
    using f r(1) by (intro task_started) (simp_all add: demo_preparing_def demo_served_def demo_sender_def)
  moreover let ?tr = "\<lparr>tr_groups = [], tr_events = [], tr_logs = []\<rparr>"
  have "claim_loop (\<lambda>k m. Inl EOF) (\<lambda>p. Inl EOF) (\<lambda>n k. None) (Task_FileHash demo_task) reader [(None, 0)] ?tr = Some ?tr"
    using r(2) by (simp add: totalBlocks_of_def senders_BlockSize_def)
  then have "demo_sstep2 ?t (?t\<lparr>results := results ?t @ [(demo_task, ?tr)], sphase := Ranging, currentState := IDLE\<rparr>)"
    by (rule task_finished [rotated]) simp
  ultimately have reach: "demo_sreach (?t\<lparr>results := results ?t @ [(demo_task, ?tr)], sphase := Ranging, currentState := IDLE\<rparr>)"
    (is "demo_sreach ?s") using demo_preparing_reached by (meson sender_reachable.intros)
  have "taken_from 0 ?s = [demo_task]" "goroutines ?s = [\<lparr>origin = demo_input [[1], []], sock = demo_input [[]], gphase = Listening\<rparr>]"
      "results ?s = [(demo_task, ?tr)]"
    by (simp_all add: taken_from_def demo_preparing_def demo_served_def demo_sender_def)
  with sender_runs_tasks_in_order [OF demo_boot reach] reach show ?thesis
    by (intro exI [of _ ?s] exI [of _ ?tr]) simp
qed

theorem premature_idle_report_witness:
  "\<exists>s' orch. demo_sstep2 demo_preparing s' \<and> tx (sock (goroutines s' ! 0)) = frame [] \<and> sphase s' = Preparing demo_task \<and>
     map_of (active_transfers orch) (FilePath demo_task) = Some [1] \<and>
     map_of (active_transfers (sync_states (handle_heartbeat 1 IDLE orch))) (FilePath demo_task) = None"
proof -
  let ?orch = "(start_orchestrator [1])\<lparr>active_transfers := [(FilePath demo_task, [1])]\<rparr>"
  have "readFramed (sock (goroutines demo_preparing ! 0)) = Inr ([], demo_input [])"
    by (simp add: demo_preparing_def demo_served_def demo_input_read)
  from premature_idle_report [OF demo_boot demo_preparing_reached _ _ _ this, of demo_task "[]" ?orch 1]
  obtain s' where "demo_sstep2 demo_preparing s'" "tx (sock (goroutines s' ! 0)) = tx (demo_input []) @ frame []"
      "sphase s' = Preparing demo_task"
      "map_of (active_transfers (sync_states (handle_heartbeat 1 IDLE ?orch))) (FilePath demo_task) = None"
    by (auto simp: demo_preparing_def demo_served_def task_of_def demo_tasks_def demo_hb_def demo_input_def)
  then show ?thesis by (intro exI [of _ s'] exI [of _ ?orch]) (simp add: demo_input_def)
qed

end
