(* ===== verification/Monitor_Link.thy ===== *)
theory Monitor_Link
  imports Sender_Process
begin

text \<open>
  The monitor's end of the links to the senders, \<open>file-monitor/src/ipc_manager.py\<close>, and the loop that drives it,
  \<open>Orchestrator.run\<close>: the non-blocking sockets with their short sends and receives, the framing, pings, heartbeats, and the exceptions
  that are not caught. The orchestrator of theory \<open>File_Monitor\<close> is shown to be what this loop does as long as it
  runs; every sender then takes the tasks that the orchestrator assigned to it, in order, unless a send
  was cut short.
\<close>

section \<open>Sockets\<close>

datatype py_error = BlockingIOError | BrokenPipeError | ConnectionResetError | FileNotFoundError | ConnectionRefusedError
  | AttributeError | StructError | LibraryError error

datatype peer_end = Peer_open | Peer_closed | Peer_reset

text \<open>
  A connected non-blocking socket: the bytes the kernel has taken from the monitor, the room left in its buffer, the bytes that have
  arrived and were not read, and the other end. \<open>cut_off\<close> notes that a send was cut short; the program does not keep it.
\<close>

record pysock =
  wrote :: "byte list"
  room :: nat
  inbox :: "byte list"
  peer :: peer_end
  cut_off :: bool

text \<open>\<open>sendall\<close> on a non-blocking socket: what does not fit raises, after a part of the data may have been sent.\<close>

definition sendall :: "byte list \<Rightarrow> pysock \<Rightarrow> py_error option \<times> pysock" where
  "sendall data s =
     (case peer s of
        Peer_closed \<Rightarrow> (Some BrokenPipeError, s)
      | Peer_reset \<Rightarrow> (Some ConnectionResetError, s\<lparr>peer := Peer_closed\<rparr>)
      | Peer_open \<Rightarrow>
          if length data \<le> room s then (None, s\<lparr>wrote := wrote s @ data, room := room s - length data\<rparr>)
          else (Some BlockingIOError, s\<lparr>wrote := wrote s @ take (room s) data, room := 0, cut_off := True\<rparr>))"

text \<open>\<open>recv(n)\<close>: at most \<open>n\<close> of the bytes that are there; none and no error once the other end has closed.\<close>

definition recv :: "nat \<Rightarrow> pysock \<Rightarrow> (py_error + byte list) \<times> pysock" where
  "recv n s =
     (if n = 0 then (Inr [], s)
      else if inbox s \<noteq> [] then (Inr (take n (inbox s)), s\<lparr>inbox := drop n (inbox s)\<rparr>)
      else (case peer s of
              Peer_open \<Rightarrow> (Inl BlockingIOError, s)
            | Peer_closed \<Rightarrow> (Inr [], s)
            | Peer_reset \<Rightarrow> (Inl ConnectionResetError, s\<lparr>peer := Peer_closed\<rparr>)))"

section \<open>IPCManager\<close>

text \<open>The dict \<open>sockets\<close>, by sender and in insertion order.\<close>

type_synonym ipc_links = "(sender_id \<times> pysock) list"

fun connect_to_senders :: "(sender_id \<Rightarrow> py_error + pysock) \<Rightarrow> sender_id list \<Rightarrow> py_error + ipc_links" where
  "connect_to_senders connect [] = Inr []"
| "connect_to_senders connect (sid # sids) =
     (case connect sid of
        Inl e \<Rightarrow> if e = FileNotFoundError \<or> e = ConnectionRefusedError then connect_to_senders connect sids else Inl e
      | Inr sk \<Rightarrow>
          (case connect_to_senders connect sids of Inl e \<Rightarrow> Inl e | Inr ls \<Rightarrow> Inr ((sid, sk) # ls)))"

definition send_framed :: "sender_id \<Rightarrow> byte list \<Rightarrow> ipc_links \<Rightarrow> py_error option \<times> ipc_links" where
  "send_framed sid payload ls =
     (if \<not> length payload < 2 ^ 32 then (Some StructError, ls)
      else
        (let header = BigEndian_PutUint32 (of_nat (length payload))
         in case map_of ls sid of
              None \<Rightarrow> (Some AttributeError, ls)
            | Some target_sock \<Rightarrow>
                (case sendall (header @ payload) target_sock of
                   (e, sk) \<Rightarrow> (if e = Some BlockingIOError then None else e, AList.update sid sk ls))))"

definition send_task ::
  "(TaskAssignment \<Rightarrow> byte list res) \<Rightarrow> sender_id \<Rightarrow> string \<Rightarrow> uint64 \<Rightarrow> ipc_links \<Rightarrow> py_error option \<times> ipc_links" where
  "send_task serialize sid path hash ls =
     (case serialize \<lparr>FilePath = path, Task_FileHash = hash\<rparr> of
        Inl err \<Rightarrow> (Some (LibraryError err), ls)
      | Inr payload \<Rightarrow> send_framed sid payload ls)"

fun ping_each :: "byte list \<Rightarrow> sender_id list \<Rightarrow> ipc_links \<Rightarrow> py_error option \<times> ipc_links" where
  "ping_each ping [] ls = (None, ls)"
| "ping_each ping (sid # sids) ls =
     (case send_framed sid ping ls of
        (Some e, ls) \<Rightarrow> (Some e, ls)
      | (None, ls) \<Rightarrow> ping_each ping sids ls)"

definition ping_all :: "byte list \<Rightarrow> ipc_links \<Rightarrow> py_error option \<times> ipc_links" where
  "ping_all ping ls = ping_each ping (map fst ls) ls"

text \<open>
  \<open>_handle_read\<close>: the new state of the sender, nothing, or an exception that is not caught. The parser gives the number of the
  state, of which only 1 counts as working.
\<close>

definition caught :: "py_error \<Rightarrow> py_error + SenderState option" where
  "caught e = (if e = BlockingIOError \<or> e = ConnectionResetError then Inr None else Inl e)"

definition handle_read :: "(byte list \<Rightarrow> nat res) \<Rightarrow> pysock \<Rightarrow> (py_error + SenderState option) \<times> pysock" where
  "handle_read parse s =
     (case recv 4 s of
        (Inl e, s) \<Rightarrow> (caught e, s)
      | (Inr header, s) \<Rightarrow>
          if header = [] then (Inr None, s)
          else if length header \<noteq> 4 then (Inl StructError, s)
          else
            (case recv (unat (BigEndian_Uint32 header)) s of
               (Inl e, s) \<Rightarrow> (caught e, s)
             | (Inr payload, s) \<Rightarrow>
                 (case parse payload of
                    Inl err \<Rightarrow> (Inl (LibraryError err), s)
                  | Inr state \<Rightarrow> (Inr (Some (if state = 1 then WORKING else IDLE)), s))))"

section \<open>The event loop\<close>

datatype run_at = At_poll | At_ping | At_sync

text \<open>
  \<open>crashed\<close>: the exception that has left \<open>run\<close>. \<open>watched\<close> is the history of the watcher: what it queued, with the bytes that it hashed.
\<close>

record monitor =
  orchestrator :: Orchestrator
  links :: ipc_links
  crashed :: "py_error option"
  run_pc :: run_at
  watched :: "(FileMetadata \<times> byte list) list"

definition read_link :: "(byte list \<Rightarrow> nat res) \<Rightarrow> sender_id \<Rightarrow> monitor \<Rightarrow> monitor" where
  "read_link parse sid m =
     (case map_of (links m) sid of
        None \<Rightarrow> m
      | Some sk \<Rightarrow>
          (case handle_read parse sk of
             (r, sk) \<Rightarrow>
               (let m = m\<lparr>links := AList.update sid sk (links m)\<rparr>
                in case r of
                     Inl e \<Rightarrow> m\<lparr>crashed := Some e\<rparr>
                   | Inr None \<Rightarrow> m
                   | Inr (Some state) \<Rightarrow> m\<lparr>orchestrator := handle_heartbeat sid state (orchestrator m)\<rparr>)))"

fun poll_each :: "(byte list \<Rightarrow> nat res) \<Rightarrow> sender_id list \<Rightarrow> monitor \<Rightarrow> monitor" where
  "poll_each parse [] m = m"
| "poll_each parse (sid # ready) m =
     (let m = read_link parse sid m in if crashed m \<noteq> None then m else poll_each parse ready m)"

definition ipc_assign :: "(TaskAssignment \<Rightarrow> byte list res) \<Rightarrow> sender_id \<Rightarrow> FileMetadata \<Rightarrow> monitor \<Rightarrow> monitor" where
  "ipc_assign serialize sid metadata m =
     (case send_task serialize sid (file_path metadata) (file_hash metadata) (links m) of
        (Some e, ls) \<Rightarrow> m\<lparr>links := ls, crashed := Some e\<rparr>
      | (None, ls) \<Rightarrow> m\<lparr>links := ls, orchestrator := note_assignment sid metadata (orchestrator m)\<rparr>)"

fun ipc_assign_all :: "(TaskAssignment \<Rightarrow> byte list res) \<Rightarrow> sender_id list \<Rightarrow> FileMetadata \<Rightarrow> monitor \<Rightarrow> monitor" where
  "ipc_assign_all serialize [] metadata m = m"
| "ipc_assign_all serialize (sid # sids) metadata m =
     (let m = ipc_assign serialize sid metadata m
      in if crashed m \<noteq> None then m else ipc_assign_all serialize sids metadata m)"

definition ipc_dispatch :: "(TaskAssignment \<Rightarrow> byte list res) \<Rightarrow> monitor \<Rightarrow> monitor" where
  "ipc_dispatch serialize m =
     (let orc = orchestrator m; idle = idle_sockets orc in
      if idle = [] then m
      else
        (case current_large_file orc of
           Some f \<Rightarrow> ipc_assign_all serialize (filter (\<lambda>sock. sock \<notin> finished_large_file_senders orc) idle) f m
         | None \<Rightarrow>
             (case task_queue orc of
                [] \<Rightarrow> m
              | metadata # q \<Rightarrow>
                  if meta_file_size metadata < TEN_MB_BYTES
                  then ipc_assign serialize (hd idle) metadata (m\<lparr>orchestrator := orc\<lparr>task_queue := q\<rparr>\<rparr>)
                  else ipc_assign_all serialize idle metadata
                    (m\<lparr>orchestrator := orc\<lparr>task_queue := q, current_large_file := Some metadata\<rparr>\<rparr>))))"

text \<open>What the other side of a link and the kernel may do at any moment.\<close>

inductive peer_step :: "pysock \<Rightarrow> pysock \<Rightarrow> bool" where
  arrives: "peer sk = Peer_open \<Longrightarrow> peer_step sk (sk\<lparr>inbox := inbox sk @ bs\<rparr>)"
| drains: "peer_step sk (sk\<lparr>room := room sk + n\<rparr>)"
| hangs_up: "peer sk = Peer_open \<Longrightarrow> p \<noteq> Peer_open \<Longrightarrow> peer_step sk (sk\<lparr>peer := p\<rparr>)"

definition readable :: "pysock \<Rightarrow> bool" where
  "readable sk \<longleftrightarrow> inbox sk \<noteq> [] \<or> peer sk \<noteq> Peer_open"

inductive link_step ::
  "(TaskAssignment \<Rightarrow> byte list res) \<Rightarrow> byte list \<Rightarrow> (byte list \<Rightarrow> nat res) \<Rightarrow> (string \<Rightarrow> string) \<Rightarrow> (byte list \<Rightarrow> uint64) \<Rightarrow>
   string \<Rightarrow> monitor \<Rightarrow> monitor \<Rightarrow> bool"
  for serialize ping parse basename hash watch_dir where
  file_watched: "metadata \<in> set (watch_event basename hash fs watch_dir event) \<Longrightarrow> fs (file_path metadata) = Some bs \<Longrightarrow>
    link_step serialize ping parse basename hash watch_dir m
      (m\<lparr>orchestrator := (orchestrator m)\<lparr>task_queue := task_queue (orchestrator m) @ [metadata]\<rparr>,
         watched := watched m @ [(metadata, bs)]\<rparr>)"
| peer_moves: "map_of (links m) sid = Some sk \<Longrightarrow> peer_step sk sk' \<Longrightarrow>
    link_step serialize ping parse basename hash watch_dir m (m\<lparr>links := AList.update sid sk' (links m)\<rparr>)"
| polled: "crashed m = None \<Longrightarrow> run_pc m = At_poll \<Longrightarrow> distinct ready \<Longrightarrow>
    \<forall>sid\<in>set ready. \<exists>sk. map_of (links m) sid = Some sk \<and> readable sk \<Longrightarrow>
    link_step serialize ping parse basename hash watch_dir m (poll_each parse ready m\<lparr>run_pc := At_ping\<rparr>)"
| ping_not_due: "crashed m = None \<Longrightarrow> run_pc m = At_ping \<Longrightarrow>
    link_step serialize ping parse basename hash watch_dir m (m\<lparr>run_pc := At_sync\<rparr>)"
| pinged: "crashed m = None \<Longrightarrow> run_pc m = At_ping \<Longrightarrow> ping_all ping (links m) = (e, ls) \<Longrightarrow>
    link_step serialize ping parse basename hash watch_dir m (m\<lparr>links := ls, crashed := e, run_pc := At_sync\<rparr>)"
| dispatched: "crashed m = None \<Longrightarrow> run_pc m = At_sync \<Longrightarrow>
    link_step serialize ping parse basename hash watch_dir m
      (ipc_dispatch serialize (m\<lparr>orchestrator := sync_states (orchestrator m), run_pc := At_poll\<rparr>))"

text \<open>The start in \<open>main.py\<close>: all senders idle, the sockets connected that can be.\<close>

definition start_monitor :: "sender_id list \<Rightarrow> ipc_links \<Rightarrow> monitor" where
  "start_monitor ids ls = \<lparr>orchestrator = start_orchestrator ids, links = ls, crashed = None, run_pc = At_poll, watched = []\<rparr>"

inductive link_reachable ::
  "(TaskAssignment \<Rightarrow> byte list res) \<Rightarrow> byte list \<Rightarrow> (byte list \<Rightarrow> nat res) \<Rightarrow> (string \<Rightarrow> string) \<Rightarrow> (byte list \<Rightarrow> uint64) \<Rightarrow>
   string \<Rightarrow> monitor \<Rightarrow> monitor \<Rightarrow> bool"
  for serialize ping parse basename hash watch_dir m0 where
  begun: "link_reachable serialize ping parse basename hash watch_dir m0 m0"
| moved: "link_reachable serialize ping parse basename hash watch_dir m0 m \<Longrightarrow>
    link_step serialize ping parse basename hash watch_dir m m' \<Longrightarrow>
    link_reachable serialize ping parse basename hash watch_dir m0 m'"

section \<open>What the links have carried\<close>

definition task_for :: "FileMetadata \<Rightarrow> TaskAssignment" where
  "task_for md = \<lparr>FilePath = file_path md, Task_FileHash = file_hash md\<rparr>"

definition tasks_to :: "sender_id \<Rightarrow> (sender_id \<times> TaskAssignment) list \<Rightarrow> TaskAssignment list" where
  "tasks_to sid ts = map snd (filter (\<lambda>x. fst x = sid) ts)"

lemma tasks_to_append [simp]: "tasks_to sid (ts @ ts') = tasks_to sid ts @ tasks_to sid ts'"
  by (simp add: tasks_to_def)

text \<open>A link is aligned when it has carried whole frames only, and the assignments among them are \<open>ts\<close>.\<close>

definition aligned ::
  "(byte list \<Rightarrow> TaskAssignment res) \<Rightarrow> (byte list \<Rightarrow> Ping res) \<Rightarrow> TaskAssignment list \<Rightarrow> byte list \<Rightarrow> bool" where
  "aligned ut up ts bs \<longleftrightarrow> (\<exists>ms ps. list_all2 (carries ut up) ms ps \<and> bs = concat (map frame ps) \<and> tasks_of ms = ts)"

lemma tasks_of_append: "tasks_of (ms @ ms') = tasks_of ms @ tasks_of ms'"
  by (induction ms rule: tasks_of.induct) simp_all

lemma aligned_append:
  "aligned ut up ts bs \<Longrightarrow> carries ut up msg p \<Longrightarrow> aligned ut up (ts @ tasks_of [msg]) (bs @ frame p)"
  unfolding aligned_def
  by (elim exE conjE) (intro exI [of _ "_ @ [msg]"] exI [of _ "_ @ [p]"], auto simp: tasks_of_append list_all2_appendI)

definition links_ok ::
  "(byte list \<Rightarrow> TaskAssignment res) \<Rightarrow> (byte list \<Rightarrow> Ping res) \<Rightarrow> (sender_id \<times> TaskAssignment) list \<Rightarrow> ipc_links \<Rightarrow> bool" where
  "links_ok ut up sent ls \<longleftrightarrow>
     (\<forall>sid sk. map_of ls sid = Some sk \<longrightarrow> \<not> cut_off sk \<longrightarrow> aligned ut up (tasks_to sid sent) (wrote sk))"

lemma links_okI:
  "(\<And>sid sk. map_of ls sid = Some sk \<Longrightarrow> \<not> cut_off sk \<Longrightarrow> aligned ut up (tasks_to sid sent) (wrote sk)) \<Longrightarrow> links_ok ut up sent ls"
  by (simp add: links_ok_def)

lemma links_okD:
  "links_ok ut up sent ls \<Longrightarrow> map_of ls sid = Some sk \<Longrightarrow> \<not> cut_off sk \<Longrightarrow> aligned ut up (tasks_to sid sent) (wrote sk)"
  by (simp add: links_ok_def)

text \<open>A change of one link that leaves alone what it has carried.\<close>

definition same_output :: "pysock \<Rightarrow> pysock \<Rightarrow> bool" where
  "same_output sk sk' \<longleftrightarrow> wrote sk' = wrote sk \<and> cut_off sk' = cut_off sk"

lemma links_ok_same:
  "links_ok ut up sent ls \<Longrightarrow> map_of ls sid = Some sk \<Longrightarrow> same_output sk sk' \<Longrightarrow> links_ok ut up sent (AList.update sid sk' ls)"
  by (auto simp: links_ok_def same_output_def map_of_update split: if_splits)

lemma update_keeps_keys: "map_of ls k = Some v \<Longrightarrow> map fst (AList.update k v' ls) = map fst ls"
  by (force simp: update_keys dest: map_of_SomeD)

lemma peer_step_output: "peer_step sk sk' \<Longrightarrow> same_output sk sk'"
  by (induction rule: peer_step.induct) (simp_all add: same_output_def)

lemma recv_output: "recv n sk = (r, sk') \<Longrightarrow> same_output sk sk'"
  by (auto simp: recv_def same_output_def split: if_splits peer_end.splits)

lemma same_output_trans: "same_output a b \<Longrightarrow> same_output b c \<Longrightarrow> same_output a c"
  by (simp add: same_output_def)

lemma handle_read_output: "handle_read parse sk = (r, sk') \<Longrightarrow> same_output sk sk'"
  by (auto simp: handle_read_def split: prod.splits sum.splits if_splits
      dest!: recv_output intro: same_output_trans)

lemma sendall_output:
  assumes "sendall data sk = (e, sk')"
  shows "e = None \<Longrightarrow> wrote sk' = wrote sk @ data \<and> cut_off sk' = cut_off sk" "e = Some BlockingIOError \<Longrightarrow> cut_off sk'"
    "e \<noteq> None \<Longrightarrow> e \<noteq> Some BlockingIOError \<Longrightarrow> same_output sk sk'"
  using assms by (auto simp: sendall_def same_output_def split: peer_end.splits if_splits)

lemma send_framed_keys: "send_framed sid p ls = (e, ls') \<Longrightarrow> map fst ls' = map fst ls"
  by (auto simp: send_framed_def Let_def update_keeps_keys split: if_splits option.splits prod.splits)

text \<open>A send that does not raise adds its frame to the link, or cuts the link.\<close>

lemma send_framed_ok:
  assumes ok: "links_ok ut up sent ls" and msg: "carries ut up msg p" and send: "send_framed sid p ls = (e, ls')"
  shows "links_ok ut up (if e = None then sent @ map (Pair sid) (tasks_of [msg]) else sent) ls'"
proof (cases "length p < 2 ^ 32 \<and> map_of ls sid \<noteq> None")
  case False
  with send have "e \<noteq> None" "ls' = ls" by (auto simp: send_framed_def split: if_splits option.splits)
  with ok show ?thesis by auto
next
  case True
  then obtain sk where len: "length p < 2 ^ 32" and sk: "map_of ls sid = Some sk" by blast
  obtain e0 sk' where all: "sendall (frame p) sk = (e0, sk')" by fastforce
  with send len sk have e: "e = (if e0 = Some BlockingIOError then None else e0)" and ls': "ls' = AList.update sid sk' ls"
    by (simp_all add: send_framed_def Let_def flip: frame_def)
  note out = sendall_output [OF all]
  show ?thesis
  proof (rule links_okI)
    fix i s
    assume i: "map_of ls' i = Some s" "\<not> cut_off s"
    show "aligned ut up (tasks_to i (if e = None then sent @ map (Pair sid) (tasks_of [msg]) else sent)) (wrote s)"
    proof (cases "i = sid")
      case True
      with i ls' have s: "s = sk'" "e0 \<noteq> Some BlockingIOError" using out(2) by (auto simp: map_of_update)
      have new: "tasks_to sid (map (Pair sid) ts) = ts" for ts by (simp add: tasks_to_def comp_def)
      show ?thesis
      proof (cases "e0 = None")
        case fine: True
        with out(1) s i have "wrote s = wrote sk @ frame p" "\<not> cut_off sk" by auto
        with aligned_append [OF links_okD [OF ok sk] msg] fine e True new show ?thesis by auto
      next
        case False
        with out(3) s(2) have "same_output sk sk'" by simp
        with False e s True i links_okD [OF ok sk] show ?thesis by (auto simp: same_output_def)
      qed
    next
      case False
      with i ls' have "map_of ls i = Some s" by (simp add: map_of_update)
      moreover have "tasks_to i (map (Pair sid) ts) = []" for ts using False by (simp add: tasks_to_def filter_empty_conv)
      ultimately show ?thesis using links_okD [OF ok] i by simp
    qed
  qed
qed

section \<open>Invariant of the monitor\<close>

text \<open>What is queued, current or assigned was queued by the watcher, which records what it hashed.\<close>

definition known :: "monitor \<Rightarrow> FileMetadata set" where
  "known m = fst ` set (watched m)"

definition metadata_ok :: "FileMetadata set \<Rightarrow> Orchestrator \<Rightarrow> bool" where
  "metadata_ok K orc \<longleftrightarrow> set (task_queue orc) \<subseteq> K \<and> set_option (current_large_file orc) \<subseteq> K \<and>
     snd ` set (sent_tasks orc) \<subseteq> task_for ` K"

definition watched_ok :: "(byte list \<Rightarrow> uint64) \<Rightarrow> monitor \<Rightarrow> bool" where
  "watched_ok hash m \<longleftrightarrow> (\<forall>(md, bs)\<in>set (watched m). file_path md \<noteq> [] \<and> bs \<noteq> [] \<and>
     meta_file_size md = int (length bs) \<and> file_hash md = hash bs)"

definition link_inv ::
  "(byte list \<Rightarrow> TaskAssignment res) \<Rightarrow> (byte list \<Rightarrow> Ping res) \<Rightarrow> (byte list \<Rightarrow> uint64) \<Rightarrow> monitor \<Rightarrow> bool" where
  "link_inv ut up hash m \<longleftrightarrow> links_ok ut up (sent_tasks (orchestrator m)) (links m) \<and>
     metadata_ok (known m) (orchestrator m) \<and> watched_ok hash m"

lemma sync_keeps [simp]:
  "task_queue (sync_states orc) = task_queue orc" "sent_tasks (sync_states orc) = sent_tasks orc"
  "set_option (current_large_file (sync_states orc)) \<subseteq> set_option (current_large_file orc)"
  by (simp_all add: sync_states_def remove_completed_def sync_transfers_def Let_def)

lemma metadata_ok_sync: "metadata_ok K orc \<Longrightarrow> metadata_ok K (sync_states orc)"
  using sync_keeps(3) [of orc] unfolding metadata_ok_def sync_keeps(1,2) by blast

lemma handle_heartbeat_keeps [simp]:
  "task_queue (handle_heartbeat sid st orc) = task_queue orc" "sent_tasks (handle_heartbeat sid st orc) = sent_tasks orc"
  "current_large_file (handle_heartbeat sid st orc) = current_large_file orc"
  by (simp_all add: handle_heartbeat_def)

lemma metadata_ok_assign:
  "metadata_ok K orc \<Longrightarrow> md \<in> K \<Longrightarrow> metadata_ok K (note_assignment sid md orc)"
  by (auto simp: metadata_ok_def note_assignment_def task_for_def)

lemma watch_event_ok:
  assumes "md \<in> set (watch_event basename hash fs watch_dir event)" "fs (file_path md) = Some bs"
  shows "file_path md \<noteq> [] \<and> bs \<noteq> [] \<and> meta_file_size md = int (length bs) \<and> file_hash md = hash bs"
  using assms by (auto simp: watch_event_def process_file_def Let_def split: if_splits option.splits)

lemma read_link_keeps:
  "watched (read_link parse sid m) = watched m" "map fst (links (read_link parse sid m)) = map fst (links m)"
  "run_pc (read_link parse sid m) = run_pc m"
  "task_queue (orchestrator (read_link parse sid m)) = task_queue (orchestrator m)"
  "sent_tasks (orchestrator (read_link parse sid m)) = sent_tasks (orchestrator m)"
  "current_large_file (orchestrator (read_link parse sid m)) = current_large_file (orchestrator m)"
  by (auto simp: read_link_def Let_def update_keeps_keys split: option.split prod.split sum.split)

lemma read_link_ok: "links_ok ut up sent (links m) \<Longrightarrow> links_ok ut up sent (links (read_link parse sid m))"
  by (auto simp: read_link_def Let_def split: option.split prod.split sum.split
      intro: links_ok_same dest: handle_read_output)

lemma read_link_inv: "link_inv ut up hash m \<Longrightarrow> link_inv ut up hash (read_link parse sid m)"
  by (simp add: link_inv_def metadata_ok_def watched_ok_def known_def read_link_keeps read_link_ok)

lemma poll_each_inv: "link_inv ut up hash m \<Longrightarrow> link_inv ut up hash (poll_each parse ready m)"
  by (induction parse ready m rule: poll_each.induct) (simp_all add: Let_def read_link_inv)

lemma link_inv_pc [simp]: "link_inv ut up hash (m\<lparr>run_pc := pc\<rparr>) = link_inv ut up hash m"
  by (simp add: link_inv_def known_def watched_ok_def)

text \<open>What the serialisation of the two messages promises, between the monitor in Python and the sender in Go.\<close>

locale monitor_codec =
  fixes serialize :: "TaskAssignment \<Rightarrow> byte list res" and ping :: "byte list"
    and ut :: "byte list \<Rightarrow> TaskAssignment res" and up :: "byte list \<Rightarrow> Ping res"
  assumes task_read: "serialize t = Inr p \<Longrightarrow> ut p = Inr t"
    and ping_read: "carries ut up Poll ping"
begin

lemma send_task_ok:
  assumes "links_ok ut up sent ls" "path \<noteq> []" "send_task serialize sid path h ls = (e, ls')"
  shows "links_ok ut up (if e = None then sent @ [(sid, \<lparr>FilePath = path, Task_FileHash = h\<rparr>)] else sent) ls'"
proof (cases "serialize \<lparr>FilePath = path, Task_FileHash = h\<rparr>")
  case (Inl err)
  with assms show ?thesis by (auto simp: send_task_def)
next
  case (Inr p)
  with assms(3) have send: "send_framed sid p ls = (e, ls')" by (simp add: send_task_def)
  show ?thesis
  proof (cases "length p < 2 ^ 32")
    case True
    then have "carries ut up (Assign \<lparr>FilePath = path, Task_FileHash = h\<rparr>) p" using task_read [OF Inr] assms(2) by simp
    from send_framed_ok [OF assms(1) this send] show ?thesis by (cases e) simp_all
  next
    case False
    with send assms(1) show ?thesis by (auto simp: send_framed_def)
  qed
qed

lemma ping_each_ok: "links_ok ut up sent ls \<Longrightarrow> ping_each ping sids ls = (e, ls') \<Longrightarrow> links_ok ut up sent ls'"
proof (induction sids arbitrary: ls)
  case (Cons sid sids)
  obtain e1 ls1 where s: "send_framed sid ping ls = (e1, ls1)" by fastforce
  from send_framed_ok [OF Cons.prems(1) ping_read s] have "links_ok ut up sent ls1" by (simp split: if_splits)
  with Cons s show ?case by (cases e1) auto
qed simp

lemma ipc_assign_inv:
  assumes "link_inv ut up hash m" "md \<in> known m"
  shows "link_inv ut up hash (ipc_assign serialize sid md m)"
proof -
  have "file_path md \<noteq> []" using assms by (auto simp: link_inv_def watched_ok_def known_def)
  moreover obtain e ls where "send_task serialize sid (file_path md) (file_hash md) (links m) = (e, ls)" by fastforce
  ultimately show ?thesis
    using assms send_task_ok [of "sent_tasks (orchestrator m)" "links m" "file_path md" sid "file_hash md" e ls]
      metadata_ok_assign [of "known m" "orchestrator m" md sid]
    by (auto simp: link_inv_def ipc_assign_def known_def watched_ok_def note_assignment_def split: option.splits)
qed

lemma ipc_assign_known [simp]: "known (ipc_assign serialize sid md m) = known m"
  by (auto simp: ipc_assign_def known_def split: prod.split option.split)

lemma ipc_assign_all_inv:
  "link_inv ut up hash m \<Longrightarrow> md \<in> known m \<Longrightarrow> link_inv ut up hash (ipc_assign_all serialize sids md m)"
  by (induction sids arbitrary: m) (simp_all add: Let_def ipc_assign_inv)

lemma ipc_dispatch_inv:
  assumes "link_inv ut up hash m"
  shows "link_inv ut up hash (ipc_dispatch serialize m)"
proof -
  have q: "link_inv ut up hash (m\<lparr>orchestrator := (orchestrator m)\<lparr>task_queue := q\<rparr>\<rparr>) \<and>
      link_inv ut up hash (m\<lparr>orchestrator := (orchestrator m)\<lparr>task_queue := q, current_large_file := Some md\<rparr>\<rparr>) \<and> md \<in> known m"
    if "task_queue (orchestrator m) = md # q" for md q
    using assms that by (auto simp: link_inv_def metadata_ok_def known_def watched_ok_def)
  have f: "f \<in> known m" if "current_large_file (orchestrator m) = Some f" for f
    using assms that by (auto simp: link_inv_def metadata_ok_def)
  show ?thesis
    using assms q f unfolding ipc_dispatch_def Let_def
    by (auto split: option.split list.split intro!: ipc_assign_all_inv ipc_assign_inv simp: known_def)
qed

lemma link_inv_step:
  assumes "link_step serialize ping parse basename hash watch_dir m m'" "link_inv ut up hash m"
  shows "link_inv ut up hash m'"
  using assms(1)
proof cases
  case (file_watched md fs event bs)
  with assms(2) watch_event_ok [OF file_watched(2,3)] show ?thesis
    by (auto simp: link_inv_def metadata_ok_def known_def watched_ok_def)
next
  case (peer_moves sid sk sk')
  with assms(2) show ?thesis
    by (auto simp: link_inv_def known_def watched_ok_def intro: links_ok_same peer_step_output)
next
  case (polled ready)
  with assms(2) show ?thesis by (simp add: poll_each_inv)
next
  case ping_not_due
  with assms(2) show ?thesis by simp
next
  case (pinged e ls)
  with assms(2) show ?thesis
    by (auto simp: link_inv_def known_def watched_ok_def ping_all_def intro: ping_each_ok)
next
  case dispatched
  have "link_inv ut up hash (m\<lparr>orchestrator := sync_states (orchestrator m), run_pc := At_poll\<rparr>)"
    using assms(2) metadata_ok_sync [of "known m" "orchestrator m"] by (auto simp: link_inv_def known_def watched_ok_def)
  with dispatched show ?thesis by (simp add: ipc_dispatch_inv)
qed

lemma link_inv_reachable:
  "link_reachable serialize ping parse basename hash watch_dir m0 m \<Longrightarrow> link_inv ut up hash m0 \<Longrightarrow> link_inv ut up hash m"
  by (induction rule: link_reachable.induct) (auto intro: link_inv_step)

end

section \<open>Refinement of the orchestrator\<close>

text \<open>As long as no exception has left it, the loop over the sockets is the orchestrator of theory \<open>File_Monitor\<close>.\<close>

lemma send_task_None:
  "send_task serialize sid path h ls = (None, ls') \<Longrightarrow> sid \<in> fst ` set ls"
  by (auto simp: send_task_def send_framed_def Let_def split: sum.splits if_splits option.splits dest: map_of_SomeD
      intro: rev_image_eqI)

lemma send_task_keys: "send_task serialize sid path h ls = (e, ls') \<Longrightarrow> map fst ls' = map fst ls"
  by (auto simp: send_task_def dest: send_framed_keys split: sum.splits)

lemma ipc_assign_keys [simp]: "fst ` set (links (ipc_assign serialize sid md m)) = fst ` set (links m)"
  by (auto simp: ipc_assign_def split: prod.split option.split dest!: send_task_keys simp flip: set_map)

lemma ipc_assign_refines:
  "crashed m = None \<Longrightarrow> crashed (ipc_assign serialize sid md m) = None \<Longrightarrow>
   assign_task (fst ` set (links m)) sid md (orchestrator m) = Some (orchestrator (ipc_assign serialize sid md m))"
  by (auto simp: ipc_assign_def assign_task_def split: prod.splits option.splits dest: send_task_None)

lemma ipc_assign_all_refines:
  "crashed m = None \<Longrightarrow> crashed (ipc_assign_all serialize sids md m) = None \<Longrightarrow>
   assign_all (fst ` set (links m)) sids md (orchestrator m) = Some (orchestrator (ipc_assign_all serialize sids md m))"
proof (induction sids arbitrary: m)
  case (Cons sid sids)
  then have none: "crashed (ipc_assign serialize sid md m) = None" by (auto simp: Let_def split: if_splits)
  with Cons.prems ipc_assign_refines [OF Cons.prems(1) none] Cons.IH [OF none] show ?case by (simp add: Let_def)
qed simp

lemma ipc_dispatch_refines:
  assumes "crashed m = None" "crashed (ipc_dispatch serialize m) = None"
  shows "dispatch_tasks (fst ` set (links m)) (orchestrator m) = Some (orchestrator (ipc_dispatch serialize m))"
  using assms ipc_assign_refines [of "m\<lparr>orchestrator := o1\<rparr>" serialize for o1]
    ipc_assign_all_refines [of "m\<lparr>orchestrator := o1\<rparr>" serialize for o1] ipc_assign_all_refines [of m serialize]
  by (auto simp: dispatch_tasks_def ipc_dispatch_def Let_def split: option.splits list.splits)

lemma sender_keys_assign: "fst ` set (sender_states orc) \<subseteq> fst ` set (sender_states (note_assignment sid md orc))"
  by (auto simp: note_assignment_def update_keys simp flip: set_map)

lemma ipc_assign_states:
  "fst ` set (sender_states (orchestrator m)) \<subseteq> fst ` set (sender_states (orchestrator (ipc_assign serialize sid md m)))"
  using sender_keys_assign [of "orchestrator m" sid md] by (auto simp: ipc_assign_def split: prod.split option.split)

lemma ipc_assign_all_keeps:
  "fst ` set (links (ipc_assign_all serialize sids md m)) = fst ` set (links m) \<and>
   fst ` set (sender_states (orchestrator m)) \<subseteq> fst ` set (sender_states (orchestrator (ipc_assign_all serialize sids md m)))"
proof (induction sids arbitrary: m)
  case (Cons sid sids)
  note ih = Cons [of "ipc_assign serialize sid md m"] and new = ipc_assign_states [of m serialize sid md]
  from conjunct1 [OF ih] new subset_trans [OF new conjunct2 [OF ih]] show ?case by (simp add: Let_def)
qed simp

lemma ipc_dispatch_shape:
  "ipc_dispatch serialize m = m \<or> (\<exists>sids md o1. sender_states o1 = sender_states (orchestrator m) \<and>
     ipc_dispatch serialize m = ipc_assign_all serialize sids md (m\<lparr>orchestrator := o1\<rparr>))"
proof -
  have one: "ipc_assign serialize sid md m = ipc_assign_all serialize [sid] md m" for sid md m by (simp add: Let_def)
  define P where "P x \<longleftrightarrow> x = m \<or> (\<exists>sids md o1. sender_states o1 = sender_states (orchestrator m) \<and>
    x = ipc_assign_all serialize sids md (m\<lparr>orchestrator := o1\<rparr>))" for x
  have P: "P m" "sender_states o1 = sender_states (orchestrator m) \<Longrightarrow> P (ipc_assign_all serialize sids md (m\<lparr>orchestrator := o1\<rparr>))"
    for sids md o1 unfolding P_def by blast+
  from P(2) [of "orchestrator m"] have "P (ipc_assign_all serialize sids md m)" for sids md by simp
  with P have "P (ipc_dispatch serialize m)" unfolding ipc_dispatch_def Let_def one
    by (simp del: ipc_assign_all.simps split: option.split list.split)
  then show ?thesis unfolding P_def .
qed

lemma ipc_dispatch_keeps:
  "fst ` set (links (ipc_dispatch serialize m)) = fst ` set (links m) \<and>
   fst ` set (sender_states (orchestrator m)) \<subseteq> fst ` set (sender_states (orchestrator (ipc_dispatch serialize m)))"
  using ipc_dispatch_shape [of serialize m]
proof (elim disjE exE conjE)
  fix sids md o1
  assume st: "sender_states o1 = sender_states (orchestrator m)"
    and eq: "ipc_dispatch serialize m = ipc_assign_all serialize sids md (m\<lparr>orchestrator := o1\<rparr>)"
  from ipc_assign_all_keeps [of serialize sids md "m\<lparr>orchestrator := o1\<rparr>"] show ?thesis unfolding eq by (simp add: st)
qed simp

definition simulated :: "sender_id list \<Rightarrow> sender_id set \<Rightarrow> monitor \<Rightarrow> bool" where
  "simulated ids op m \<longleftrightarrow> fst ` set (links m) = op \<and> op \<subseteq> fst ` set (sender_states (orchestrator m)) \<and>
     (crashed m = None \<longrightarrow> (\<exists>hs. mreachable ids op (orchestrator m, hs)))"

lemma simulated_read:
  assumes "simulated ids op m" "crashed m = None"
  shows "simulated ids op (read_link parse sid m)"
proof (cases "map_of (links m) sid")
  case None
  with assms show ?thesis by (simp add: read_link_def)
next
  case (Some sk)
  then have "sid \<in> fst ` set (links m)" by (force dest: map_of_SomeD)
  with assms have sid: "sid \<in> fst ` set (sender_states (orchestrator m))" by (auto simp: simulated_def)
  from assms obtain hs where hs: "mreachable ids op (orchestrator m, hs)" by (auto simp: simulated_def)
  have keys: "fst ` set (links (read_link parse sid m)) = fst ` set (links m)"
    using arg_cong [OF read_link_keeps(2), of set parse sid m] by simp
  have "orchestrator (read_link parse sid m) = orchestrator m \<or>
      (\<exists>st. orchestrator (read_link parse sid m) = handle_heartbeat sid st (orchestrator m))"
    by (auto simp: read_link_def Let_def split: option.split prod.split sum.split)
  moreover have "mreachable ids op (handle_heartbeat sid st (orchestrator m), hs)" for st
    by (rule mreachable.step [OF hs heartbeat [OF sid]])
  moreover have "fst ` set (sender_states (orchestrator m)) \<subseteq> fst ` set (sender_states (handle_heartbeat sid st (orchestrator m)))" for st
    by (auto simp: handle_heartbeat_def update_keys simp flip: set_map)
  ultimately show ?thesis using assms hs keys unfolding simulated_def by (metis subset_trans)
qed

lemma simulated_poll:
  "simulated ids op m \<Longrightarrow> crashed m = None \<Longrightarrow> simulated ids op (poll_each parse ready m)"
  by (induction parse ready m rule: poll_each.induct) (auto simp: Let_def simulated_read)

lemma ping_each_keys: "ping_each ping sids ls = (e, ls') \<Longrightarrow> map fst ls' = map fst ls"
  by (induction ping sids ls rule: ping_each.induct) (auto split: prod.splits option.splits dest: send_framed_keys)

lemma simulated_step:
  assumes "link_step serialize ping parse basename hash watch_dir m m'" "simulated ids op m"
  shows "simulated ids op m'"
  using assms(1)
proof cases
  case (file_watched md fs event bs)
  with assms(2) show ?thesis by (auto simp: simulated_def intro: mreachable.step file_queued)
next
  case (peer_moves sid sk sk')
  with assms(2) update_keeps_keys [of "links m" sid sk sk'] show ?thesis by (simp add: simulated_def flip: set_map)
next
  case (polled ready)
  with simulated_poll [OF assms(2)] show ?thesis by (simp add: simulated_def)
next
  case ping_not_due
  with assms(2) show ?thesis by (simp add: simulated_def)
next
  case (pinged e ls)
  with assms(2) ping_each_keys [of ping "map fst (links m)" "links m" e ls] show ?thesis
    by (simp add: simulated_def ping_all_def flip: set_map)
next
  case dispatched
  let ?m = "m\<lparr>orchestrator := sync_states (orchestrator m), run_pc := At_poll\<rparr>"
  obtain hs where hs: "mreachable ids op (orchestrator m, hs)" using assms(2) dispatched by (auto simp: simulated_def)
  have "\<exists>hs. mreachable ids op (orchestrator m', hs)" if "crashed m' = None"
  proof -
    have "dispatch_tasks op (sync_states (orchestrator m)) = Some (orchestrator m')"
      using ipc_dispatch_refines [of ?m serialize] dispatched that assms(2) by (simp add: simulated_def)
    from mreachable.step [OF hs round [OF refl this]] show ?thesis by blast
  qed
  moreover have "op \<subseteq> fst ` set (sender_states (orchestrator m'))"
    using subset_trans [OF _ conjunct2 [OF ipc_dispatch_keeps [of serialize ?m]], of op] dispatched assms(2)
    by (simp add: simulated_def sync_keys)
  ultimately show ?thesis
    using dispatched assms(2) ipc_dispatch_keeps [of serialize ?m] by (simp add: simulated_def)
qed

lemma simulated_reachable:
  assumes "link_reachable serialize ping parse basename hash watch_dir (start_monitor ids ls) m" "fst ` set ls \<subseteq> set ids"
  shows "simulated ids (fst ` set ls) m"
  using assms(1)
proof induction
  case begun
  have "fst ` set (sender_states (start_orchestrator ids)) = set ids" by (force simp: start_orchestrator_def)
  with assms(2) show ?case by (auto simp: simulated_def start_monitor_def intro: mreachable.start)
next
  case (moved m m')
  from simulated_step [OF moved.hyps(2) moved.IH] show ?case .
qed

section \<open>Tasks reach the sender in order\<close>

lemma ReadFull_more:
  assumes "ReadFull n c = Inr (bs, d)" "rx c' = rx c @ xs"
  shows "ReadFull n c' = Inr (bs, c'\<lparr>rx := rx d @ xs\<rparr>)"
proof -
  from ReadFull_Inr [OF assms(1)] have "length bs = n" "rx c' = bs @ (rx d @ xs)" using assms(2) by simp_all
  then show ?thesis by (intro ReadFull_append)
qed

lemma readFramed_more:
  assumes "readFramed c = Inr (p, d)" "rx c' = rx c @ xs"
  shows "\<exists>d'. readFramed c' = Inr (p, d') \<and> rx d' = rx d @ xs"
proof -
  from assms(1) obtain h e where h: "ReadFull 4 c = Inr (h, e)" and p: "ReadFull (unat (BigEndian_Uint32 h)) e = Inr (p, d)"
    by (auto simp: readFramed_def split: sum.splits)
  have "ReadFull 4 c' = Inr (h, c'\<lparr>rx := rx e @ xs\<rparr>)" by (rule ReadFull_more [OF h assms(2)])
  moreover have "ReadFull (unat (BigEndian_Uint32 h)) (c'\<lparr>rx := rx e @ xs\<rparr>) = Inr (p, c'\<lparr>rx := rx d @ xs\<rparr>)"
    using ReadFull_more [OF p, of "c'\<lparr>rx := rx e @ xs\<rparr>" xs] by simp
  ultimately show ?thesis by (simp add: readFramed_def)
qed

text \<open>More bytes add tasks at the end.\<close>

lemma stream_tasks_more: "rx c' = rx c @ xs \<Longrightarrow> \<exists>later. stream_tasks ut c' = stream_tasks ut c @ later"
proof (induction ut c arbitrary: c' rule: stream_tasks.induct)
  case (1 ut c)
  show ?case
  proof (cases "readFramed c")
    case (Inl err)
    then show ?thesis by (simp add: stream_tasks.simps [of ut c])
  next
    case (Inr r)
    then obtain p d where rd: "readFramed c = Inr (p, d)" by (cases r) auto
    from readFramed_more [OF this "1.prems"] obtain d' where d': "readFramed c' = Inr (p, d')" "rx d' = rx d @ xs" by blast
    from "1.IH" [OF rd refl d'(2)] obtain later where "stream_tasks ut d' = stream_tasks ut d @ later" by blast
    with rd d'(1) show ?thesis by (simp add: stream_tasks.simps [of ut c] stream_tasks.simps [of ut c'])
  qed
qed

lemma aligned_stream: "aligned ut up ts (rx c) \<Longrightarrow> stream_tasks ut c = ts"
  unfolding aligned_def using stream_tasks_carried by blast

text \<open>A link that \<open>connect_to_senders\<close> has just made.\<close>

definition new_links :: "ipc_links \<Rightarrow> bool" where
  "new_links ls \<longleftrightarrow> list_all (\<lambda>(sid, sk). wrote sk = [] \<and> \<not> cut_off sk) ls"

lemma connect_links:
  "connect_to_senders connect ids = Inr ls \<Longrightarrow> \<forall>sid sk. connect sid = Inr sk \<longrightarrow> wrote sk = [] \<and> \<not> cut_off sk \<Longrightarrow>
   fst ` set ls \<subseteq> set ids \<and> new_links ls"
  by (induction ids arbitrary: ls) (fastforce simp: new_links_def split: sum.splits if_splits)+

lemma start_inv:
  assumes "new_links ls"
  shows "link_inv ut up hash (start_monitor ids ls)"
proof -
  have "aligned ut up [] []" unfolding aligned_def by (intro exI [of _ "[]"]) simp
  with assms show ?thesis
    by (auto simp: link_inv_def start_monitor_def start_orchestrator_def links_ok_def new_links_def list_all_iff
        metadata_ok_def watched_ok_def tasks_to_def dest!: map_of_SomeD)
qed

lemma link_inv_monitor:
  assumes "monitor_codec serialize ping ut up" "connect_to_senders connect ids = Inr ls"
    and "\<forall>sid sk. connect sid = Inr sk \<longrightarrow> wrote sk = [] \<and> \<not> cut_off sk"
    and "link_reachable serialize ping parse basename hash watch_dir (start_monitor ids ls) m"
  shows "link_inv ut up hash m"
  using monitor_codec.link_inv_reachable [OF assms(1,4)] start_inv connect_links [OF assms(2,3)] by blast

lemma sender_tasks_prefix:
  assumes "sender_inv ut mmap_Open rs_New marshal s" "i < length (goroutines s)"
    and "aligned ut up ts (rx (origin (goroutines s ! i)) @ rest)"
  shows "\<exists>later. ts = taken_from i s @ later \<and>
    (rest = [] \<and> waiting (gphase (goroutines s ! i)) = [] \<and> stream_tasks ut (sock (goroutines s ! i)) = [] \<longrightarrow> later = [])"
proof -
  let ?g = "goroutines s ! i"
  let ?c = "origin ?g\<lparr>rx := rx (origin ?g) @ rest\<rparr>"
  have "stream_tasks ut ?c = ts" using assms(3) by (intro aligned_stream) simp
  moreover obtain later where "stream_tasks ut ?c = stream_tasks ut (origin ?g) @ later"
    using stream_tasks_more [of ?c "origin ?g" rest ut] by auto
  moreover have "rest = [] \<Longrightarrow> ?c = origin ?g" by simp
  ultimately show ?thesis
    using assms(1,2)
    by (intro exI [of _ "waiting (gphase ?g) @ stream_tasks ut (sock ?g) @ later"]) (auto simp: sender_inv_def conn_ok_def Let_def)
qed

lemma assigned_watched:
  assumes "link_inv ut up hash m" "t \<in> set (tasks_to sid (sent_tasks (orchestrator m)))"
  obtains md bs where "(md, bs) \<in> set (watched m)" "t = task_for md" "file_hash md = hash bs" "bs \<noteq> []"
    "meta_file_size md = int (length bs)"
proof -
  from assms(2) have "t \<in> snd ` set (sent_tasks (orchestrator m))" by (auto simp: tasks_to_def)
  with assms(1) have "t \<in> task_for ` fst ` set (watched m)" unfolding link_inv_def metadata_ok_def known_def by blast
  then obtain md bs where "(md, bs) \<in> set (watched m)" "t = task_for md" by auto
  moreover from this(1) assms(1) have "file_hash md = hash bs" "bs \<noteq> []" "meta_file_size md = int (length bs)"
    unfolding link_inv_def watched_ok_def by auto
  ultimately show thesis by (rule that)
qed

text \<open>C16: a sender runs what the orchestrator assigned to it. Follow one link, on which no send was cut short, from the monitor to the
  sender, with any of the bytes still on their way. At every moment the tasks that the sender has taken from it are an
  initial part of those assigned to this sender, in the order of assignment; all of them, once everything has arrived and been
  read. And each is for a file that the watcher queued, under the hash of the bytes it read.\<close>

theorem assigned_tasks_taken_in_order:
  assumes "monitor_codec serialize ping unmarshalTask unmarshalPing" "connect_to_senders connect ids = Inr ls"
    and "\<forall>sid sk. connect sid = Inr sk \<longrightarrow> wrote sk = [] \<and> \<not> cut_off sk"
    and "link_reachable serialize ping parse basename hash watch_dir (start_monitor ids ls) m"
    and "boot_sender resolve dial target path fs w = (Returns s0, w')"
    and "sender_reachable unmarshalTask unmarshalPing marshalHb mmap_Open rs_New marshal s0 s"
    and "map_of (links m) sid = Some sk" "\<not> cut_off sk" "i < length (goroutines s)"
    and "wrote sk = rx (origin (goroutines s ! i)) @ in_transit"
  shows "(\<exists>later. tasks_to sid (sent_tasks (orchestrator m)) = taken_from i s @ later \<and>
      (in_transit = [] \<and> waiting (gphase (goroutines s ! i)) = [] \<and> stream_tasks unmarshalTask (sock (goroutines s ! i)) = []
        \<longrightarrow> later = [])) \<and>
    (\<forall>t\<in>set (taken_from i s). \<exists>(md, bs)\<in>set (watched m). FilePath t = file_path md \<and> Task_FileHash t = hash bs \<and> bs \<noteq> [])"
proof -
  have inv: "link_inv unmarshalTask unmarshalPing hash m" by (rule link_inv_monitor [OF assms(1-4)])
  then have al: "aligned unmarshalTask unmarshalPing (tasks_to sid (sent_tasks (orchestrator m)))
      (rx (origin (goroutines s ! i)) @ in_transit)"
    using links_okD [OF _ assms(7,8)] by (simp add: link_inv_def assms(10))
  have "sender_inv unmarshalTask mmap_Open rs_New marshal s"
    by (rule sender_inv_reachable [OF assms(6) boot_inv [OF assms(5)]])
  from sender_tasks_prefix [OF this assms(9) al] obtain later where
    later: "tasks_to sid (sent_tasks (orchestrator m)) = taken_from i s @ later"
      "in_transit = [] \<and> waiting (gphase (goroutines s ! i)) = [] \<and> stream_tasks unmarshalTask (sock (goroutines s ! i)) = []
        \<longrightarrow> later = []" by blast
  have "\<exists>(md, bs)\<in>set (watched m). FilePath t = file_path md \<and> Task_FileHash t = hash bs \<and> bs \<noteq> []"
    if "t \<in> set (taken_from i s)" for t
  proof -
    have "t \<in> set (tasks_to sid (sent_tasks (orchestrator m)))" using that later(1) by simp
    with inv obtain md bs where "(md, bs) \<in> set (watched m)" "t = task_for md" "file_hash md = hash bs" "bs \<noteq> []"
      by (rule assigned_watched)
    then show ?thesis by (intro bexI [of _ "(md, bs)"]) (simp_all add: task_for_def)
  qed
  with later show ?thesis by blast
qed

section \<open>The link over the wire codecs\<close>

lemma wire_empty: "unmarshal_task [] = Inr \<lparr>FilePath = [], Task_FileHash = 0\<rparr>" "unmarshal_ping [] = Inr Ping"
  by (simp_all add: unmarshal_ping_def unmarshal_task_def wire_unmarshal_def get_fields.simps fields_task_def bytes_text_def)

interpretation wire_monitor: monitor_codec marshal_task "[]" unmarshal_task unmarshal_ping
  by unfold_locales (auto simp: wire_empty dest: task_wire.unmarshal_marshal)

text \<open>A run: one sender, whose socket has room for \<open>r\<close> bytes, and a small file in the inbox.\<close>

definition demo_md :: FileMetadata where
  "demo_md = \<lparr>file_path = ''/in/a'', file_name = ''/in/a'', meta_file_size = 3, file_hash = 7\<rparr>"

definition demo_sk :: "nat \<Rightarrow> byte list \<Rightarrow> pysock" where
  "demo_sk r bs = \<lparr>wrote = bs, room = r, inbox = [], peer = Peer_open, cut_off = False\<rparr>"

definition demo_bytes :: "byte list" where
  "demo_bytes = put_fields (task_fields (task_for demo_md))"

abbreviation demo_lstep :: "monitor \<Rightarrow> monitor \<Rightarrow> bool" where
  "demo_lstep \<equiv> link_step marshal_task [] (\<lambda>p. Inr 0) id (\<lambda>bs. 7) ''/in''"

abbreviation demo_lreach :: "nat \<Rightarrow> monitor \<Rightarrow> bool" where
  "demo_lreach r \<equiv> link_reachable marshal_task [] (\<lambda>p. Inr 0) id (\<lambda>bs. 7) ''/in'' (start_monitor [1] [(1, demo_sk r [])])"

definition demo_queued :: "nat \<Rightarrow> run_at \<Rightarrow> monitor" where
  "demo_queued r pc = (start_monitor [1] [(1, demo_sk r [])])\<lparr>orchestrator := (start_orchestrator [1])\<lparr>task_queue := [demo_md]\<rparr>,
     run_pc := pc, watched := [(demo_md, [1, 2, 3])]\<rparr>"

lemma demo_connect: "connect_to_senders (\<lambda>sid. Inr (demo_sk r [])) [1] = Inr [(1, demo_sk r [])]"
  by simp

lemma demo_new: "\<forall>sid sk. (\<lambda>sid. Inr (demo_sk r []) :: py_error + pysock) sid = Inr sk \<longrightarrow> wrote sk = [] \<and> \<not> cut_off sk"
  by (simp add: demo_sk_def)

lemma demo_bytes_size: "length demo_bytes \<le> 20"
  by (simp add: demo_bytes_def task_for_def demo_md_def task_fields_def put_fields_def varint_field_def bytes_field_def
      text_bytes_def varint.simps)

lemma demo_marshal_task: "marshal_task (task_for demo_md) = Inr demo_bytes"
  using demo_bytes_size by (simp add: marshal_task_def wire_marshal_def demo_bytes_def)

lemma demo_queued_reached: "demo_lreach r (demo_queued r At_sync)" "demo_lreach r (demo_queued r At_ping)"
proof -
  have "demo_md \<in> set (watch_event id (\<lambda>bs. 7) [''/in/a'' \<mapsto> [1, 2, 3]] ''/in'' \<lparr>ev_isdir = False, ev_name = ''a''\<rparr>)"
    by (simp add: watch_event_def process_file_def demo_md_def Let_def)
  then have "demo_lstep (start_monitor [1] [(1, demo_sk r [])]) (demo_queued r At_poll)"
    using file_watched [of demo_md id "\<lambda>bs. 7" "[''/in/a'' \<mapsto> [1, 2, 3]]" "''/in''" "\<lparr>ev_isdir = False, ev_name = ''a''\<rparr>" "[1, 2, 3]"
        marshal_task "[]" "\<lambda>p. Inr 0" "start_monitor [1] [(1, demo_sk r [])]"]
    by (simp add: demo_queued_def start_monitor_def start_orchestrator_def demo_md_def)
  moreover have "demo_lstep (demo_queued r At_poll) (demo_queued r At_ping)"
    using polled [of "demo_queued r At_poll" "[]"] by (simp add: demo_queued_def start_monitor_def)
  moreover have "demo_lstep (demo_queued r At_ping) (demo_queued r At_sync)"
    using ping_not_due [of "demo_queued r At_ping"] by (simp add: demo_queued_def start_monitor_def)
  ultimately show "demo_lreach r (demo_queued r At_sync)" "demo_lreach r (demo_queued r At_ping)"
    by (meson link_reachable.intros)+
qed

definition demo_assigned :: "pysock \<Rightarrow> monitor" where
  "demo_assigned sk = (demo_queued 0 At_poll)\<lparr>links := [(1, sk)],
     orchestrator := note_assignment 1 demo_md (start_orchestrator [1])\<rparr>"

lemma demo_dispatch:
  assumes "snd (sendall (frame demo_bytes) (demo_sk r [])) = sk"
  shows "demo_lstep (demo_queued r At_sync) (demo_assigned sk)"
proof -
  let ?m = "(demo_queued r At_sync)\<lparr>orchestrator := sync_states (orchestrator (demo_queued r At_sync)), run_pc := At_poll\<rparr>"
  have "sync_states (orchestrator (demo_queued r At_sync)) = orchestrator (demo_queued r At_sync)"
    by (simp add: sync_states_def sync_transfers_def remove_completed_def demo_queued_def start_monitor_def start_orchestrator_def)
  moreover have "send_task marshal_task 1 (file_path demo_md) (file_hash demo_md) [(1, demo_sk r [])] = (None, [(1, sk)])"
  proof -
    have "length demo_bytes < 2 ^ 32" using demo_bytes_size by simp
    then show ?thesis using demo_marshal_task assms
      by (auto simp: send_task_def task_for_def send_framed_def Let_def sendall_def demo_sk_def frame_def)
  qed
  ultimately have "ipc_dispatch marshal_task ?m = demo_assigned sk"
    by (simp add: ipc_dispatch_def Let_def idle_sockets_def ipc_assign_def demo_queued_def start_monitor_def
        start_orchestrator_def demo_assigned_def TEN_MB_BYTES_def demo_md_def)
  moreover have "demo_lstep (demo_queued r At_sync) (ipc_dispatch marshal_task ?m)"
    by (rule dispatched) (simp_all add: demo_queued_def start_monitor_def)
  ultimately show ?thesis by simp
qed

definition demo_sending :: sender where
  "demo_sending = demo_sender\<lparr>goroutines := [\<lparr>origin = demo_input [demo_bytes], sock = demo_input [], gphase = Listening\<rparr>],
     sphase := Preparing (task_for demo_md), taken := [(0, task_for demo_md)]\<rparr>"

lemma demo_sending_reached:
  "sender_reachable unmarshal_task unmarshal_ping marshal_heartbeat mmap_Open rs_New marshal demo_sender demo_sending"
proof -
  let ?conn = "\<lambda>ph ps. demo_sender\<lparr>goroutines := [\<lparr>origin = demo_input [demo_bytes], sock = demo_input ps, gphase = ph\<rparr>]\<rparr>"
  let ?step = "sender_step unmarshal_task unmarshal_ping marshal_heartbeat mmap_Open rs_New marshal"
  have read: "readFramed (demo_input [demo_bytes]) = Inr (demo_bytes, demo_input [])"
    using demo_bytes_size by (intro demo_input_read) simp
  have task: "task_of unmarshal_task demo_bytes = Some (task_for demo_md)"
    using task_wire.unmarshal_marshal [OF demo_marshal_task] by (simp add: task_of_def task_for_def demo_md_def)
  have "?step demo_sender (?conn Listening [demo_bytes])"
    using accepted [of demo_sender "demo_input [demo_bytes]"] by (simp add: running_def demo_sender_def demo_input_def)
  moreover have "?step (?conn Listening [demo_bytes]) (?conn (Handing (task_for demo_md)) [])"
    using conn_served [of "?conn Listening [demo_bytes]" 0 unmarshal_task unmarshal_ping marshal_heartbeat
        "Hands (task_for demo_md) (demo_input [])"] read task
    by (simp add: running_def demo_sender_def serve_round_def after_round_def set_conn_def)
  moreover have "?step (?conn (Handing (task_for demo_md)) []) demo_sending"
    using task_taken [of "?conn (Handing (task_for demo_md)) []" 0 "task_for demo_md"]
    by (simp add: demo_sending_def demo_sender_def set_conn_def)
  ultimately show ?thesis by (meson sender_reachable.intros)
qed

theorem assigned_tasks_taken_in_order_witness:
  "\<exists>m. demo_lreach 100 m \<and> taken_from 0 demo_sending = [task_for demo_md] \<and>
     (\<exists>later. tasks_to 1 (sent_tasks (orchestrator m)) = taken_from 0 demo_sending @ later)"
proof -
  let ?sk = "demo_sk (100 - length (frame demo_bytes)) (frame demo_bytes)"
  have "length (frame demo_bytes) \<le> 100" using demo_bytes_size by (simp add: frame_def)
  then have "demo_lstep (demo_queued 100 At_sync) (demo_assigned ?sk)"
    by (intro demo_dispatch) (simp add: sendall_def demo_sk_def)
  then have reach: "demo_lreach 100 (demo_assigned ?sk)" using demo_queued_reached(1) by (rule moved [rotated])
  have "map_of (links (demo_assigned ?sk)) 1 = Some ?sk" "\<not> cut_off ?sk" "0 < length (goroutines demo_sending)"
      "wrote ?sk = rx (origin (goroutines demo_sending ! 0)) @ []"
    by (simp_all add: demo_assigned_def demo_sk_def demo_sending_def demo_input_def)
  from assigned_tasks_taken_in_order [OF wire_monitor.monitor_codec_axioms demo_connect demo_new reach demo_boot
      demo_sending_reached this] reach
  show ?thesis by (intro exI [of _ "demo_assigned ?sk"]) (auto simp: taken_from_def demo_sending_def)
qed

end
