(* ===== verification/Session_Pipeline.thy ===== *)
theory Session_Pipeline
  imports Session_Manager
begin

text \<open>
  The session manager at work. Every receiver connection has a thread (\<open>receiver_server.py\<close>) that reads batches and
  takes each packet through the chain of callbacks which \<open>main.py\<close> wires: aggregator, block assembler, file tracker,
  file writer. The aggregator and the tracker change their state under a lock, so these are single steps; between them
  the threads interleave freely.
\<close>

section \<open>Threads\<close>

datatype work =
    NextPacket
  | Assembling block_ready
  | Tracking block_assembled
  | Writing uint64 "byte list"
  | Ended

record conn_thread =
  t_receiver :: uint32
  t_packets :: "Packet list"
  t_work :: work

text \<open>
  Next to the state of the objects: the files handed to the writer with its result, and, for the statements only, the
  batches read, the packets the aggregator has seen, and the blocks whose reconstruction failed.
\<close>

record session =
  aggregator :: Aggregator
  tracker :: FileTracker
  threads :: "nat \<Rightarrow> conn_thread"
  finished :: "(uint64 \<times> byte list \<times> writer_result) list"
  batches_read :: "SymbolBatch list"
  handled :: "Packet set"
  abandoned :: "block_key set"

definition session_start :: session where
  "session_start = \<lparr>aggregator = empty_aggregator, tracker = empty_tracker,
     threads = (\<lambda>t. \<lparr>t_receiver = 0, t_packets = [], t_work = NextPacket\<rparr>), finished = [], batches_read = [], handled = {},
     abandoned = {}\<rparr>"

definition to_work :: "nat \<Rightarrow> work \<Rightarrow> session \<Rightarrow> session" where
  "to_work t w s = s\<lparr>threads := (threads s)(t := (threads s t)\<lparr>t_work := w\<rparr>)\<rparr>"

fun after_add :: "block_ready option \<Rightarrow> work" where
  "after_add None = NextPacket"
| "after_add (Some r) = Assembling r"

fun after_track :: "tracker_result \<Rightarrow> work" where
  "after_track Incomplete = NextPacket"
| "after_track KeyError = Ended"
| "after_track (Complete h bytes receivers) = Writing h bytes"

inductive sm_step ::
  "(byte list \<Rightarrow> byte list) \<Rightarrow> (ReconstructRequest \<Rightarrow> ReconstructResponse) \<Rightarrow> string \<Rightarrow> session \<Rightarrow> session \<Rightarrow> bool"
  for sha256 helper output_dir where
  read_batch: "t_work (threads s t) = NextPacket \<Longrightarrow> t_packets (threads s t) = [] \<Longrightarrow>
    sm_step sha256 helper output_dir s
      (s\<lparr>threads := (threads s)(t := \<lparr>t_receiver = ReceiverId b, t_packets = SB_Packets b, t_work = NextPacket\<rparr>),
         batches_read := batches_read s @ [b]\<rparr>)"
| packet: "t_work (threads s t) = NextPacket \<Longrightarrow> t_packets (threads s t) = p # ps \<Longrightarrow>
    add_packet (t_receiver (threads s t)) p (aggregator s) = (agg, r) \<Longrightarrow>
    sm_step sha256 helper output_dir s
      (s\<lparr>aggregator := agg, handled := insert p (handled s),
         threads := (threads s)(t := (threads s t)\<lparr>t_packets := ps, t_work := after_add r\<rparr>)\<rparr>)"
| assemble: "t_work (threads s t) = Assembling r \<Longrightarrow> handle_block_ready helper r = Some b \<Longrightarrow>
    sm_step sha256 helper output_dir s (to_work t (Tracking b) s)"
| reconstruction_error: "t_work (threads s t) = Assembling r \<Longrightarrow> handle_block_ready helper r = None \<Longrightarrow>
    sm_step sha256 helper output_dir s (to_work t NextPacket (s\<lparr>abandoned := insert (br_key r) (abandoned s)\<rparr>))"
| helper_unreachable: "t_work (threads s t) = Assembling r \<Longrightarrow>
    sm_step sha256 helper output_dir s (to_work t Ended (s\<lparr>abandoned := insert (br_key r) (abandoned s)\<rparr>))"
| track: "t_work (threads s t) = Tracking b \<Longrightarrow> handle_block_assembled b (tracker s) = (tr, res) \<Longrightarrow>
    sm_step sha256 helper output_dir s (to_work t (after_track res) (s\<lparr>tracker := tr\<rparr>))"
| write_file: "t_work (threads s t) = Writing h bytes \<Longrightarrow>
    sm_step sha256 helper output_dir s (to_work t NextPacket
      (s\<lparr>finished := finished s @ [(h, bytes, handle_file_complete sha256 os_write output_dir h bytes)]\<rparr>))"
| disconnect: "t_work (threads s t) = NextPacket \<Longrightarrow> t_packets (threads s t) = [] \<Longrightarrow>
    sm_step sha256 helper output_dir s (to_work t Ended s)"

inductive sm_reachable ::
  "(byte list \<Rightarrow> byte list) \<Rightarrow> (ReconstructRequest \<Rightarrow> ReconstructResponse) \<Rightarrow> string \<Rightarrow> session \<Rightarrow> bool"
  for sha256 helper output_dir where
  start: "sm_reachable sha256 helper output_dir session_start"
| step: "sm_reachable sha256 helper output_dir s \<Longrightarrow> sm_step sha256 helper output_dir s s' \<Longrightarrow>
    sm_reachable sha256 helper output_dir s'"

section \<open>Invariants\<close>

definition batch_packets :: "session \<Rightarrow> Packet set" where
  "batch_packets s = (\<Union>b\<in>set (batches_read s). set (SB_Packets b))"

definition work_ok :: "(int \<Rightarrow> int \<Rightarrow> Codec res) \<Rightarrow> (uint64 \<Rightarrow> byte list) \<Rightarrow> work \<Rightarrow> bool" where
  "work_ok rs_New files w = (case w of Assembling r \<Rightarrow> ready_ok rs_New files r | Tracking b \<Rightarrow> assembled_ok files b
     | Writing h bytes \<Rightarrow> bytes = files h | _ \<Rightarrow> True)"

lemma work_ok_simps [simp]:
  "work_ok rs_New files NextPacket" "work_ok rs_New files Ended"
  "work_ok rs_New files (Assembling r) \<longleftrightarrow> ready_ok rs_New files r"
  "work_ok rs_New files (Tracking b) \<longleftrightarrow> assembled_ok files b"
  "work_ok rs_New files (Writing h bytes) \<longleftrightarrow> bytes = files h"
  by (simp_all add: work_ok_def)

text \<open>The contents: what is pooled, in work and collected are pieces of the files.\<close>

definition contents_inv :: "(int \<Rightarrow> int \<Rightarrow> Codec res) \<Rightarrow> (uint64 \<Rightarrow> byte list) \<Rightarrow> session \<Rightarrow> bool" where
  "contents_inv rs_New files s \<longleftrightarrow> aggregator_inv files (handled s) (aggregator s) \<and> tracker_inv files (tracker s) \<and>
     (\<forall>t. work_ok rs_New files (t_work (threads s t))) \<and>
     handled s \<subseteq> batch_packets s \<and> (\<forall>t. set (t_packets (threads s t)) \<subseteq> batch_packets s)"

text \<open>Nothing gets lost on the way: a block handed over is in work, with the tracker, or given up.\<close>

fun work_key :: "work \<Rightarrow> block_key option" where
  "work_key (Assembling r) = Some (br_key r)"
| "work_key (Tracking b) = Some (ba_file_hash b, ba_block_id b)"
| "work_key w = None"

definition located :: "session \<Rightarrow> block_key \<Rightarrow> bool" where
  "located s key \<longleftrightarrow> key \<in> abandoned s \<or> tracker_has (tracker s) key \<or> (\<exists>t. work_key (t_work (threads s t)) = Some key)"

definition covered :: "session \<Rightarrow> Packet set" where
  "covered s = handled s \<union> (\<Union>t. set (t_packets (threads s t)))"

definition progress_inv :: "session \<Rightarrow> bool" where
  "progress_inv s \<longleftrightarrow> (\<forall>key\<in>completed (aggregator s). located s key) \<and> (abandoned s = {} \<longrightarrow> batch_packets s \<subseteq> covered s)"

text \<open>The writer gets every finished file once.\<close>

fun work_file :: "work \<Rightarrow> uint64 option" where
  "work_file (Writing h bytes) = Some h"
| "work_file w = None"

definition writes_once ::
  "(uint64 \<Rightarrow> byte list) \<Rightarrow> (uint64 \<times> byte list \<times> writer_result) list \<Rightarrow> uint64 set \<Rightarrow> (nat \<rightharpoonup> uint64) \<Rightarrow> bool" where
  "writes_once files fin cf w \<longleftrightarrow> distinct (map fst fin) \<and> (\<forall>(h, bytes, r)\<in>set fin. bytes = files h) \<and>
     cf = fst ` set fin \<union> ran w \<and> fst ` set fin \<inter> ran w = {} \<and> inj_on w (dom w)"

definition once_inv :: "(uint64 \<Rightarrow> byte list) \<Rightarrow> session \<Rightarrow> bool" where
  "once_inv files s \<longleftrightarrow> writes_once files (finished s) (completed_files (tracker s)) (\<lambda>t. work_file (t_work (threads s t)))"

lemma ran_clear: "inj_on w (dom w) \<Longrightarrow> w t = Some key \<Longrightarrow> ran (w(t := None)) = ran w - {key}"
  by (auto simp: ran_def inj_on_def dom_def) (metis option.inject)

lemma writes_once_complete:
  assumes "writes_once files fin cf w" "w t = None" "h \<notin> cf"
  shows "writes_once files fin (insert h cf) (w(t \<mapsto> h))"
proof -
  have "ran (w(t \<mapsto> h)) = insert h (ran w)" using assms(2) by (rule ran_map_upd)
  moreover have "inj_on (w(t \<mapsto> h)) (dom (w(t \<mapsto> h)))"
    using assms by (auto simp: writes_once_def inj_on_def ran_def dom_def)
  ultimately show ?thesis using assms by (auto simp: writes_once_def)
qed

lemma writes_once_write:
  assumes "writes_once files fin cf w" "w t = Some h" "bytes = files h"
  shows "writes_once files (fin @ [(h, bytes, r)]) cf (w(t := None))"
proof -
  have h: "h \<in> ran w" and inj: "inj_on w (dom w)" using assms by (auto simp: writes_once_def ran_def)
  have "ran (w(t := None)) = ran w - {h}" using inj assms(2) by (rule ran_clear)
  moreover have "inj_on (w(t := None)) (dom (w(t := None)))" using inj by (auto simp: inj_on_def)
  ultimately show ?thesis using assms h unfolding writes_once_def by auto
qed

text \<open>The files a transfer can carry: block numbers fit their fields.\<close>

definition numberable :: "(uint64 \<Rightarrow> byte list) \<Rightarrow> bool" where
  "numberable files \<longleftrightarrow> (\<forall>h. block_count (files h) < 2 ^ 32)"

lemma numberable_length:
  assumes "numberable files"
  shows "length (files h) < 2 ^ 64"
proof -
  have "\<not> block_count (files h) * config_BlockSize < length (files h)" using block_count_iff by blast
  moreover have "block_count (files h) < 2 ^ 32" using assms by (simp add: numberable_def)
  ultimately show ?thesis by (simp add: config_values)
qed

lemma session_inv_start:
  "contents_inv rs_New files session_start" "once_inv files session_start" "progress_inv session_start"
  by (simp_all add: contents_inv_def once_inv_def progress_inv_def session_start_def aggregator_inv_def empty_aggregator_def
      empty_tracker_def tracker_inv_def default_get_def pool_ok_def pooled_def writes_once_def batch_packets_def)

lemma contents_invD:
  assumes "contents_inv rs_New files s"
  shows "aggregator_inv files (handled s) (aggregator s)" "tracker_inv files (tracker s)"
    "work_ok rs_New files (t_work (threads s t))" "handled s \<subseteq> batch_packets s"
    "set (t_packets (threads s t)) \<subseteq> batch_packets s"
  using assms by (simp_all add: contents_inv_def)

lemma batch_packets_simps [simp]:
  "batch_packets (to_work t w s) = batch_packets s"
  "batch_packets (s\<lparr>aggregator := a\<rparr>) = batch_packets s" "batch_packets (s\<lparr>tracker := tr\<rparr>) = batch_packets s"
  "batch_packets (s\<lparr>threads := th\<rparr>) = batch_packets s" "batch_packets (s\<lparr>finished := f\<rparr>) = batch_packets s"
  "batch_packets (s\<lparr>handled := seen\<rparr>) = batch_packets s" "batch_packets (s\<lparr>abandoned := ab\<rparr>) = batch_packets s"
  "batch_packets (s\<lparr>batches_read := bts @ [b]\<rparr>) = batch_packets (s\<lparr>batches_read := bts\<rparr>) \<union> set (SB_Packets b)"
  "batch_packets (s\<lparr>batches_read := batches_read s\<rparr>) = batch_packets s"
  by (auto simp: batch_packets_def to_work_def)

lemma to_work_simps [simp]:
  "aggregator (to_work t w s) = aggregator s" "tracker (to_work t w s) = tracker s" "finished (to_work t w s) = finished s"
  "batches_read (to_work t w s) = batches_read s" "handled (to_work t w s) = handled s" "abandoned (to_work t w s) = abandoned s"
  "t_work (threads (to_work t w s) u) = (if u = t then w else t_work (threads s u))"
  "t_packets (threads (to_work t w s) u) = t_packets (threads s u)"
  by (simp_all add: to_work_def)

lemma contents_inv_packet:
  assumes "contents_inv rs_New files s" "t_packets (threads s t) = p # ps"
    and "add_packet (t_receiver (threads s t)) p (aggregator s) = (agg, r)" "\<forall>p\<in>batch_packets s. genuine rs_New files p"
  shows "aggregator_inv files (insert p (handled s)) agg" "work_ok rs_New files (after_add r)" "p \<in> batch_packets s"
    "set ps \<subseteq> batch_packets s"
proof -
  show p: "p \<in> batch_packets s" and "set ps \<subseteq> batch_packets s"
    using contents_invD(5) [OF assms(1), of t] assms(2) by auto
  with assms(4) contents_invD(4) [OF assms(1)] have gen: "\<forall>q\<in>insert p (handled s). genuine rs_New files q" by blast
  from add_packet_inv [OF contents_invD(1) [OF assms(1)] gen assms(3)]
  show "aggregator_inv files (insert p (handled s)) agg" "work_ok rs_New files (after_add r)"
    by (auto split: option.splits)
qed

lemma contents_inv_track:
  assumes "contents_inv rs_New files s" "t_work (threads s t) = Tracking b" "numberable files"
    and "handle_block_assembled b (tracker s) = (tr, res)"
  shows "tracker_inv files tr" "work_ok rs_New files (after_track res)" "res \<noteq> KeyError"
    "tracker_has tr (ba_file_hash b, ba_block_id b)" "tracker_has (tracker s) key \<Longrightarrow> tracker_has tr key"
    "completed_files tr = (case res of Complete h bytes rs \<Rightarrow> insert h (completed_files (tracker s)) | _ \<Rightarrow> completed_files (tracker s))"
    "res = Complete h bytes rs \<Longrightarrow> h \<notin> completed_files (tracker s)"
proof -
  from contents_invD(3) [OF assms(1), of t] assms(2) have "assembled_ok files b" by simp
  note * = handle_block_assembled_inv [OF contents_invD(2) [OF assms(1)] this _ assms(4)]
  show "tracker_inv files tr" "work_ok rs_New files (after_track res)" "res \<noteq> KeyError"
    "tracker_has tr (ba_file_hash b, ba_block_id b)" "tracker_has (tracker s) key \<Longrightarrow> tracker_has tr key"
    "completed_files tr = (case res of Complete h bytes rs \<Rightarrow> insert h (completed_files (tracker s)) | _ \<Rightarrow> completed_files (tracker s))"
    "res = Complete h bytes rs \<Longrightarrow> h \<notin> completed_files (tracker s)"
    using * assms(3) by (auto simp: numberable_def simp del: split_paired_All split: tracker_result.splits)
qed

lemma contents_inv_assemble:
  assumes "contents_inv rs_New files s" "t_work (threads s t) = Assembling r" "rs_library rs_New" "numberable files"
  obtains b where "handle_block_ready (FromRequest rs_New) r = Some b" "assembled_ok files b"
    "(ba_file_hash b, ba_block_id b) = br_key r"
proof -
  from contents_invD(3) [OF assms(1), of t] assms(2) have "ready_ok rs_New files r" by simp
  from handle_block_ready_ok [OF assms(3) this] numberable_length [OF assms(4)] assms(4) that show thesis
    by (metis numberable_def prod.collapse)
qed

lemma contents_inv_step:
  assumes "sm_step sha256 (FromRequest rs_New) output_dir s s'" "contents_inv rs_New files s" "rs_library rs_New"
    and "numberable files" "\<forall>p\<in>batch_packets s'. genuine rs_New files p"
  shows "contents_inv rs_New files s'"
  using assms(1)
proof (cases rule: sm_step.cases)
  case (packet t p ps agg r)
  from assms(5) have "\<forall>p\<in>batch_packets s. genuine rs_New files p" by (simp add: packet(1))
  from contents_inv_packet [OF assms(2) packet(3,4) this] contents_invD [OF assms(2)] show ?thesis
    by (auto simp: packet(1) contents_inv_def)
next
  case (assemble t r b)
  from contents_inv_assemble [OF assms(2) assemble(2) assms(3,4)] assemble(3) have "assembled_ok files b" by auto
  with contents_invD [OF assms(2)] show ?thesis by (auto simp: assemble(1) contents_inv_def)
next
  case (track t b tr res)
  from contents_inv_track [OF assms(2) track(2) assms(4) track(3)] contents_invD [OF assms(2)] show ?thesis
    by (auto simp: track(1) contents_inv_def)
next
  case (read_batch t b)
  with contents_invD [OF assms(2)] show ?thesis by (fastforce simp: contents_inv_def)
qed (use contents_invD [OF assms(2)] in \<open>auto simp: contents_inv_def\<close>)

lemma once_inv_same:
  assumes "once_inv files s" "finished s' = finished s" "completed_files (tracker s') = completed_files (tracker s)"
    and "\<And>u. work_file (t_work (threads s' u)) = work_file (t_work (threads s u))"
  shows "once_inv files s'"
  using assms by (simp add: once_inv_def)

lemma once_inv_upd:
  assumes "writes_once files (finished s') (completed_files (tracker s'))
      ((\<lambda>u. work_file (t_work (threads s u)))(t := work_file (t_work (threads s' t))))"
    and "\<And>u. u \<noteq> t \<Longrightarrow> t_work (threads s' u) = t_work (threads s u)"
  shows "once_inv files s'"
proof -
  have "(\<lambda>u. work_file (t_work (threads s' u)))
      = (\<lambda>u. work_file (t_work (threads s u)))(t := work_file (t_work (threads s' t)))"
    using assms(2) by (auto simp: fun_eq_iff)
  with assms(1) show ?thesis by (simp add: once_inv_def)
qed

lemma once_inv_step:
  assumes "sm_step sha256 (FromRequest rs_New) output_dir s s'" "contents_inv rs_New files s" "once_inv files s"
    and "numberable files"
  shows "once_inv files s'"
  using assms(1)
proof (cases rule: sm_step.cases)
  case (packet t p ps agg r)
  have "work_file (after_add r) = None" by (cases r) simp_all
  with packet(1,2) show ?thesis by - (rule once_inv_same [OF assms(3)], simp_all)
next
  case (track t b tr res)
  note tr = contents_inv_track [OF assms(2) track(2) assms(4) track(3)]
  show ?thesis
  proof (cases res)
    case (Complete h bytes rs)
    have "writes_once files (finished s) (insert h (completed_files (tracker s))) ((\<lambda>u. work_file (t_work (threads s u)))(t \<mapsto> h))"
      using assms(3) tr(7) Complete track(2) by (intro writes_once_complete) (simp_all add: once_inv_def)
    then show ?thesis using tr(6) Complete by (intro once_inv_upd [of files s' s t]) (simp_all add: track(1))
  next
    case Incomplete
    with tr(6) track(1,2) show ?thesis by - (rule once_inv_same [OF assms(3)], simp_all)
  qed (use tr(3) in simp)
next
  case (write_file t h bytes os_write)
  let ?res = "handle_file_complete sha256 os_write output_dir h bytes"
  have "bytes = files h" using contents_invD(3) [OF assms(2), of t] write_file(2) by simp
  then have "writes_once files (finished s @ [(h, bytes, ?res)]) (completed_files (tracker s))
      ((\<lambda>u. work_file (t_work (threads s u)))(t := None))"
    using assms(3) write_file(2) by (intro writes_once_write) (simp_all add: once_inv_def)
  then show ?thesis by (intro once_inv_upd [of files s' s t]) (simp_all add: write_file(1))
qed (rule once_inv_same [OF assms(3)]; simp)+

lemma covered_simps [simp]:
  "covered (to_work t w s) = covered s" "covered (s\<lparr>tracker := tr\<rparr>) = covered s" "covered (s\<lparr>finished := f\<rparr>) = covered s"
  "covered (s\<lparr>abandoned := ab\<rparr>) = covered s"
  by (simp_all add: covered_def)

lemma UN_at: "(\<Union>u. f u) = f t \<union> (\<Union>u\<in>- {t}. f u)"
  by auto

lemma covered_packet:
  assumes "t_packets (threads s t) = p # ps"
  shows "covered (s\<lparr>aggregator := agg, handled := insert p (handled s),
    threads := (threads s)(t := (threads s t)\<lparr>t_packets := ps, t_work := w\<rparr>)\<rparr>) = covered s"
  unfolding covered_def UN_at [of _ t] using assms by auto

lemma covered_batch:
  assumes "t_packets (threads s t) = []"
  shows "covered (s\<lparr>threads := (threads s)(t := \<lparr>t_receiver = i, t_packets = ps, t_work = w\<rparr>), batches_read := bts\<rparr>)
    = covered s \<union> set ps"
  unfolding covered_def UN_at [of _ t] using assms by auto

lemma located_by:
  assumes "located s key" "abandoned s \<subseteq> abandoned s'" "tracker_has (tracker s) key \<Longrightarrow> tracker_has (tracker s') key"
    and "\<And>u. u \<noteq> t \<Longrightarrow> t_work (threads s' u) = t_work (threads s u)"
    and "work_key (t_work (threads s t)) = Some key \<Longrightarrow> located s' key"
  shows "located s' key"
proof -
  from assms(1) consider "key \<in> abandoned s" | "tracker_has (tracker s) key"
    | t' where "work_key (t_work (threads s t')) = Some key"
    unfolding located_def by blast
  then show ?thesis
  proof cases
    case (3 t')
    then have "t' = t \<or> work_key (t_work (threads s' t')) = Some key"
      using assms(4) [of t'] by (cases "t' = t") auto
    with 3 assms(5) show ?thesis unfolding located_def by blast
  qed (use assms(2,3) in \<open>auto simp: located_def\<close>)
qed

lemma progress_invI:
  assumes "progress_inv s" "completed (aggregator s') = completed (aggregator s)"
    and "\<And>key. located s key \<Longrightarrow> located s' key" "abandoned s \<subseteq> abandoned s'"
    and "batch_packets s' \<subseteq> batch_packets s \<union> ps" "covered s \<union> ps \<subseteq> covered s'"
  shows "progress_inv s'"
  using assms unfolding progress_inv_def by blast

lemma progress_inv_packet:
  assumes "progress_inv s" "contents_inv rs_New files s" "t_work (threads s t) = NextPacket"
    and p: "t_packets (threads s t) = p # ps" "add_packet (t_receiver (threads s t)) p (aggregator s) = (agg, r)"
    and "\<forall>p\<in>batch_packets s. genuine rs_New files p"
    and s': "s' = s\<lparr>aggregator := agg, handled := insert p (handled s),
         threads := (threads s)(t := (threads s t)\<lparr>t_packets := ps, t_work := after_add r\<rparr>)\<rparr>"
  shows "progress_inv s'"
proof -
  have "\<forall>q\<in>insert p (handled s). genuine rs_New files q"
    using assms(6) contents_inv_packet(3) [OF assms(2) p assms(6)] contents_invD(4) [OF assms(2)] by blast
  note add = add_packet_inv [OF contents_invD(1) [OF assms(2)] this p(2)]
  have old: "located s' key" if "located s key" for key
    using assms(3) by - (rule located_by [OF that, of s' t], simp_all add: s')
  have "located s' key" if "key \<in> completed agg" for key
  proof (cases "key \<in> completed (aggregator s)")
    case True
    then show ?thesis using assms(1) old by (auto simp: progress_inv_def)
  next
    case False
    with that add obtain b where "r = Some b" "br_key b = key" by (auto split: option.splits)
    then have "work_key (t_work (threads s' t)) = Some key" by (simp add: s')
    then show ?thesis unfolding located_def by blast
  qed
  moreover have "covered s' = covered s" unfolding s' by (rule covered_packet [OF p(1)])
  ultimately show ?thesis using assms(1) by (simp add: progress_inv_def s')
qed

lemma progress_inv_step:
  assumes "sm_step sha256 (FromRequest rs_New) output_dir s s'" "contents_inv rs_New files s" "progress_inv s"
    and "numberable files" "rs_library rs_New" "\<forall>p\<in>batch_packets s'. genuine rs_New files p"
  shows "progress_inv s'"
  using assms(1)
proof (cases rule: sm_step.cases)
  case (read_batch t b)
  then have "located s' key" if "located s key" for key by - (rule located_by [OF that, of s' t], simp_all)
  moreover have "covered s' = covered s \<union> set (SB_Packets b)" unfolding read_batch(1) by (rule covered_batch [OF read_batch(3)])
  ultimately show ?thesis by - (rule progress_invI [OF assms(3), where ps = "set (SB_Packets b)"], simp_all add: read_batch(1))
next
  case (packet t p ps agg r)
  from assms(6) have "\<forall>p\<in>batch_packets s. genuine rs_New files p" by (simp add: packet(1))
  with progress_inv_packet [OF assms(3,2) packet(2-4) _ packet(1)] show ?thesis by blast
next
  case (assemble t r b)
  have "work_key (Tracking b) = Some (br_key r)"
    using contents_inv_assemble [OF assms(2) assemble(2) assms(5,4)] assemble(3) by auto
  with assemble(2) have "located s' key" if "located s key" for key
    by - (rule located_by [OF that, of s' t], auto simp: assemble(1) located_def intro!: exI [of _ t])
  then show ?thesis by - (rule progress_invI [OF assms(3), where ps = "{}"], simp_all add: assemble(1))
next
  case (reconstruction_error t r)
  then show ?thesis using contents_inv_assemble [OF assms(2) reconstruction_error(2) assms(5,4)] by auto
next
  case (helper_unreachable t r)
  then have "located s' key" if "located s key" for key
    by - (rule located_by [OF that, of s' t], auto simp: located_def)
  then show ?thesis by - (rule progress_invI [OF assms(3), where ps = "{}"], auto simp: helper_unreachable(1))
next
  case (track t b tr res)
  note tr = contents_inv_track [OF assms(2) track(2) assms(4) track(3)]
  from track(1,2) tr(4,5) have "located s' key" if "located s key" for key
    by - (rule located_by [OF that, of s' t], auto simp: located_def)
  then show ?thesis by - (rule progress_invI [OF assms(3), where ps = "{}"], simp_all add: track(1))
next
  case (write_file t h bytes os_write)
  then have "located s' key" if "located s key" for key by - (rule located_by [OF that, of s' t], simp_all)
  then show ?thesis by - (rule progress_invI [OF assms(3), where ps = "{}"], simp_all add: write_file(1))
next
  case (disconnect t)
  then have "located s' key" if "located s key" for key by - (rule located_by [OF that, of s' t], simp_all)
  then show ?thesis by - (rule progress_invI [OF assms(3), where ps = "{}"], simp_all add: disconnect(1))
qed

lemma batch_packets_mono: "sm_step sha256 helper output_dir s s' \<Longrightarrow> batch_packets s \<subseteq> batch_packets s'"
  by (erule sm_step.cases) auto

text \<open>All three hold as long as every packet received is genuine.\<close>

lemma session_inv:
  assumes "sm_reachable sha256 (FromRequest rs_New) output_dir s" "rs_library rs_New" "numberable files"
    and "\<forall>p\<in>batch_packets s. genuine rs_New files p"
  shows "contents_inv rs_New files s \<and> once_inv files s \<and> progress_inv s"
  using assms(1,4)
proof induction
  case start
  then show ?case by (simp add: session_inv_start)
next
  case (step s s')
  with batch_packets_mono [OF step.hyps(2)] have "contents_inv rs_New files s \<and> once_inv files s \<and> progress_inv s" by blast
  with step contents_inv_step once_inv_step progress_inv_step assms(2,3) show ?case by metis
qed

section \<open>The pipeline always gets its work done\<close>

abbreviation sm_steps ::
  "(byte list \<Rightarrow> byte list) \<Rightarrow> (ReconstructRequest \<Rightarrow> ReconstructResponse) \<Rightarrow> string \<Rightarrow> session \<Rightarrow> session \<Rightarrow> bool" where
  "sm_steps sha256 helper output_dir \<equiv> (sm_step sha256 helper output_dir)\<^sup>*\<^sup>*"

lemma sm_steps_reachable:
  "sm_steps sha256 helper output_dir s s' \<Longrightarrow> sm_reachable sha256 helper output_dir s \<Longrightarrow> sm_reachable sha256 helper output_dir s'"
  by (induction rule: rtranclp_induct) (auto intro: sm_reachable.step)

text \<open>Thread \<open>t\<close> alone gets from \<open>s\<close> to \<open>s'\<close>, giving up nothing.\<close>

definition alone :: "nat \<Rightarrow> session \<Rightarrow> session \<Rightarrow> bool" where
  "alone t s s' \<longleftrightarrow> (\<forall>u. u \<noteq> t \<longrightarrow> threads s' u = threads s u) \<and> batches_read s' = batches_read s \<and> abandoned s' = abandoned s"

definition gets ::
  "(byte list \<Rightarrow> byte list) \<Rightarrow> (ReconstructRequest \<Rightarrow> ReconstructResponse) \<Rightarrow> string \<Rightarrow> nat \<Rightarrow> session \<Rightarrow> session \<Rightarrow> bool" where
  "gets sha256 helper output_dir t s s' \<longleftrightarrow> sm_steps sha256 helper output_dir s s' \<and> alone t s s'"

lemma gets_step: "sm_step sha256 helper output_dir s s' \<Longrightarrow> alone t s s' \<Longrightarrow> gets sha256 helper output_dir t s s'"
  by (auto simp: gets_def)

lemma gets_trans [trans]:
  "gets sha256 helper output_dir t s s' \<Longrightarrow> gets sha256 helper output_dir t s' s'' \<Longrightarrow> gets sha256 helper output_dir t s s''"
  by (auto simp: gets_def alone_def)

lemma gets_packets: "gets sha256 helper output_dir t s s' \<Longrightarrow> batch_packets s' = batch_packets s"
  by (simp add: gets_def alone_def batch_packets_def)

lemma finish_writing:
  assumes "t_work (threads s t) = Writing h bytes"
  shows "\<exists>s'. gets sha256 helper output_dir t s s' \<and> t_work (threads s' t) = NextPacket \<and>
    t_packets (threads s' t) = t_packets (threads s t)"
  by (intro exI conjI, rule gets_step, rule write_file [OF assms, where os_write = "\<lambda>p b. None"])
    (simp_all add: alone_def to_work_def)

lemma finish_tracking:
  assumes "contents_inv rs_New files s" "t_work (threads s t) = Tracking b" "numberable files"
  shows "\<exists>s'. gets sha256 helper output_dir t s s' \<and> t_work (threads s' t) = NextPacket \<and>
    t_packets (threads s' t) = t_packets (threads s t)"
proof -
  obtain tr res where h: "handle_block_assembled b (tracker s) = (tr, res)" by fastforce
  define s1 where "s1 = to_work t (after_track res) (s\<lparr>tracker := tr\<rparr>)"
  have s1: "gets sha256 helper output_dir t s s1"
    using track [OF assms(2) h] by (intro gets_step) (simp_all add: s1_def alone_def to_work_def)
  have t1: "t_work (threads s1 t) = after_track res" "t_packets (threads s1 t) = t_packets (threads s t)"
    by (simp_all add: s1_def)
  show ?thesis
  proof (cases res)
    case Incomplete
    with s1 t1 show ?thesis by (intro exI [of _ s1]) simp
  next
    case KeyError
    with contents_inv_track(3) [OF assms h] show ?thesis by simp
  next
    case (Complete hs bytes rs)
    with t1(1) have "t_work (threads s1 t) = Writing hs bytes" by simp
    from finish_writing [OF this] gets_trans [OF s1] t1(2) show ?thesis by metis
  qed
qed

lemma finish_packet:
  assumes "contents_inv rs_New files s" "rs_library rs_New" "numberable files" "\<forall>p\<in>batch_packets s. genuine rs_New files p"
    and "t_work (threads s t) = NextPacket" "t_packets (threads s t) = p # ps"
  shows "\<exists>s'. gets sha256 (FromRequest rs_New) output_dir t s s' \<and> t_work (threads s' t) = NextPacket \<and>
    t_packets (threads s' t) = ps"
proof -
  obtain agg r where add: "add_packet (t_receiver (threads s t)) p (aggregator s) = (agg, r)" by fastforce
  define s1 where "s1 = s\<lparr>aggregator := agg, handled := insert p (handled s),
    threads := (threads s)(t := (threads s t)\<lparr>t_packets := ps, t_work := after_add r\<rparr>)\<rparr>"
  have step1: "sm_step sha256 (FromRequest rs_New) output_dir s s1" unfolding s1_def by (rule packet [OF assms(5,6) add])
  have s1: "gets sha256 (FromRequest rs_New) output_dir t s s1" "t_packets (threads s1 t) = ps"
    "t_work (threads s1 t) = after_add r"
    by (rule gets_step [OF step1]) (simp_all add: s1_def alone_def)
  show ?thesis
  proof (cases r)
    case None
    with s1 show ?thesis by (intro exI [of _ s1]) simp
  next
    case (Some rb)
    with s1(3) have w1: "t_work (threads s1 t) = Assembling rb" by simp
    have gen1: "\<forall>p\<in>batch_packets s1. genuine rs_New files p" using assms(4) by (simp add: s1_def)
    note inv1 = contents_inv_step [OF step1 assms(1-3) gen1]
    obtain b where b: "handle_block_ready (FromRequest rs_New) rb = Some b"
      using contents_inv_assemble [OF inv1 w1 assms(2,3)] by blast
    define s2 where "s2 = to_work t (Tracking b) s1"
    have step2: "sm_step sha256 (FromRequest rs_New) output_dir s1 s2" unfolding s2_def by (rule assemble [OF w1 b])
    have s2: "gets sha256 (FromRequest rs_New) output_dir t s1 s2" "t_packets (threads s2 t) = ps"
      "t_work (threads s2 t) = Tracking b"
      using s1(2) by (auto intro!: gets_step [OF step2]) (simp_all add: s2_def alone_def to_work_def)
    have "contents_inv rs_New files s2"
      using contents_inv_step [OF step2 inv1 assms(2,3)] gen1 by (simp add: s2_def)
    from finish_tracking [OF this s2(3) assms(3)] s2(2) gets_trans [OF gets_trans [OF s1(1) s2(1)]] show ?thesis by metis
  qed
qed

lemma finish_batch:
  assumes "rs_library rs_New" "numberable files"
  shows "sm_reachable sha256 (FromRequest rs_New) output_dir s \<Longrightarrow> \<forall>p\<in>batch_packets s. genuine rs_New files p \<Longrightarrow>
    t_work (threads s t) = NextPacket \<Longrightarrow> t_packets (threads s t) = ps \<Longrightarrow>
    \<exists>s'. gets sha256 (FromRequest rs_New) output_dir t s s' \<and> t_work (threads s' t) = NextPacket \<and>
      t_packets (threads s' t) = []"
proof (induction ps arbitrary: s)
  case Nil
  then show ?case by (intro exI [of _ s]) (simp add: gets_def alone_def)
next
  case (Cons p ps)
  from session_inv [OF Cons.prems(1) assms Cons.prems(2)] have "contents_inv rs_New files s" by blast
  from finish_packet [OF this assms Cons.prems(2-4), of sha256 output_dir] obtain s1 where
    s1: "gets sha256 (FromRequest rs_New) output_dir t s s1" "t_work (threads s1 t) = NextPacket"
      "t_packets (threads s1 t) = ps" by blast
  have "sm_reachable sha256 (FromRequest rs_New) output_dir s1"
    using s1(1) sm_steps_reachable [OF _ Cons.prems(1)] by (simp add: gets_def)
  moreover have "\<forall>p\<in>batch_packets s1. genuine rs_New files p" using Cons.prems(2) gets_packets [OF s1(1)] by simp
  ultimately show ?case using Cons.IH [OF _ _ s1(2,3)] gets_trans [OF s1(1)] by blast
qed

end
