(* ===== verification/Session_Delivery.thy ===== *)
theory Session_Delivery
  imports Session_Pipeline
begin

text \<open>
  What the session manager delivers: the files that were sent, each once, when enough symbols arrive; never a file that
  does not match its hash; and no file of which one block was given up.
\<close>

lemma filter_key: "(k, v) \<in> set l \<Longrightarrow> distinct (map fst l) \<Longrightarrow> filter (\<lambda>e. fst e = k) l = [(k, v)]"
proof (induction l)
  case (Cons a l)
  show ?case
  proof (cases "fst a = k")
    case True
    with Cons.prems have new: "k \<notin> fst ` set l" by auto
    then have "filter (\<lambda>e. fst e = k) l = []" by (auto simp: filter_empty_conv)
    moreover have "a = (k, v)" using Cons.prems(1) new by (auto simp: image_iff)
    ultimately show ?thesis by simp
  next
    case False
    with Cons show ?thesis by auto
  qed
qed simp

section \<open>Delivery\<close>

text \<open>
  What the receivers can pass on of a transfer: what the filter accepts of a datagram that some sender transmitted for
  a group of blocks of the file.
\<close>

definition sent_packet ::
  "(int \<Rightarrow> int \<Rightarrow> Codec res) \<Rightarrow> (Packet \<Rightarrow> byte list res) \<Rightarrow> (byte list \<Rightarrow> Packet res) \<Rightarrow> (uint64 \<Rightarrow> byte list) \<Rightarrow> Packet \<Rightarrow> bool" where
  "sent_packet rs_New marshal unmarshal files p \<longleftrightarrow> (\<exists>h idxs grp udp ser.
     list_all2 (encodes rs_New (files h)) idxs grp \<and> (\<forall>i\<in>set idxs. i < block_count (files h)) \<and>
     ser \<in> set (attempted (send_group marshal udp h (totalBlocks_of (int (length (files h)))) (int (length (files h))) grp)) \<and>
     p \<in> set (accepts unmarshal ser))"

lemma sent_genuine:
  assumes "packet_codec marshal unmarshal" "rs_library rs_New" "sent_packet rs_New marshal unmarshal files p"
  shows "genuine rs_New files p"
proof -
  obtain h idxs grp udp ser where grp: "list_all2 (encodes rs_New (files h)) idxs grp" "\<forall>i\<in>set idxs. i < block_count (files h)"
    and ser: "ser \<in> set (attempted (send_group marshal udp h (totalBlocks_of (int (length (files h)))) (int (length (files h))) grp))"
    and p: "p \<in> set (accepts unmarshal ser)"
    using assms(3) unfolding sent_packet_def by blast
  have blk: "unat (blockIdx b) < block_count (files h) \<and>
      senders_EncodeBlock rs_New (file_block (files h) (unat (blockIdx b))) = Inr (shards b)" if "b \<in> set grp" for b
  proof -
    obtain j where j: "j < length grp" "b = grp ! j" using \<open>b \<in> set grp\<close> by (auto simp: in_set_conv_nth)
    with grp(1) have "encodes rs_New (files h) (idxs ! j) b" "idxs ! j \<in> set idxs" by (auto simp: list_all2_conv_all_nth)
    with grp(2) show ?thesis by (auto simp: encodes_def)
  qed
  then have "\<forall>b\<in>set grp. block_shaped b" using senders_EncodeBlock_shape [OF assms(2)] unfolding block_shaped_def by blast
  note acc = send_group_accepted [OF assms(1) this, of udp h "totalBlocks_of (int (length (files h)))" "int (length (files h))"]
  have "accepts unmarshal ser \<in> (\<lambda>p. [p]) ` set (group_packets h (totalBlocks_of (int (length (files h)))) (int (length (files h))) grp)"
    using arg_cong [OF acc, of set] ser by auto
  with p have "p \<in> set (group_packets h (totalBlocks_of (int (length (files h)))) (int (length (files h))) grp)" by auto
  then obtain i b where "i < config_NSymbols" "b \<in> set grp"
      "p = symbol_packet h (totalBlocks_of (int (length (files h)))) (int (length (files h))) i b"
    by (auto simp: group_packets_def)
  with blk show ?thesis
    using totalBlocks_of_file [OF mem.mapped_file_axioms [of "files h"]]
    by (simp add: genuine_def symbol_packet_def unat_symbol Size_def mem_file_def)
qed

lemma finished_results:
  assumes "sm_reachable sha256 helper output_dir s" "(h, bytes, r) \<in> set (finished s)"
  shows "\<exists>os_write. r = handle_file_complete sha256 os_write output_dir h bytes"
  using assms
proof (induction arbitrary: h bytes r)
  case (step s s')
  from step.hyps(2) step.prems step.IH show ?case by cases auto
qed (simp add: session_start_def)

definition at_rest :: "session \<Rightarrow> bool" where
  "at_rest s \<longleftrightarrow> (\<forall>t. t_packets (threads s t) = [] \<and> (t_work (threads s t) = NextPacket \<or> t_work (threads s t) = Ended))"

lemma at_rest_works:
  assumes "at_rest s"
  shows "work_key (t_work (threads s t)) = None" "work_file (t_work (threads s t)) = None" "covered s = handled s"
proof -
  have "t_work (threads s t) = NextPacket \<or> t_work (threads s t) = Ended" using assms by (simp add: at_rest_def)
  then show "work_key (t_work (threads s t)) = None" "work_file (t_work (threads s t)) = None" by auto
  show "covered s = handled s" using assms by (simp add: at_rest_def covered_def)
qed

lemma block_collected:
  assumes "contents_inv rs_New files s" "progress_inv s" "at_rest s" "abandoned s = {}"
    and "config_DataShards \<le> card (symbols_of (batch_packets s) key)"
  shows "tracker_has (tracker s) key"
proof -
  have "handled s = batch_packets s"
    using assms(2,4) contents_invD(4) [OF assms(1)] at_rest_works(3) [OF assms(3)] by (auto simp: progress_inv_def)
  moreover have "card (symbols_of (handled s) key) < config_DataShards" if "key \<notin> completed (aggregator s)"
    using aggregator_invD [OF contents_invD(1) [OF assms(1)] that] pooled_length unfolding pool_ok_def by metis
  ultimately have "key \<in> completed (aggregator s)" using assms(5) by fastforce
  then have "located s key" using assms(2) by (simp add: progress_inv_def)
  then show ?thesis using assms(4) at_rest_works(1) [OF assms(3)] by (simp add: located_def)
qed

lemma file_collected:
  assumes "contents_inv rs_New files s" "numberable files" "0 < block_count (files h)"
    and "\<forall>i < block_count (files h). tracker_has (tracker s) (h, of_nat i)"
  shows "h \<in> completed_files (tracker s)"
proof (rule ccontr)
  assume "h \<notin> completed_files (tracker s)"
  let ?bl = "default_get [] (tracked_blocks (tracker s)) h"
  have small: "block_count (files h) < 2 ^ 32" using assms(2) by (simp add: numberable_def)
  from \<open>h \<notin> _\<close> assms(4) have "of_nat ` {..<block_count (files h)} \<subseteq> fst ` set ?bl"
    by (auto simp: tracker_has_def)
  from card_mono [OF _ this] card_length [of "map fst ?bl"]
  have "card (of_nat ` {..<block_count (files h)} :: uint32 set) \<le> length ?bl" by simp
  moreover have "inj_on (of_nat :: nat \<Rightarrow> uint32) {..<block_count (files h)}"
  proof (rule inj_onI)
    fix x y :: nat
    assume "x \<in> {..<block_count (files h)}" "y \<in> {..<block_count (files h)}" and eq: "(of_nat x :: uint32) = of_nat y"
    then have x: "x < 2 ^ 32" and y: "y < 2 ^ 32" using small by simp_all
    from arg_cong [OF eq, of unat] show "x = y" unfolding unat32 [OF x] unat32 [OF y] .
  qed
  ultimately have "block_count (files h) \<le> length ?bl" by (simp add: card_image)
  with assms(3) contents_invD(2) [OF assms(1)] show False unfolding tracker_inv_def by (meson not_le)
qed

text \<open>With symbols of known files only, whatever their order.\<close>

lemma genuine_delivered:
  assumes "sm_reachable sha256 (FromRequest rs_New) output_dir s" "rs_library rs_New" "numberable files"
    and "\<forall>p\<in>batch_packets s. genuine rs_New files p"
  shows "distinct (map fst (finished s))"
    and "(h, bytes, r) \<in> set (finished s) \<Longrightarrow> bytes = files h"
    and "(h, bytes, r) \<in> set (finished s) \<Longrightarrow> compute_reference_hash sha256 (files h) = h \<Longrightarrow>
      r = Written (output_path output_dir h) (files h) \<or> (\<exists>err. r = OutputError err)"
proof -
  have once: "distinct (map fst (finished s))" "\<forall>(h, bytes, r)\<in>set (finished s). bytes = files h"
    using session_inv [OF assms] by (auto simp: once_inv_def writes_once_def)
  then show "distinct (map fst (finished s))" "(h, bytes, r) \<in> set (finished s) \<Longrightarrow> bytes = files h" by auto
  with finished_results [OF assms(1)] show "r = Written (output_path output_dir h) (files h) \<or> (\<exists>err. r = OutputError err)"
    if "(h, bytes, r) \<in> set (finished s)" "compute_reference_hash sha256 (files h) = h"
    using that once(2) by (fastforce simp: handle_file_complete_def verify_file_def split: option.splits)
qed

text \<open>C2: what the session manager hands to the file writer is right. Let packets come from any number of receiver
  connections, in any interleaving of the threads, in any order, repeated and with any of them missing, as long as each is one that the
  receiver's filter accepts of the senders' transmissions; and let connections to \<open>rs_helper\<close> fail at will. Then every file
  handed to the writer is byte for byte the file that was sent, none is handed over twice, and the writer's integrity check
  never rejects a file whose hash is the SHA-256 prefix of its contents.\<close>

theorem session_delivers_files:
  assumes "sm_reachable sha256 (FromRequest rs_New) output_dir s"
    and "rs_library rs_New" "packet_codec marshal unmarshal" "numberable files"
    and "\<forall>p\<in>batch_packets s. sent_packet rs_New marshal unmarshal files p"
  shows "distinct (map fst (finished s)) \<and>
    (\<forall>(h, bytes, r)\<in>set (finished s). bytes = files h \<and>
      (compute_reference_hash sha256 (files h) = h \<longrightarrow>
        r = Written (output_path output_dir h) (files h) \<or> (\<exists>err. r = OutputError err)))"
proof -
  have "\<forall>p\<in>batch_packets s. genuine rs_New files p" using assms(5) sent_genuine [OF assms(3,2)] by blast
  note all = genuine_delivered [OF assms(1,2,4) this]
  show ?thesis using all(1) all(2,3) by blast
qed

lemma file_finished:
  assumes "sm_reachable sha256 (FromRequest rs_New) output_dir s"
    and "rs_library rs_New" "packet_codec marshal unmarshal" "numberable files"
    and "\<forall>p\<in>batch_packets s. sent_packet rs_New marshal unmarshal files p"
    and "at_rest s" "abandoned s = {}" "files h \<noteq> []"
    and "\<forall>i < block_count (files h). config_DataShards \<le> card (symbols_of (batch_packets s) (h, of_nat i))"
  shows "once_inv files s" "h \<in> fst ` set (finished s)"
proof -
  have "\<forall>p\<in>batch_packets s. genuine rs_New files p" using assms(5) sent_genuine [OF assms(3,2)] by blast
  with session_inv [OF assms(1,2,4)] have inv: "contents_inv rs_New files s" "once_inv files s" "progress_inv s" by blast+
  then show "once_inv files s" by simp
  have pos: "0 < block_count (files h)" using assms(8) block_count_iff [of 0 "files h"] by simp
  have "h \<in> completed_files (tracker s)"
    using block_collected [OF inv(1,3) assms(6,7)] assms(9) by (intro file_collected [OF inv(1) assms(4) pos]) blast
  moreover have "ran (\<lambda>t. work_file (t_work (threads s t))) = {}"
    using at_rest_works(2) [OF assms(6)] by (simp add: ran_def)
  ultimately show "h \<in> fst ` set (finished s)" using inv(2) by (simp add: once_inv_def writes_once_def)
qed

text \<open>C3: and it is complete. When all threads have come to rest, no reconstruction was given up, and of every block of a
  non-empty file at least 100 distinct symbols arrived, over whatever receivers, then the file has been handed to the
  writer, exactly once.\<close>

theorem session_completes_file:
  assumes "sm_reachable sha256 (FromRequest rs_New) output_dir s"
    and "rs_library rs_New" "packet_codec marshal unmarshal" "numberable files"
    and "\<forall>p\<in>batch_packets s. sent_packet rs_New marshal unmarshal files p"
    and "at_rest s" "abandoned s = {}" "files h \<noteq> []"
    and "\<forall>i < block_count (files h). config_DataShards \<le> card (symbols_of (batch_packets s) (h, of_nat i))"
  shows "\<exists>os_write. filter (\<lambda>e. fst e = h) (finished s)
    = [(h, files h, handle_file_complete sha256 os_write output_dir h (files h))]"
proof -
  note once = file_finished [OF assms]
  then obtain bytes r where in_fin: "(h, bytes, r) \<in> set (finished s)" by auto
  with once(1) have "bytes = files h" and dist: "distinct (map fst (finished s))" by (auto simp: once_inv_def writes_once_def)
  moreover obtain os_write where "r = handle_file_complete sha256 os_write output_dir h bytes"
    using finished_results [OF assms(1) in_fin] by blast
  ultimately show ?thesis using filter_key [OF in_fin dist] by blast
qed

section \<open>A block that is given up\<close>

text \<open>
  Every block is in one place only: with one thread, with the tracker, or given up. The tracker keeps this apart as long
  as the block numbers are those of the file.
\<close>

definition key_in_file :: "(uint64 \<Rightarrow> byte list) \<Rightarrow> block_key \<Rightarrow> bool" where
  "key_in_file files key \<longleftrightarrow> unat (snd key) < block_count (files (fst key))"

definition tracked_keys_of :: "(uint64 \<Rightarrow> byte list) \<Rightarrow> FileTracker \<Rightarrow> block_key set" where
  "tracked_keys_of files tr = {key. key_in_file files key \<and> tracker_has tr key}"

definition in_one_place :: "block_key set \<Rightarrow> block_key set \<Rightarrow> block_key set \<Rightarrow> (nat \<rightharpoonup> block_key) \<Rightarrow> bool" where
  "in_one_place C T A w \<longleftrightarrow> ran w \<subseteq> C \<and> T \<subseteq> C \<and> A \<subseteq> C \<and> ran w \<inter> T = {} \<and> ran w \<inter> A = {} \<and> A \<inter> T = {} \<and> inj_on w (dom w)"

lemma in_one_place_ready:
  assumes "in_one_place C T A w" "w t = None" "key \<notin> C"
  shows "in_one_place (insert key C) T A (w(t \<mapsto> key))"
proof -
  have "ran (w(t \<mapsto> key)) = insert key (ran w)" using assms(2) by (rule ran_map_upd)
  moreover have "inj_on (w(t \<mapsto> key)) (dom (w(t \<mapsto> key)))"
    using assms by (auto simp: in_one_place_def inj_on_def ran_def dom_def)
  ultimately show ?thesis using assms unfolding in_one_place_def by auto
qed

lemma in_one_place_leave:
  assumes "in_one_place C T A w" "w t = Some key"
  shows "in_one_place C (insert key T) A (w(t := None))" "in_one_place C T (insert key A) (w(t := None))"
proof -
  have inj: "inj_on w (dom w)" using assms(1) by (simp add: in_one_place_def)
  then have "inj_on (w(t := None)) (dom (w(t := None)))" by (auto simp: inj_on_def)
  moreover have "key \<in> ran w" using assms(2) by (rule ranI)
  ultimately show "in_one_place C (insert key T) A (w(t := None))" "in_one_place C T (insert key A) (w(t := None))"
    using assms(1) unfolding in_one_place_def ran_clear [OF inj assms(2)] by auto
qed

definition single_inv :: "(uint64 \<Rightarrow> byte list) \<Rightarrow> session \<Rightarrow> bool" where
  "single_inv files s \<longleftrightarrow> in_one_place (completed (aggregator s)) (tracked_keys_of files (tracker s)) (abandoned s)
     (\<lambda>t. work_key (t_work (threads s t))) \<and> (\<forall>key\<in>abandoned s. key_in_file files key)"

lemma single_inv_same:
  assumes "single_inv files s" "completed (aggregator s') = completed (aggregator s)" "tracker s' = tracker s"
    and "abandoned s' = abandoned s" "\<And>u. work_key (t_work (threads s' u)) = work_key (t_work (threads s u))"
  shows "single_inv files s'"
  using assms(1) unfolding single_inv_def assms(2-5) .

lemma single_inv_upd:
  assumes "in_one_place (completed (aggregator s')) (tracked_keys_of files (tracker s')) (abandoned s')
      ((\<lambda>u. work_key (t_work (threads s u)))(t := work_key (t_work (threads s' t))))"
    and "\<And>u. u \<noteq> t \<Longrightarrow> t_work (threads s' u) = t_work (threads s u)" "\<forall>key\<in>abandoned s'. key_in_file files key"
  shows "single_inv files s'"
proof -
  have "(\<lambda>u. work_key (t_work (threads s' u))) = (\<lambda>u. work_key (t_work (threads s u)))(t := work_key (t_work (threads s' t)))"
    using assms(2) by (auto simp: fun_eq_iff)
  with assms(1,3) show ?thesis by (simp add: single_inv_def)
qed

lemma tracker_lacks:
  assumes inv: "tracker_inv files tr" and ok: "assembled_ok files b" and small: "numberable files"
    and eq: "handle_block_assembled b tr = (tr', res)"
    and key: "\<not> tracker_has tr key" "key \<noteq> (ba_file_hash b, ba_block_id b)" "key_in_file files key"
  shows "\<not> tracker_has tr' key"
proof (cases "fst key = ba_file_hash b")
  case False
  with eq key(1) show ?thesis
    by (auto simp: handle_block_assembled_def tracker_has_def Let_def split: if_splits)
next
  case h: True
  let ?h = "ba_file_hash b"
  let ?bl = "AList.update (ba_block_id b) (ba_bytes b) (default_get [] (tracked_blocks tr) ?h)"
  have count: "block_count (files ?h) < 2 ^ 32" using small by (simp add: numberable_def)
  then have tot: "unat (ba_total_blocks b) = block_count (files ?h)" using ok by (simp add: assembled_ok_def unat32)
  have bl: "tracked_ok (files ?h) ?bl"
    using inv ok tracked_update [of "files ?h" _ "ba_block_id b"] by (simp add: tracker_inv_def assembled_ok_def)
  have lacks: "snd key \<notin> fst ` set ?bl"
    using key(1,2) h unfolding fst_set_update by (auto simp: tracker_has_def prod_eq_iff)
  moreover have "snd key \<in> of_nat ` {..<block_count (files ?h)}"
    using key(3) h by (intro image_eqI [of _ _ "unat (snd key)"]) (simp_all add: key_in_file_def)
  ultimately have "length ?bl < block_count (files ?h)" using tracked_keys(2) [OF bl count] by fastforce
  with key(1) h lacks eq show ?thesis
    by (auto simp: handle_block_assembled_def tracker_has_def tot Let_def split: if_splits)
qed

lemma tracked_keys_track:
  assumes "contents_inv rs_New files s" "t_work (threads s t) = Tracking b" "numberable files"
    and "handle_block_assembled b (tracker s) = (tr, res)"
  shows "tracked_keys_of files tr = insert (ba_file_hash b, ba_block_id b) (tracked_keys_of files (tracker s))"
proof -
  have ok: "assembled_ok files b" using contents_invD(3) [OF assms(1), of t] assms(2) by simp
  then have "key_in_file files (ba_file_hash b, ba_block_id b)" by (simp add: key_in_file_def assembled_ok_def)
  then show ?thesis
    using contents_inv_track(4,5) [OF assms] tracker_lacks [OF contents_invD(2) [OF assms(1)] ok assms(3,4)]
    unfolding tracked_keys_of_def by blast
qed

lemma single_inv_packet:
  assumes "single_inv files s" "contents_inv rs_New files s" "t_work (threads s t) = NextPacket"
    and p: "t_packets (threads s t) = p # ps" "add_packet (t_receiver (threads s t)) p (aggregator s) = (agg, r)"
    and "\<forall>p\<in>batch_packets s. genuine rs_New files p"
    and s': "s' = s\<lparr>aggregator := agg, handled := insert p (handled s),
         threads := (threads s)(t := (threads s t)\<lparr>t_packets := ps, t_work := after_add r\<rparr>)\<rparr>"
  shows "single_inv files s'"
proof -
  have "\<forall>q\<in>insert p (handled s). genuine rs_New files q"
    using assms(6) contents_inv_packet(3) [OF assms(2) p assms(6)] contents_invD(4) [OF assms(2)] by blast
  note add = add_packet_inv [OF contents_invD(1) [OF assms(2)] this p(2)]
  show ?thesis
  proof (cases r)
    case None
    with add assms(3) show ?thesis by - (rule single_inv_same [OF assms(1)], simp_all add: s')
  next
    case (Some b)
    let ?w = "\<lambda>u. work_key (t_work (threads s u))"
    have "in_one_place (insert (br_key b) (completed (aggregator s))) (tracked_keys_of files (tracker s)) (abandoned s)
        (?w(t \<mapsto> br_key b))"
      using assms(1,3) add Some by (intro in_one_place_ready) (simp_all add: single_inv_def)
    moreover have "\<forall>key\<in>abandoned s. key_in_file files key" using assms(1) by (simp add: single_inv_def)
    ultimately show ?thesis using add Some by - (rule single_inv_upd [of s' files s t], simp_all add: s')
  qed
qed

lemma single_inv_step:
  assumes "sm_step sha256 (FromRequest rs_New) output_dir s s'" "contents_inv rs_New files s" "single_inv files s"
    and "numberable files" "rs_library rs_New" "\<forall>p\<in>batch_packets s'. genuine rs_New files p"
  shows "single_inv files s'"
proof -
  let ?C = "completed (aggregator s)" and ?T = "tracked_keys_of files (tracker s)" and ?w = "\<lambda>u. work_key (t_work (threads s u))"
  from assms(3) have one: "in_one_place ?C ?T (abandoned s) ?w" and infile: "\<forall>key\<in>abandoned s. key_in_file files key"
    by (simp_all add: single_inv_def)
  from assms(1) show ?thesis
  proof (cases rule: sm_step.cases)
    case (packet t p ps agg r)
    from assms(6) have "\<forall>p\<in>batch_packets s. genuine rs_New files p" by (simp add: packet(1))
    with single_inv_packet [OF assms(3,2) packet(2-4) _ packet(1)] show ?thesis by blast
  next
    case (assemble t r b)
    have "work_key (Tracking b) = Some (br_key r)"
      using contents_inv_assemble [OF assms(2) assemble(2) assms(5,4)] assemble(3) by auto
    with assemble(2) show ?thesis by - (rule single_inv_same [OF assms(3)], simp_all add: assemble(1))
  next
    case (reconstruction_error t r)
    then show ?thesis using contents_inv_assemble [OF assms(2) reconstruction_error(2) assms(5,4)] by auto
  next
    case (helper_unreachable t r)
    have "ready_ok rs_New files r" using contents_invD(3) [OF assms(2), of t] helper_unreachable(2) by simp
    then have "key_in_file files (br_key r)" by (simp add: ready_ok_def key_in_file_def)
    moreover have "in_one_place ?C ?T (insert (br_key r) (abandoned s)) (?w(t := None))"
      using helper_unreachable(2) by (intro in_one_place_leave(2) [OF one]) simp
    ultimately show ?thesis using infile by - (rule single_inv_upd [of s' files s t], simp_all add: helper_unreachable(1))
  next
    case (track t b tr res)
    have "in_one_place ?C (insert (ba_file_hash b, ba_block_id b) ?T) (abandoned s) (?w(t := None))"
      using track(2) by (intro in_one_place_leave(1) [OF one]) simp
    moreover have "work_key (after_track res) = None" by (cases res) simp_all
    ultimately show ?thesis using infile tracked_keys_track [OF assms(2) track(2) assms(4) track(3)]
      by - (rule single_inv_upd [of s' files s t], simp_all add: track(1))
  qed (rule single_inv_same [OF assms(3)]; simp)+
qed

text \<open>C27: a block that is given up costs the file. The aggregator marks a block as completed before it is reconstructed and
  ignores its later symbols; so when the connection to \<open>rs_helper\<close> fails for one block, the file is never handed to the writer,
  however many symbols of the block arrive afterwards and however long the session runs.\<close>

theorem abandoned_block_loses_file:
  assumes "sm_reachable sha256 (FromRequest rs_New) output_dir s"
    and "rs_library rs_New" "packet_codec marshal unmarshal" "numberable files"
    and "\<forall>p\<in>batch_packets s. sent_packet rs_New marshal unmarshal files p"
    and "key \<in> abandoned s"
  shows "fst key \<notin> fst ` set (finished s)"
proof -
  have gen: "\<forall>p\<in>batch_packets s. genuine rs_New files p" using assms(5) sent_genuine [OF assms(3,2)] by blast
  from assms(1) gen have "single_inv files s"
  proof induction
    case start
    then show ?case
      by (simp add: single_inv_def in_one_place_def session_start_def tracked_keys_of_def tracker_has_def empty_tracker_def
          default_get_def inj_on_def)
  next
    case (step s s')
    then have "\<forall>p\<in>batch_packets s. genuine rs_New files p" using batch_packets_mono [OF step.hyps(2)] by blast
    with step session_inv [OF step.hyps(1) assms(2,4)] single_inv_step [OF step.hyps(2) _ _ assms(4,2)] show ?case by blast
  qed
  then have "key \<notin> tracked_keys_of files (tracker s)" "key_in_file files key"
    using assms(6) by (auto simp: single_inv_def in_one_place_def)
  then have "fst key \<notin> completed_files (tracker s)" by (simp add: tracked_keys_of_def tracker_has_def)
  moreover have "once_inv files s" using session_inv [OF assms(1,2,4) gen] by blast
  ultimately show ?thesis by (auto simp: once_inv_def writes_once_def)
qed

section \<open>Concrete sessions\<close>

text \<open>One file of three bytes; a receiver delivers all 150 packets of its block in one batch.\<close>

definition demo_files :: "uint64 \<Rightarrow> byte list" where
  "demo_files h = (if h = 7 then [1, 2, 3] else [])"

lemma demo_files_count: "block_count (demo_files h) = (if h = 7 then 1 else 0)"
  by (simp add: demo_files_def block_count_def config_values)

lemma demo_numberable: "numberable demo_files"
  by (simp add: numberable_def demo_files_count)

definition demo_grp :: "EncodedBlock list" where
  "demo_grp = fst (encode_group ref_New (mem_file [1, 2, 3]) 0 1)"

definition demo_symbols :: "Packet list" where
  "demo_symbols = group_packets 7 (totalBlocks_of 3) 3 demo_grp"

lemma demo_grp:
  "encode_group ref_New (mem_file [1, 2, 3]) 0 1 = (demo_grp, [])" "list_all2 (encodes ref_New (demo_files 7)) [0..<1] demo_grp"
  "\<forall>b\<in>set demo_grp. block_shaped b"
proof -
  have one: "block_count [1, 2, 3] = 1" using demo_files_count [of 7] by (simp add: demo_files_def)
  have "\<exists>grp. encode_group ref_New (mem_file [1, 2, 3]) (of_nat 0) (of_nat 1) = (grp, []) \<and>
      list_all2 (encodes ref_New [1, 2, 3]) [0..<1] grp"
    by (rule encode_group_all [OF mem.mapped_file_axioms library_encodable [OF reference.rs_library_axioms]]) (simp_all add: one)
  then show grp: "encode_group ref_New (mem_file [1, 2, 3]) 0 1 = (demo_grp, [])"
      "list_all2 (encodes ref_New (demo_files 7)) [0..<1] demo_grp"
    by (auto simp: demo_grp_def demo_files_def)
  then obtain b where b: "demo_grp = [b]" "encodes ref_New (demo_files 7) 0 b" by (auto simp: list_all2_Cons1)
  then show "\<forall>b\<in>set demo_grp. block_shaped b"
    unfolding b(1) using senders_EncodeBlock_shape [OF reference.rs_library_axioms] by (auto simp: block_shaped_def encodes_def)
qed

lemma demo_arrival:
  "\<forall>p\<in>set demo_symbols. sent_packet ref_New marshal_packet unmarshal_packet demo_files p"
  "\<forall>i < block_count (demo_files 7). config_DataShards \<le> card (symbols_of (set demo_symbols) (7, of_nat i))"
proof -
  obtain b where b: "demo_grp = [b]" "encodes ref_New (demo_files 7) 0 b"
    using demo_grp(2) by (auto simp: list_all2_Cons1)
  note acc = send_group_accepted [OF packet_link.packet_codec_axioms demo_grp(3), of "\<lambda>n. None" 7 "totalBlocks_of 3" 3]
  let ?ps = "group_packets 7 (totalBlocks_of 3) 3 demo_grp"
  have "sent_packet ref_New marshal_packet unmarshal_packet demo_files p" if "p \<in> set ?ps" for p
  proof -
    from that have "[p] \<in> set (map (\<lambda>p. [p]) ?ps)" by simp
    then obtain ser where "ser \<in> set (attempted (send_group marshal_packet (\<lambda>n. None) 7 (totalBlocks_of 3) 3 demo_grp))"
        "accepts unmarshal_packet ser = [p]" unfolding acc [symmetric] by auto
    moreover have "int (length (demo_files 7)) = 3" by (simp add: demo_files_def)
    ultimately show ?thesis
      unfolding sent_packet_def using demo_grp(2) demo_files_count [of 7]
      by (intro exI [of _ 7] exI [of _ "[0..<1]"] exI [of _ demo_grp] exI [of _ "\<lambda>n. None"] exI [of _ ser]) simp
  qed
  then show "\<forall>p\<in>set demo_symbols. sent_packet ref_New marshal_packet unmarshal_packet demo_files p"
    by (simp add: demo_symbols_def)
  have "of_nat ` {..<config_NSymbols} \<subseteq> symbols_of (set ?ps) (7, of_nat 0)"
  proof
    fix x :: uint32
    assume "x \<in> of_nat ` {..<config_NSymbols}"
    then obtain i where i: "i < config_NSymbols" "x = of_nat i" by auto
    have "blockIdx b = 0" using b(2) by (simp add: encodes_def unat_eq_zero)
    with i have "symbol_packet 7 (totalBlocks_of 3) 3 i b \<in> {p \<in> set ?ps. packet_key p = (7, of_nat 0)}"
      by (auto simp: group_packets_def b(1) packet_key_def symbol_packet_def)
    moreover have "SymbolId (symbol_packet 7 (totalBlocks_of 3) 3 i b) = x" by (simp add: symbol_packet_def i(2))
    ultimately show "x \<in> symbols_of (set ?ps) (7, of_nat 0)" unfolding symbols_of_def by blast
  qed
  then have "card (of_nat ` {..<config_NSymbols} :: uint32 set) \<le> card (symbols_of (set ?ps) (7, of_nat 0))"
    by (intro card_mono) (simp_all add: symbols_of_def)
  moreover have "card (of_nat ` {..<config_NSymbols} :: uint32 set) = config_NSymbols"
    using unat_symbol by (subst card_image) (auto intro: inj_on_inverseI [where g = unat])
  ultimately show "\<forall>i < block_count (demo_files 7). config_DataShards \<le> card (symbols_of (set demo_symbols) (7, of_nat i))"
    using DataShards_less by (auto simp: demo_files_count demo_symbols_def)
qed

lemma demo_batch:
  obtains s where "sm_reachable sha256 (FromRequest ref_New) output_dir s" "batch_packets s = set demo_symbols"
    "t_work (threads s 0) = NextPacket" "t_packets (threads s 0) = demo_symbols" "abandoned s = {}" "finished s = []"
    "\<forall>u. u \<noteq> 0 \<longrightarrow> t_packets (threads s u) = [] \<and> t_work (threads s u) = NextPacket"
proof -
  define b where "b = \<lparr>ReceiverId = 1, SB_Packets = demo_symbols\<rparr>"
  define s where "s = session_start\<lparr>threads := (threads session_start)(0 := \<lparr>t_receiver = ReceiverId b,
    t_packets = SB_Packets b, t_work = NextPacket\<rparr>), batches_read := batches_read session_start @ [b]\<rparr>"
  have "sm_step sha256 (FromRequest ref_New) output_dir session_start s"
    unfolding s_def by (rule read_batch) (simp_all add: session_start_def)
  then have "sm_reachable sha256 (FromRequest ref_New) output_dir s" by (rule sm_reachable.step [OF sm_reachable.start])
  moreover have "batch_packets s = set demo_symbols" by (simp add: s_def b_def batch_packets_def session_start_def)
  ultimately show thesis by (intro that [of s]) (simp_all add: s_def b_def session_start_def)
qed

lemma demo_session_run:
  obtains s where "sm_reachable sha256 (FromRequest ref_New) output_dir s" "batch_packets s = set demo_symbols"
    "at_rest s" "abandoned s = {}"
proof -
  obtain s where s: "sm_reachable sha256 (FromRequest ref_New) output_dir s" "batch_packets s = set demo_symbols"
    "t_work (threads s 0) = NextPacket" "t_packets (threads s 0) = demo_symbols" "abandoned s = {}" "finished s = []"
    "\<forall>u. u \<noteq> 0 \<longrightarrow> t_packets (threads s u) = [] \<and> t_work (threads s u) = NextPacket"
    using demo_batch .
  have "\<forall>p\<in>batch_packets s. genuine ref_New demo_files p"
    using demo_arrival(1) sent_genuine [OF packet_link.packet_codec_axioms reference.rs_library_axioms] s(2) by blast
  from finish_batch [OF reference.rs_library_axioms demo_numberable s(1) this s(3,4)] obtain s' where
    s': "gets sha256 (FromRequest ref_New) output_dir 0 s s'" "t_work (threads s' 0) = NextPacket" "t_packets (threads s' 0) = []"
    by blast
  have "at_rest s'" unfolding at_rest_def using s' s(7) by (metis alone_def gets_def)
  moreover have "sm_reachable sha256 (FromRequest ref_New) output_dir s'" "abandoned s' = {}" "batch_packets s' = batch_packets s"
    using s'(1) s(5) gets_packets [OF s'(1)] sm_steps_reachable [OF _ s(1)] by (auto simp: gets_def alone_def)
  ultimately show thesis using that s(2) by metis
qed

lemma demo_rest:
  assumes "sm_reachable sha256 (FromRequest ref_New) output_dir s" "batch_packets s = set demo_symbols" "at_rest s" "abandoned s = {}"
  shows "7 \<in> fst ` set (finished s)"
  using file_finished(2) [OF assms(1) reference.rs_library_axioms packet_link.packet_codec_axioms demo_numberable _ assms(3,4)]
    demo_arrival assms(2)
  by (simp add: demo_files_def)

lemma demo_finished:
  obtains s where "sm_reachable sha256 (FromRequest ref_New) output_dir s" "batch_packets s = set demo_symbols"
    "7 \<in> fst ` set (finished s)"
  using demo_session_run [of sha256 output_dir] demo_rest [of sha256 output_dir] by metis

theorem session_completes_file_witness:
  "\<exists>s os_write. sm_reachable (\<lambda>bs. [0, 0, 0, 0, 0, 0, 0, 7]) (FromRequest ref_New) ''out'' s \<and> at_rest s \<and>
     filter (\<lambda>e. fst e = 7) (finished s)
       = [(7, [1, 2, 3], handle_file_complete (\<lambda>bs. [0, 0, 0, 0, 0, 0, 0, 7]) os_write ''out'' 7 [1, 2, 3])]"
proof -
  obtain s where s: "sm_reachable (\<lambda>bs. [0, 0, 0, 0, 0, 0, 0, 7]) (FromRequest ref_New) ''out'' s"
    "batch_packets s = set demo_symbols" "at_rest s" "abandoned s = {}" using demo_session_run .
  note sent = demo_arrival [folded s(2)]
  have f: "demo_files 7 = [1, 2, 3]" by (simp add: demo_files_def)
  then have "demo_files 7 \<noteq> []" by simp
  from session_completes_file [OF s(1) reference.rs_library_axioms packet_link.packet_codec_axioms demo_numberable sent(1) s(3,4) this sent(2)]
  show ?thesis using s(1,3) unfolding f by blast
qed

theorem session_delivers_files_witness:
  "\<exists>s r. sm_reachable (\<lambda>bs. [0, 0, 0, 0, 0, 0, 0, 7]) (FromRequest ref_New) ''out'' s \<and> (7, [1, 2, 3], r) \<in> set (finished s) \<and>
     (r = Written ''out/7.bin'' [1, 2, 3] \<or> (\<exists>err. r = OutputError err))"
proof -
  obtain s where s: "sm_reachable (\<lambda>bs. [0, 0, 0, 0, 0, 0, 0, 7]) (FromRequest ref_New) ''out'' s"
    "batch_packets s = set demo_symbols" "7 \<in> fst ` set (finished s)" using demo_finished .
  have f: "demo_files 7 = [1, 2, 3]" by (simp add: demo_files_def)
  note all = session_delivers_files [OF s(1) reference.rs_library_axioms packet_link.packet_codec_axioms demo_numberable
    demo_arrival(1) [folded s(2)]]
  obtain bytes r where e: "(7, bytes, r) \<in> set (finished s)" using s(3) by auto
  have "compute_reference_hash (\<lambda>bs. [0, 0, 0, 0, 0, 0, 0, 7]) (demo_files 7) = 7"
    by (simp add: compute_reference_hash_def)
  moreover have "output_path ''out'' 7 = ''out/7.bin''" by code_simp
  ultimately have "bytes = [1, 2, 3]" "r = Written ''out/7.bin'' [1, 2, 3] \<or> (\<exists>err. r = OutputError err)"
    using bspec [OF conjunct2 [OF all] e] by (simp_all add: f)
  with s(1) e show ?thesis by blast
qed

text \<open>C26: whatever arrives and whatever \<open>rs_helper\<close> answers (forged, damaged or mixed-up packets included), a file is written
  only under the hash its bytes have: the name is the hash, the contents hash to it, and the writer reports an integrity
  failure in exactly the other cases.\<close>

theorem only_verified_files_written:
  assumes "sm_reachable sha256 helper output_dir s"
  shows "\<forall>(h, bytes, r)\<in>set (finished s). case r of
      Written path written \<Rightarrow> path = output_path output_dir h \<and> written = bytes \<and> compute_reference_hash sha256 bytes = h
    | OutputError err \<Rightarrow> compute_reference_hash sha256 bytes = h
    | IntegrityFailure h' \<Rightarrow> h' = h \<and> compute_reference_hash sha256 bytes \<noteq> h"
  using finished_results [OF assms]
  by (fastforce simp: handle_file_complete_def verify_file_def split: option.splits if_splits writer_result.splits)

theorem only_verified_files_written_witness:
  "\<exists>s bytes. sm_reachable (\<lambda>bs. [0, 0, 0, 0, 0, 0, 0, 8]) (FromRequest ref_New) ''out'' s \<and>
     (7, bytes, IntegrityFailure 7) \<in> set (finished s)"
proof -
  let ?sha = "\<lambda>bs :: byte list. [0, 0, 0, 0, 0, 0, 0, 8 :: byte]"
  obtain s where s: "sm_reachable ?sha (FromRequest ref_New) ''out'' s" "7 \<in> fst ` set (finished s)"
    using demo_finished by metis
  then obtain bytes r where e: "(7, bytes, r) \<in> set (finished s)" by auto
  have "compute_reference_hash ?sha bytes = 8" by (simp add: compute_reference_hash_def)
  with bspec [OF only_verified_files_written [OF s(1)] e] have "r = IntegrityFailure 7"
    by (auto split: writer_result.splits)
  with s(1) e show ?thesis by blast
qed

text \<open>A thread takes packets until one of them completes a block.\<close>

lemma until_ready:
  "t_work (threads s t) = NextPacket \<Longrightarrow> t_packets (threads s t) = ps \<Longrightarrow>
   \<exists>s'. gets sha256 helper output_dir t s s' \<and> finished s' = finished s \<and>
     ((\<exists>r. t_work (threads s' t) = Assembling r) \<or> t_work (threads s' t) = NextPacket \<and> t_packets (threads s' t) = [])"
proof (induction ps arbitrary: s)
  case Nil
  then show ?case by (intro exI [of _ s]) (simp add: gets_def alone_def)
next
  case (Cons p ps)
  obtain agg r where add: "add_packet (t_receiver (threads s t)) p (aggregator s) = (agg, r)" by fastforce
  define s1 where "s1 = s\<lparr>aggregator := agg, handled := insert p (handled s),
    threads := (threads s)(t := (threads s t)\<lparr>t_packets := ps, t_work := after_add r\<rparr>)\<rparr>"
  have "sm_step sha256 helper output_dir s s1" unfolding s1_def by (rule packet [OF Cons.prems add])
  then have s1: "gets sha256 helper output_dir t s s1" by (rule gets_step) (simp add: s1_def alone_def)
  have t1: "t_packets (threads s1 t) = ps" "t_work (threads s1 t) = after_add r" "finished s1 = finished s"
    by (simp_all add: s1_def)
  show ?case
  proof (cases r)
    case None
    with t1(2) have "t_work (threads s1 t) = NextPacket" by simp
    from Cons.IH [OF this t1(1)] gets_trans [OF s1] t1(3) show ?thesis by metis
  next
    case (Some b)
    with s1 t1 show ?thesis by (intro exI [of _ s1]) simp
  qed
qed

theorem abandoned_block_loses_file_witness:
  "\<exists>s key. sm_reachable (\<lambda>bs. []) (FromRequest ref_New) ''out'' s \<and> key \<in> abandoned s \<and> fst key \<notin> fst ` set (finished s)"
proof -
  define sha256 :: "byte list \<Rightarrow> byte list" where "sha256 = (\<lambda>bs. [])"
  define output_dir where "output_dir = ''out''"
  obtain s where s: "sm_reachable sha256 (FromRequest ref_New) output_dir s" "batch_packets s = set demo_symbols"
    "t_work (threads s 0) = NextPacket" "t_packets (threads s 0) = demo_symbols" "abandoned s = {}" "finished s = []"
    "\<forall>u. u \<noteq> 0 \<longrightarrow> t_packets (threads s u) = [] \<and> t_work (threads s u) = NextPacket"
    using demo_batch .
  obtain s1 where s1: "gets sha256 (FromRequest ref_New) output_dir 0 s s1" "finished s1 = finished s"
    and cases: "(\<exists>r. t_work (threads s1 0) = Assembling r) \<or> t_work (threads s1 0) = NextPacket \<and> t_packets (threads s1 0) = []"
    using until_ready [OF s(3,4), of sha256 "FromRequest ref_New" output_dir] by blast
  have r1: "sm_reachable sha256 (FromRequest ref_New) output_dir s1" "abandoned s1 = {}" "batch_packets s1 = batch_packets s"
    using s1(1) s(5) gets_packets [OF s1(1)] sm_steps_reachable [OF _ s(1)] by (auto simp: gets_def alone_def)
  have "\<not> at_rest s1"
  proof
    assume "at_rest s1"
    then have "7 \<in> fst ` set (finished s1)"
      using demo_rest [OF r1(1) _ _ r1(2)] s(2) r1(3) by simp
    with s1(2) s(6) show False by simp
  qed
  moreover have "at_rest s1" if "t_work (threads s1 0) = NextPacket" "t_packets (threads s1 0) = []"
    unfolding at_rest_def using that s1(1) s(7) by (metis alone_def gets_def)
  ultimately obtain r where r: "t_work (threads s1 0) = Assembling r" using cases by blast
  define s2 where "s2 = to_work 0 Ended (s1\<lparr>abandoned := insert (br_key r) (abandoned s1)\<rparr>)"
  have "sm_step sha256 (FromRequest ref_New) output_dir s1 s2" unfolding s2_def by (rule helper_unreachable [OF r])
  with r1(1) have r2: "sm_reachable sha256 (FromRequest ref_New) output_dir s2" by (rule sm_reachable.step)
  have "\<forall>p\<in>batch_packets s2. sent_packet ref_New marshal_packet unmarshal_packet demo_files p" "br_key r \<in> abandoned s2"
    using s(2) r1(3) demo_arrival(1) by (simp_all add: s2_def)
  with abandoned_block_loses_file [OF r2 reference.rs_library_axioms packet_link.packet_codec_axioms demo_numberable]
  show ?thesis using r2 unfolding sha256_def output_dir_def by blast
qed

end
