(* ===== verification/End_To_End.thy ===== *)
theory End_To_End
  imports Monitor_Link Session_Delivery
begin

text \<open>
  The whole system: the watcher and the orchestrator, the links to the senders, the sender processes, the network, the receivers
  and the session manager, put together. The theories of the parts supply the steps; what is left to show here is that
  the datagrams of a finished task carry symbols of the file that was watched, and that a file
  comes out only under a hash that went in.
\<close>

section \<open>The datagrams of a task\<close>

text \<open>A group for any count, also one that wraps around: if its first block is in the file, it is a run of blocks of the file.\<close>

lemma encode_any_group:
  assumes "mapped_file mf bs" "encodable rs_New" "block_count bs + senders_BlocksJump \<le> 2 ^ 32" "start < totalBlocks_of (Size mf)"
  shows "\<exists>idxs grp. encode_group rs_New mf start (endBlock_of start (totalBlocks_of (Size mf))) = (grp, []) \<and>
    list_all2 (encodes rs_New bs) idxs grp \<and> (\<forall>i\<in>set idxs. i < block_count bs)"
proof -
  let ?e = "min (unat start + senders_BlocksJump) (block_count bs)"
  have tot: "totalBlocks_of (Size mf) = of_nat (block_count bs)" by (rule totalBlocks_of_file [OF assms(1)])
  have bc: "block_count bs < 2 ^ 32" using assms(3) by (simp add: BlocksJump_value)
  then have lt: "unat start < block_count bs" using assms(4) unfolding tot word_less_nat_alt by (simp only: unat32)
  have e: "endBlock_of start (totalBlocks_of (Size mf)) = of_nat ?e"
    using endBlock_of_nat [OF lt assms(3)] by (simp add: tot)
  have "\<exists>grp. encode_group rs_New mf (of_nat (unat start)) (of_nat ?e) = (grp, []) \<and>
      list_all2 (encodes rs_New bs) [unat start..<?e] grp"
    using bc lt by (intro encode_group_all [OF assms(1,2)]) auto
  then show ?thesis unfolding e by (auto intro!: exI [of _ "[unat start..<?e]"])
qed

definition group_datagram ::
  "(int \<Rightarrow> int \<Rightarrow> Codec res) \<Rightarrow> (Packet \<Rightarrow> byte list res) \<Rightarrow> uint64 \<Rightarrow> byte list \<Rightarrow> byte list \<Rightarrow> bool" where
  "group_datagram rs_New marshal h bs d \<longleftrightarrow> (\<exists>idxs grp udp.
     list_all2 (encodes rs_New bs) idxs grp \<and> (\<forall>i\<in>set idxs. i < block_count bs) \<and>
     d \<in> set (attempted (send_group marshal udp h (totalBlocks_of (int (length bs))) (int (length bs)) grp)))"

lemma claim_loop_datagrams:
  assumes "mapped_file mf bs" "encodable rs_New" "block_count bs + senders_BlocksJump \<le> 2 ^ 32"
  shows "claim_loop rs_New marshal udp h mf counts tr0 = Some tr \<Longrightarrow>
    \<forall>d\<in>set (attempted (tr_events tr0)). group_datagram rs_New marshal h bs d \<Longrightarrow>
    \<forall>d\<in>set (attempted (tr_events tr)). group_datagram rs_New marshal h bs d"
proof (induction counts arbitrary: tr0)
  case (Cons c counts)
  obtain e count where c: "c = (e, count)" by fastforce
  let ?start = "startBlock_of count"
  show ?case
  proof (cases "e = None \<and> ?start < totalBlocks_of (Size mf)")
    case False
    with Cons.prems c show ?thesis by (cases e) (auto simp: Let_def not_less)
  next
    case True
    obtain idxs grp where grp: "encode_group rs_New mf ?start (endBlock_of ?start (totalBlocks_of (Size mf))) = (grp, [])"
        "list_all2 (encodes rs_New bs) idxs grp" "\<forall>i\<in>set idxs. i < block_count bs"
      using encode_any_group [OF assms] True by blast
    have size: "Size mf = int (length bs)" using mapped_file.size_data [OF assms(1)] by (simp add: Size_def)
    let ?evs = "send_group marshal (udp (length (tr_groups tr0))) h (totalBlocks_of (Size mf)) (Size mf) grp"
    have "\<forall>d\<in>set (attempted ?evs). group_datagram rs_New marshal h bs d"
      unfolding group_datagram_def size using grp(2,3) by blast
    moreover have "\<not> totalBlocks_of (Size mf) \<le> ?start" using True by (simp add: not_le)
    ultimately show ?thesis using Cons.prems True c grp(1)
      by (intro Cons.IH [of "tr0\<lparr>tr_groups := tr_groups tr0 @ [grp], tr_events := tr_events tr0 @ ?evs\<rparr>"])
        (auto simp: Let_def)
  qed
qed simp

lemma result_datagrams:
  assumes "result_ok mmap_Open rs_New marshal (task, tr)" "rs_library rs_New"
    and "\<And>mf. OpenFile mmap_Open (FilePath task) = Inr mf \<Longrightarrow> mapped_file mf bs" "block_count bs + senders_BlocksJump \<le> 2 ^ 32"
    and "d \<in> set (attempted (tr_events tr))"
  shows "group_datagram rs_New marshal (Task_FileHash task) bs d"
proof -
  from assms(1) obtain mf udp counts where mf: "OpenFile mmap_Open (FilePath task) = Inr mf"
      "claim_loop rs_New marshal udp (Task_FileHash task) mf counts \<lparr>tr_groups = [], tr_events = [], tr_logs = []\<rparr> = Some tr"
    by (auto simp: result_ok_def)
  from claim_loop_datagrams [OF assms(3) [OF mf(1)] library_encodable [OF assms(2)] assms(4) mf(2)] assms(5) show ?thesis by simp
qed

lemma group_datagram_sent:
  "group_datagram rs_New marshal h (files h) d \<Longrightarrow> p \<in> set (accepts unmarshal d) \<Longrightarrow> sent_packet rs_New marshal unmarshal files p"
  unfolding group_datagram_def sent_packet_def by blast

section \<open>Files come out under hashes that came in\<close>

definition hashes_in :: "session \<Rightarrow> uint64 set" where
  "hashes_in s = FileHash ` batch_packets s"

fun work_hash :: "work \<Rightarrow> uint64 set" where
  "work_hash (Assembling r) = {fst (br_key r)}"
| "work_hash (Tracking b) = {ba_file_hash b}"
| "work_hash (Writing h bytes) = {h}"
| "work_hash NextPacket = {}"
| "work_hash Ended = {}"

definition hash_inv :: "session \<Rightarrow> bool" where
  "hash_inv s \<longleftrightarrow> fst ` set (finished s) \<subseteq> hashes_in s \<and>
     (\<forall>t. work_hash (t_work (threads s t)) \<subseteq> hashes_in s \<and> set (t_packets (threads s t)) \<subseteq> batch_packets s)"

lemma hash_inv_move:
  assumes "hash_inv s" "batch_packets s \<subseteq> batch_packets s'" "fst ` set (finished s') \<subseteq> hashes_in s"
    and "threads s' = (threads s)(t := th)" "work_hash (t_work th) \<subseteq> hashes_in s" "set (t_packets th) \<subseteq> batch_packets s'"
  shows "hash_inv s'"
proof -
  have mono: "hashes_in s \<subseteq> hashes_in s'" using assms(2) by (auto simp: hashes_in_def)
  have "work_hash (t_work (threads s' u)) \<subseteq> hashes_in s' \<and> set (t_packets (threads s' u)) \<subseteq> batch_packets s'" for u
  proof (cases "u = t")
    case True
    with assms(4-6) mono show ?thesis by auto
  next
    case False
    with assms(4) have "threads s' u = threads s u" by simp
    with assms(1,2) mono show ?thesis unfolding hash_inv_def by (metis subset_trans)
  qed
  with subset_trans [OF assms(3) mono] show ?thesis by (simp add: hash_inv_def)
qed

lemma add_packet_key: "add_packet rid p agg = (agg', Some r) \<Longrightarrow> fst (br_key r) = FileHash p"
  by (auto simp: add_packet_def Let_def packet_key_def split: if_splits)

lemma tracked_hash: "handle_block_assembled b tr = (tr', Complete h bytes rs) \<Longrightarrow> h = ba_file_hash b"
  by (auto simp: handle_block_assembled_def Let_def split: if_splits option.splits)

lemma assembled_hash: "handle_block_ready helper r = Some b \<Longrightarrow> ba_file_hash b = fst (br_key r)"
  by (auto simp: handle_block_ready_def Let_def split: sum.splits)

lemma hash_inv_step:
  assumes "sm_step sha256 helper output_dir s s'" "hash_inv s"
  shows "hash_inv s'"
proof -
  note thr = assms(2) [unfolded hash_inv_def, THEN conjunct2, rule_format]
  from assms(2) have fin: "fst ` set (finished s) \<subseteq> hashes_in s" by (simp add: hash_inv_def)
  from assms(1) show ?thesis
  proof cases
    case (read_batch t b)
    then show ?thesis using fin
      by (intro hash_inv_move [OF assms(2), where t = t]) (auto simp: hashes_in_def batch_packets_def)
  next
    case (packet t p ps agg r)
    with thr [of t] have p: "p \<in> batch_packets s" "set ps \<subseteq> batch_packets s" by auto
    have "work_hash (after_add r) \<subseteq> FileHash ` batch_packets s"
      using p packet(4) add_packet_key [of _ p] by (cases r) auto
    with p packet(1) fin show ?thesis
      by (intro hash_inv_move [OF assms(2), where t = t]) (auto simp: hashes_in_def batch_packets_def)
  next
    case (assemble t r b)
    with thr [of t] fin assembled_hash [OF assemble(3)] show ?thesis
      by (intro hash_inv_move [OF assms(2), where t = t]) (auto simp: hashes_in_def to_work_def batch_packets_def)
  next
    case (reconstruction_error t r)
    with thr [of t] fin show ?thesis
      by (intro hash_inv_move [OF assms(2), where t = t]) (auto simp: hashes_in_def to_work_def batch_packets_def)
  next
    case (helper_unreachable t r)
    with thr [of t] fin show ?thesis
      by (intro hash_inv_move [OF assms(2), where t = t]) (auto simp: hashes_in_def to_work_def batch_packets_def)
  next
    case (track t b tr res)
    have "ba_file_hash b \<in> FileHash ` batch_packets s" using track(2) thr [of t] by (simp add: hashes_in_def)
    then have "work_hash (after_track res) \<subseteq> FileHash ` batch_packets s"
      using track(3) tracked_hash [of b "tracker s" tr] by (cases res) auto
    with track thr [of t] fin show ?thesis
      by (intro hash_inv_move [OF assms(2), where t = t]) (auto simp: hashes_in_def to_work_def batch_packets_def)
  next
    case (write_file t h bytes os_write)
    with thr [of t] fin show ?thesis
      by (intro hash_inv_move [OF assms(2), where t = t]) (auto simp: hashes_in_def to_work_def batch_packets_def)
  next
    case (disconnect t)
    with thr [of t] fin show ?thesis
      by (intro hash_inv_move [OF assms(2), where t = t]) (auto simp: hashes_in_def to_work_def batch_packets_def)
  qed
qed

lemma finished_hashes:
  "sm_reachable sha256 helper output_dir s \<Longrightarrow> (h, bytes, r) \<in> set (finished s) \<Longrightarrow> h \<in> hashes_in s"
proof -
  assume reach: "sm_reachable sha256 helper output_dir s" and fin: "(h, bytes, r) \<in> set (finished s)"
  from reach have "hash_inv s"
  proof induction
    case start
    then show ?case by (simp add: hash_inv_def session_start_def)
  next
    case (step s s')
    from hash_inv_step [OF step.hyps(2) step.IH] show ?case .
  qed
  with fin show ?thesis by (force simp: hash_inv_def)
qed

section \<open>From the inbox to the output directory\<close>

text \<open>The watched files by their hash.\<close>

definition files_of :: "monitor \<Rightarrow> uint64 \<Rightarrow> byte list" where
  "files_of m h = (case map_of (map (\<lambda>(md, bs). (file_hash md, bs)) (watched m)) h of None \<Rightarrow> [] | Some bs \<Rightarrow> bs)"

lemma files_of_watched:
  assumes "files_of m h \<noteq> []"
  shows "\<exists>md. (md, files_of m h) \<in> set (watched m) \<and> file_hash md = h"
proof -
  from assms obtain bs where "map_of (map (\<lambda>(md, bs). (file_hash md, bs)) (watched m)) h = Some bs" "files_of m h = bs"
    by (auto simp: files_of_def split: option.splits)
  then show ?thesis by (auto dest!: map_of_SomeD)
qed

lemma files_of_eq:
  assumes "(md, bs) \<in> set (watched m)" "bs \<noteq> []"
    and "\<forall>(md, bs)\<in>set (watched m). \<forall>(md', bs')\<in>set (watched m). file_hash md = file_hash md' \<longrightarrow> bs = bs'"
  shows "files_of m (file_hash md) = bs"
proof -
  have "file_hash md \<in> fst ` set (map (\<lambda>(md, bs). (file_hash md, bs)) (watched m))" using assms(1) by force
  then obtain x where x: "map_of (map (\<lambda>(md, bs). (file_hash md, bs)) (watched m)) (file_hash md) = Some x"
    by (meson weak_map_of_SomeI map_of_eq_None_iff option.exhaust)
  then have "\<exists>md'. (md', x) \<in> set (watched m) \<and> file_hash md' = file_hash md" by (auto dest!: map_of_SomeD) metis
  with assms(1,3) have "x = bs" by fastforce
  with x show ?thesis by (simp add: files_of_def)
qed

lemma files_of_numberable:
  assumes "\<forall>(md, bs)\<in>set (watched m). block_count bs < 2 ^ 32"
  shows "numberable (files_of m)"
proof -
  have "block_count (files_of m h) < 2 ^ 32" for h
  proof (cases "files_of m h = []")
    case True
    then show ?thesis by (simp add: block_count_def config_values)
  next
    case False
    then obtain md where "(md, files_of m h) \<in> set (watched m)" using files_of_watched by blast
    with assms show ?thesis by auto
  qed
  then show ?thesis by (simp add: numberable_def)
qed

lemma result_watched:
  assumes "link_inv ut up hash m" "sender_inv ut mmap_Open rs_New marshal s" "map_of (links m) sid = Some sk" "\<not> cut_off sk"
    and "length (goroutines s) \<le> 1" "\<forall>g\<in>set (goroutines s). prefix (rx (origin g)) (wrote sk)" "(task, tr) \<in> set (results s)"
  obtains md bs where "(md, bs) \<in> set (watched m)" "task = task_for md" "file_hash md = hash bs" "bs \<noteq> []"
proof -
  have "task \<in> set (map snd (taken s))" using assms(2,7) by (force simp: sender_inv_def)
  then obtain i where i: "(i, task) \<in> set (taken s)" by auto
  with assms(2) have lt: "i < length (goroutines s)" by (fastforce simp: sender_inv_def)
  then have "prefix (rx (origin (goroutines s ! i))) (wrote sk)" using assms(6) by simp
  then obtain rest where "wrote sk = rx (origin (goroutines s ! i)) @ rest" by (auto simp: prefix_def)
  then have "aligned ut up (tasks_to sid (sent_tasks (orchestrator m))) (rx (origin (goroutines s ! i)) @ rest)"
    using links_okD [OF _ assms(3,4)] assms(1) by (simp add: link_inv_def)
  from sender_tasks_prefix [OF assms(2) lt this] obtain later where
    "tasks_to sid (sent_tasks (orchestrator m)) = taken_from i s @ later" by blast
  moreover have "task \<in> set (taken_from i s)" using i by (force simp: taken_from_def)
  ultimately have "task \<in> set (tasks_to sid (sent_tasks (orchestrator m)))" by simp
  with assms(1) show thesis by (rule assigned_watched) (rule that)
qed

lemma watched_datagram:
  assumes "link_inv ut up hash m" "sender_inv ut mmap_Open rs_New marshal s" "map_of (links m) sid = Some sk" "\<not> cut_off sk"
    and "length (goroutines s) \<le> 1" "\<forall>g\<in>set (goroutines s). prefix (rx (origin g)) (wrote sk)" "(task, tr) \<in> set (results s)"
    and "rs_library rs_New"
    and unchanged: "\<forall>(md, bs)\<in>set (watched m). block_count bs + senders_BlocksJump \<le> 2 ^ 32 \<and>
      (\<forall>mf. OpenFile mmap_Open (file_path md) = Inr mf \<longrightarrow> mapped_file mf bs)"
    and "d \<in> set (attempted (tr_events tr))"
  obtains md bs where "(md, bs) \<in> set (watched m)" "bs \<noteq> []" "group_datagram rs_New marshal (file_hash md) bs d"
proof -
  obtain md bs where md: "(md, bs) \<in> set (watched m)" "task = task_for md" "bs \<noteq> []"
    using result_watched [OF assms(1-7)] by blast
  have "result_ok mmap_Open rs_New marshal (task, tr)" using assms(2,7) by (auto simp: sender_inv_def list_all_iff)
  moreover have "mapped_file mf bs" if "OpenFile mmap_Open (FilePath task) = Inr mf" for mf
    using unchanged md that by (fastforce simp: task_for_def)
  ultimately have "group_datagram rs_New marshal (Task_FileHash task) bs d"
    using unchanged md(1) assms(10) by (intro result_datagrams [OF _ assms(8)]) auto
  with md show thesis by (intro that) (simp_all add: task_for_def)
qed

lemma delivered_accepted:
  assumes "forwarding send good delivered marshal unmarshalBatch" "good q" "delivered q = []"
    and "reachable unmarshal marshal send fwd depth q r"
    and "p \<in> set (delivered_packets unmarshalBatch (delivered (fs_sender (fwd_state r))))"
  obtains d where "d \<in> set (history r)" "p \<in> set (accepts unmarshal d)"
proof -
  have "subseq (delivered_packets unmarshalBatch (delivered (fs_sender (fwd_state r))) @ in_process r)
      (concat (map (accepts unmarshal) (history r)))"
    using forwarding.receiver_inv_reachable [OF assms(1,4,2,3)]
    by (simp add: forwarding.receiver_inv_def [OF assms(1)] in_order_def Let_def)
  from subseq_set [OF this] assms(5) have "p \<in> set (concat (map (accepts unmarshal) (history r)))" by auto
  with that show thesis by auto
qed

text \<open>C1: the files that UniFlow writes are the files that were put into its inbox. Let the watcher queue files, the orchestrator
  hand them out, any number of senders work on them at once, datagrams be lost, repeated, reordered and damaged (as long as
  a damaged one does not pass the checksum), any number of receivers forward what they accept, connections to
  \<open>rs_helper\<close> fail, and stop the whole at any moment. Then every file that the session manager has finished is, byte for byte, one
  that the watcher saw; it is written under its hash, or the disk refused it; and none is written twice. What this takes:
  no send to a sender was cut short, the monitor is its only client, the files do not change after they were watched and have
  fewer than \<open>2 ^ 32 - 8\<close> blocks, and no two of them share their 64-bit hash.\<close>

theorem watched_files_delivered:
  assumes "monitor_codec serialize ping unmarshalTask unmarshalPing" "packet_codec marshal unmarshal" "rs_library rs_New"
    and "incremental_hash sha256_new update digest sha256"
    and "connect_to_senders connect ids = Inr ls" "\<forall>sid sk. connect sid = Inr sk \<longrightarrow> wrote sk = [] \<and> \<not> cut_off sk"
    and "link_reachable serialize ping parse basename (compute_file_hash sha256_new update digest avail) watch_dir
      (start_monitor ids ls) m"
    and senders: "\<forall>sid\<in>Sids. boot_sender resolve dial (target sid) (path sid) fs (w sid) = (Returns (proc0 sid), w' sid) \<and>
      sender_reachable unmarshalTask unmarshalPing marshalHb mmap_Open rs_New marshal (proc0 sid) (proc sid) \<and>
      length (goroutines (proc sid)) \<le> 1 \<and> (\<exists>sk. map_of (links m) sid = Some sk \<and> \<not> cut_off sk \<and>
        (\<forall>g\<in>set (goroutines (proc sid)). prefix (rx (origin g)) (wrote sk)))"
    and unchanged: "\<forall>(md, bs)\<in>set (watched m). block_count bs + senders_BlocksJump \<le> 2 ^ 32 \<and>
      (\<forall>mf. OpenFile mmap_Open (file_path md) = Inr mf \<longrightarrow> mapped_file mf bs)"
    and apart: "\<forall>(md, bs)\<in>set (watched m). \<forall>(md', bs')\<in>set (watched m). file_hash md = file_hash md' \<longrightarrow> bs = bs'"
    and "forwarding send good delivered marshalBatch unmarshalBatch"
    and receivers: "\<forall>j\<in>Rids. good (q j) \<and> delivered (q j) = [] \<and> reachable unmarshal marshalBatch send (fwd j) (depth j) (q j) (rcv j)"
    and network: "\<forall>j\<in>Rids. \<forall>d\<in>set (history (rcv j)). accepts unmarshal d = [] \<or>
      (\<exists>sid\<in>Sids. \<exists>(task, tr)\<in>set (results (proc sid)). d \<in> set (attempted (tr_events tr)))"
    and "sm_reachable sha256 (FromRequest rs_New) output_dir ses"
    and arrived: "\<forall>p\<in>batch_packets ses. \<exists>j\<in>Rids. p \<in> set (delivered_packets unmarshalBatch (delivered (fs_sender (fwd_state (rcv j)))))"
  shows "distinct (map fst (finished ses)) \<and>
    (\<forall>(h, bytes, r)\<in>set (finished ses). (\<exists>md. (md, bytes) \<in> set (watched m) \<and> file_hash md = h) \<and>
      (r = Written (output_path output_dir h) bytes \<or> (\<exists>err. r = OutputError err)))"
proof -
  let ?hash = "compute_file_hash sha256_new update digest avail"
  let ?files = "files_of m"
  have inv: "link_inv unmarshalTask unmarshalPing ?hash m" by (rule link_inv_monitor [OF assms(1,5,6,7)])
  have sent: "sent_packet rs_New marshal unmarshal ?files p" if p: "p \<in> batch_packets ses" for p
  proof -
    from arrived p obtain j where j: "j \<in> Rids" "p \<in> set (delivered_packets unmarshalBatch (delivered (fs_sender (fwd_state (rcv j)))))"
      by blast
    with receivers assms(11) obtain d where d: "d \<in> set (history (rcv j))" "p \<in> set (accepts unmarshal d)"
      by (meson delivered_accepted)
    with network j(1) obtain sid task tr where sid: "sid \<in> Sids" "(task, tr) \<in> set (results (proc sid))" "d \<in> set (attempted (tr_events tr))"
      by fastforce
    from senders sid(1) obtain sk where sk: "map_of (links m) sid = Some sk" "\<not> cut_off sk" "length (goroutines (proc sid)) \<le> 1"
        "\<forall>g\<in>set (goroutines (proc sid)). prefix (rx (origin g)) (wrote sk)" by blast
    have "sender_inv unmarshalTask mmap_Open rs_New marshal (proc sid)"
      using senders sid(1) by (meson sender_inv_reachable boot_inv)
    from watched_datagram [OF inv this sk sid(2) assms(3) unchanged sid(3)] obtain md bs where
      md: "(md, bs) \<in> set (watched m)" "bs \<noteq> []" "group_datagram rs_New marshal (file_hash md) bs d" .
    have "?files (file_hash md) = bs" by (rule files_of_eq [OF md(1,2) apart])
    with md(3) show ?thesis by (intro group_datagram_sent [where h = "file_hash md", OF _ d(2)]) simp
  qed
  have gen: "\<forall>p\<in>batch_packets ses. genuine rs_New ?files p" using sent sent_genuine [OF assms(2,3)] by blast
  have num: "numberable ?files" using unchanged by (intro files_of_numberable) (auto simp: BlocksJump_value)
  note delivered = genuine_delivered [OF assms(14,3) num gen]
  have "(\<exists>md. (md, bytes) \<in> set (watched m) \<and> file_hash md = h) \<and>
      (r = Written (output_path output_dir h) bytes \<or> (\<exists>err. r = OutputError err))" if fin: "(h, bytes, r) \<in> set (finished ses)" for h bytes r
  proof -
    have bytes: "bytes = ?files h" by (rule delivered(2) [OF fin])
    from finished_hashes [OF assms(14) fin] obtain p where "p \<in> batch_packets ses" "FileHash p = h" by (auto simp: hashes_in_def)
    with gen have "0 < block_count (?files h)" by (auto simp: genuine_def)
    then have "?files h \<noteq> []" by (auto simp: block_count_def config_values)
    then obtain md where md: "(md, ?files h) \<in> set (watched m)" "file_hash md = h" using files_of_watched by blast
    with inv have "?hash (?files h) = h" by (auto simp: link_inv_def watched_ok_def)
    then have "compute_reference_hash sha256 (?files h) = h" using incremental_hash.file_hash_reference [OF assms(4)] by metis
    from delivered(3) [OF fin this] md show ?thesis by (auto simp: bytes)
  qed
  with delivered(1) show ?thesis by blast
qed

section \<open>A transfer from end to end\<close>

text \<open>
  The file of three bytes, once through everything: watched and assigned, sent by one sender as 150 datagrams, received and forwarded one by one,
  reconstructed and finished. The session client is replaced by one that records what it is given.
\<close>

definition record_send :: "byte list list \<Rightarrow> byte list \<Rightarrow> (error option \<times> byte list list) option" where
  "record_send sent payload = Some (None, sent @ [payload])"

interpretation recording: forwarding record_send "\<lambda>sent. True" "\<lambda>sent. sent" marshal_batch unmarshal_batch
  by unfold_locales (simp_all add: record_send_def)

lemma marshal_single:
  assumes "fields_size (packet_fields p) \<le> 1395"
  shows "\<exists>bs. marshal_batch \<lparr>ReceiverId = 1, SB_Packets = [p]\<rparr> = Inr bs"
proof -
  have "length (varint (length (put_fields (packet_fields p)))) \<le> 2" "length (varint 18) \<le> 1" "length (varint 8) \<le> 1" "length (varint 1) \<le> 1"
    using assms by (auto simp: fields_size_def intro!: length_varint)
  moreover have "repeated_field 2 [x] = bytes_field 2 x" if "x \<noteq> []" for x
    using that by (simp add: repeated_field_def bytes_field_def)
  ultimately have "length (put_fields (batch_fields \<lparr>ReceiverId = 1, SB_Packets = [p]\<rparr>)) \<le> 1400"
    using assms fields_size_varint [of 1 1 1] fields_size_bytes [of 2 2 "put_fields (packet_fields p)"]
    by (cases "put_fields (packet_fields p) = []")
      (auto simp: batch_fields_def fields_size_def put_fields_def repeated_field_def varint_field_def)
  then show ?thesis by (simp add: marshal_batch_def wire_marshal_def)
qed

abbreviation recorded :: "byte list list receiver \<Rightarrow> bool" where
  "recorded \<equiv> reachable unmarshal_packet marshal_batch record_send (NewForwarder 1 1 100) 4 []"

definition rests :: "'s receiver \<Rightarrow> bool" where
  "rests r \<longleftrightarrow> phase r = Reading \<and> udp_open r \<and> \<not> fwd_returned r \<and> batch r = [] \<and>
     intake r = \<lparr>buf = [], capacity = 4, chan_closed = False\<rparr>"

lemma forward_one:
  assumes "recorded r" "rests r" "accepts unmarshal_packet d = [p]" "marshal_batch \<lparr>ReceiverId = 1, SB_Packets = [p]\<rparr> = Inr bs"
  shows "\<exists>r'. recorded r' \<and> rests r' \<and> history r' = history r @ [d] \<and>
    fs_sender (fwd_state r') = fs_sender (fwd_state r) @ [bs]"
proof -
  let ?step = "rstep unmarshal_packet marshal_batch record_send (NewForwarder 1 1 100)"
  let ?c = "AddReceived (fs_counters (fwd_state r))"
  let ?r1 = "(set_counters ?c r)\<lparr>history := history r @ [d], phase := Holding p\<rparr>"
  have "readLoop_accept unmarshal_packet d (fs_counters (fwd_state r)) = (?c, Some p)"
    using assms(3) by (auto simp: readLoop_accept_eq accepts_def split: if_splits sum.splits)
  then have s1: "?step r ?r1" using assms(2) by (intro rstep.read_keep) (simp_all add: rests_def)
  let ?ch = "\<lparr>buf = [p], capacity = 4, chan_closed = False\<rparr>"
  let ?r2 = "?r1\<lparr>intake := ?ch, phase := Reading\<rparr>"
  have s2: "?step ?r1 ?r2"
    by (rule rstep.offer_queued) (use assms(2) in \<open>simp_all add: rests_def set_counters_def readLoop_offer_def try_send_def\<close>)
  obtain st where run: "Run_select marshal_batch record_send (NewForwarder 1 1 100) IntakeReady (batch ?r2) (intake ?r2) (fwd_state ?r2)
      = Some (False, [], ?ch\<lparr>buf := []\<rparr>, st)" and st: "fs_sender st = fs_sender (fwd_state r) @ [bs]"
    using assms(2,4)
    by (simp add: rests_def set_counters_def chan_recv_def flush_def flushBatch_def NewForwarder_def record_send_def Let_def)
  let ?r3 = "?r2\<lparr>fwd_returned := False, batch := [], intake := ?ch\<lparr>buf := []\<rparr>, fwd_state := st\<rparr>"
  have s3: "?step ?r2 ?r3"
    by (rule rstep.forward [OF _ _ _ run]) (use assms(2) in \<open>simp_all add: rests_def set_counters_def\<close>)
  have "recorded ?r3" using assms(1) s1 s2 s3 by (meson reachable.step)
  moreover have "rests ?r3" "history ?r3 = history r @ [d]" "fs_sender (fwd_state ?r3) = fs_sender (fwd_state r) @ [bs]"
    using assms(2) st by (simp_all add: rests_def set_counters_def)
  ultimately show ?thesis by blast
qed

lemma forward_all:
  assumes "list_all2 (\<lambda>d p. accepts unmarshal_packet d = [p] \<and> fields_size (packet_fields p) \<le> 1395) ds ps"
  shows "\<exists>r. recorded r \<and> history r = ds \<and> delivered_packets unmarshal_batch (fs_sender (fwd_state r)) = ps"
proof -
  have "\<exists>r. recorded r \<and> rests r \<and> history r = ds \<and> delivered_packets unmarshal_batch (fs_sender (fwd_state r)) = ps"
    using assms
  proof (induction ds arbitrary: ps rule: rev_induct)
    case Nil
    have "recorded (main_start 4 [])" by (rule reachable.start)
    with Nil show ?case
      by (intro exI [of _ "main_start 4 []"]) (simp add: rests_def main_start_def)
  next
    case (snoc d ds)
    from snoc.prems obtain qs p where ps: "ps = qs @ [p]" "list_all2 (\<lambda>d p. accepts unmarshal_packet d = [p] \<and>
        fields_size (packet_fields p) \<le> 1395) ds qs" "accepts unmarshal_packet d = [p]" "fields_size (packet_fields p) \<le> 1395"
      by (auto simp: list_all2_append1 list_all2_Cons1)
    from snoc.IH [OF ps(2)] obtain r where r: "recorded r" "rests r" "history r = ds"
        "delivered_packets unmarshal_batch (fs_sender (fwd_state r)) = qs" by blast
    obtain bs where bs: "marshal_batch \<lparr>ReceiverId = 1, SB_Packets = [p]\<rparr> = Inr bs" using marshal_single [OF ps(4)] by blast
    from forward_one [OF r(1,2) ps(3) bs] obtain r' where "recorded r'" "rests r'" "history r' = ds @ [d]"
        "fs_sender (fwd_state r') = fs_sender (fwd_state r) @ [bs]" using r(3) by auto
    with r(4) ps(1) batch_wire.unmarshal_marshal [OF bs] show ?case
      by (intro exI [of _ r']) (simp add: delivered_packets_def)
  qed
  then show ?thesis by blast
qed

definition demo_datagrams :: "byte list list" where
  "demo_datagrams = attempted (send_group marshal_packet (\<lambda>n. None) 7 (totalBlocks_of 3) 3 demo_grp)"

lemma demo_received:
  obtains r where "recorded r" "history r = demo_datagrams" "delivered_packets unmarshal_batch (fs_sender (fwd_state r)) = demo_symbols"
proof -
  have "map (accepts unmarshal_packet) demo_datagrams = map (\<lambda>p. [p]) demo_symbols"
    unfolding demo_datagrams_def demo_symbols_def by (rule send_group_accepted [OF packet_link.packet_codec_axioms demo_grp(3)])
  moreover have "fields_size (packet_fields p) \<le> 1395" if "p \<in> set demo_symbols" for p
  proof -
    from that obtain i b where p: "i < config_NSymbols" "b \<in> set demo_grp" "p = symbol_packet 7 (totalBlocks_of 3) 3 i b"
      by (auto simp: demo_symbols_def group_packets_def)
    moreover from p(1,2) demo_grp(3) have "length (shards b ! i) \<le> config_ShardSize" by (auto simp: block_shaped_def)
    ultimately show ?thesis by (intro packet_size) (simp_all add: symbol_packet_def unat_symbol)
  qed
  ultimately have "list_all2 (\<lambda>d p. accepts unmarshal_packet d = [p] \<and> fields_size (packet_fields p) \<le> 1395) demo_datagrams demo_symbols"
    by (auto simp: list_all2_conv_all_nth list_eq_iff_nth_eq)
  from forward_all [OF this] that show thesis by blast
qed

definition demo_mapped :: "string \<Rightarrow> (ReaderAt \<times> int) res" where
  "demo_mapped path = Inr (mf_reader (mem_file [1, 2, 3]), 3)"

lemma demo_mapped_open: "OpenFile demo_mapped path = Inr (mem_file [1, 2, 3])"
  by (simp add: OpenFile_def demo_mapped_def mem_file_def)

definition demo_result :: task_result where
  "demo_result = \<lparr>tr_groups = [demo_grp],
     tr_events = send_group marshal_packet (\<lambda>n. None) 7 (totalBlocks_of 3) 3 demo_grp, tr_logs = []\<rparr>"

lemma demo_claim_loop:
  "claim_loop ref_New marshal_packet (\<lambda>g n. None) 7 (mem_file [1, 2, 3]) [(None, 0), (None, 1)]
     \<lparr>tr_groups = [], tr_events = [], tr_logs = []\<rparr> = Some demo_result"
proof -
  have size: "Size (mem_file [1, 2, 3]) = 3" by (simp add: Size_def mem_file_def)
  moreover have "totalBlocks_of 3 = 1" using totalBlocks_of_file [OF mem.mapped_file_axioms [of "[1, 2, 3]"]] demo_files_count [of 7]
    unfolding size by (simp add: demo_files_def)
  moreover have "startBlock_of 0 = 0" "startBlock_of 1 = 8" "endBlock_of 0 1 = 1"
    by (simp_all add: startBlock_of_def endBlock_of_def BlocksJump_value)
  ultimately show ?thesis using demo_grp(1) by (simp add: Let_def demo_result_def)
qed

definition demo_done :: "filesystem \<Rightarrow> sender" where
  "demo_done fs = demo_sending\<lparr>counter_files := fs, sphase := Ranging, currentState := IDLE, results := [(task_for demo_md, demo_result)]\<rparr>"

lemma demo_done_reached:
  "\<exists>fs. sender_reachable unmarshal_task unmarshal_ping marshal_heartbeat demo_mapped ref_New marshal_packet demo_sender (demo_done fs)"
proof -
  let ?step = "sender_step unmarshal_task unmarshal_ping marshal_heartbeat demo_mapped ref_New marshal_packet"
  let ?env = "\<lparr>env_MkdirAll = None, env_OpenExcl = None, env_InitWrite = None, env_Open = None, env_Stat = None\<rparr>"
  obtain f fs where f: "InitCounterFile ?env (counter_path (Task_FileHash (task_for demo_md))) (counter_files demo_sending) = (Inr f, fs)"
    by (simp add: InitCounterFile_def Let_def demo_sending_def demo_sender_def)
  let ?t = "demo_sending\<lparr>counter_files := fs, sphase := Transmitting (task_for demo_md) (mem_file [1, 2, 3]), currentState := WORKING\<rparr>"
  have "?step demo_sending ?t" by (rule task_started [OF _ f demo_mapped_open]) (simp add: demo_sending_def)
  moreover have h: "7 = Task_FileHash (task_for demo_md)" by (simp add: task_for_def demo_md_def)
  have "?step ?t (?t\<lparr>results := results ?t @ [(task_for demo_md, demo_result)], sphase := Ranging, currentState := IDLE\<rparr>)"
    by (rule task_finished [OF _ demo_claim_loop [unfolded h]]) simp
  then have "?step ?t (demo_done fs)" by (simp add: demo_done_def demo_sending_def demo_sender_def)
  ultimately show ?thesis using demo_sending_reached by (meson sender_reachable.intros)
qed

theorem watched_files_delivered_witness:
  "\<exists>m ses r. demo_lreach 100 m \<and> sm_reachable (\<lambda>bs. [0, 0, 0, 0, 0, 0, 0, 7]) (FromRequest ref_New) ''out'' ses \<and>
     (7, [1, 2, 3], r) \<in> set (finished ses) \<and> (demo_md, [1, 2, 3]) \<in> set (watched m) \<and>
     (r = Written ''out/7.bin'' [1, 2, 3] \<or> (\<exists>err. r = OutputError err))"
proof -
  let ?sha = "\<lambda>bs :: byte list. [0, 0, 0, 0, 0, 0, 0, 7 :: byte]"
  let ?sk = "demo_sk (100 - length (frame demo_bytes)) (frame demo_bytes)"
  let ?m = "demo_assigned ?sk"
  have reach: "demo_lreach 100 ?m"
  proof -
    have "length (frame demo_bytes) \<le> 100" using demo_bytes_size by (simp add: frame_def)
    then have "demo_lstep (demo_queued 100 At_sync) ?m" by (intro demo_dispatch) (simp add: sendall_def demo_sk_def)
    with demo_queued_reached(1) show ?thesis by (rule moved)
  qed
  have hash: "compute_file_hash [] (@) ?sha (\<lambda>bs. 1) = (\<lambda>bs. 7)"
    by (rule ext) (simp add: compute_file_hash_def)
  have w: "watched ?m = [(demo_md, [1, 2, 3])]" by (simp add: demo_assigned_def demo_queued_def)
  obtain fs where snd: "sender_reachable unmarshal_task unmarshal_ping marshal_heartbeat demo_mapped ref_New marshal_packet demo_sender (demo_done fs)"
    using demo_done_reached by blast
  obtain r where r: "recorded r" "history r = demo_datagrams" "delivered_packets unmarshal_batch (fs_sender (fwd_state r)) = demo_symbols"
    using demo_received .
  obtain ses where ses: "sm_reachable ?sha (FromRequest ref_New) ''out'' ses" "batch_packets ses = set demo_symbols" "7 \<in> fst ` set (finished ses)"
    using demo_finished .
  have senders: "\<forall>sid\<in>{1}. boot_sender (\<lambda>a. Inr ()) (\<lambda>a. Inr ()) ''t'' ''/tmp/u.sock'' Map.empty demo_os = (Returns demo_sender, demo_os) \<and>
      sender_reachable unmarshal_task unmarshal_ping marshal_heartbeat demo_mapped ref_New marshal_packet demo_sender (demo_done fs) \<and>
      length (goroutines (demo_done fs)) \<le> 1 \<and> (\<exists>sk. map_of (links ?m) sid = Some sk \<and> \<not> cut_off sk \<and>
        (\<forall>g\<in>set (goroutines (demo_done fs)). prefix (rx (origin g)) (wrote sk)))"
    using demo_boot snd by (simp add: demo_done_def demo_sending_def demo_assigned_def demo_sk_def demo_input_def)
  have files: "\<forall>(md, bs)\<in>set (watched ?m). block_count bs + senders_BlocksJump \<le> 2 ^ 32 \<and>
      (\<forall>mf. OpenFile demo_mapped (file_path md) = Inr mf \<longrightarrow> mapped_file mf bs)"
    using mem.mapped_file_axioms [of "[1, 2, 3]"] demo_files_count [of 7]
    by (simp add: w demo_mapped_open BlocksJump_value demo_files_def)
  have apart: "\<forall>(md, bs)\<in>set (watched ?m). \<forall>(md', bs')\<in>set (watched ?m). file_hash md = file_hash md' \<longrightarrow> bs = bs'"
    by (simp add: w)
  have net: "\<forall>j\<in>{0 :: nat}. \<forall>d\<in>set (history r). accepts unmarshal_packet d = [] \<or>
      (\<exists>sid\<in>{1 :: sender_id}. \<exists>(task, tr)\<in>set (results (demo_done fs)). d \<in> set (attempted (tr_events tr)))"
    by (simp add: r(2) demo_done_def demo_result_def demo_datagrams_def)
  have rcv: "\<forall>j\<in>{0 :: nat}. True \<and> [] = [] \<and> recorded r" using r(1) by simp
  have arr: "\<forall>p\<in>batch_packets ses. \<exists>j\<in>{0 :: nat}. p \<in> set (delivered_packets unmarshal_batch (fs_sender (fwd_state r)))"
    by (simp add: r(3) ses(2))
  note all = watched_files_delivered [OF wire_monitor.monitor_codec_axioms packet_link.packet_codec_axioms reference.rs_library_axioms
      collecting.incremental_hash_axioms [of ?sha] demo_connect demo_new reach [folded hash] senders files apart
      recording.forwarding_axioms rcv net ses(1) arr]
  obtain bytes res where fin: "(7, bytes, res) \<in> set (finished ses)" using ses(3) by auto
  with all have "\<exists>md. (md, bytes) \<in> set (watched ?m) \<and> file_hash md = 7" "res = Written (output_path ''out'' 7) bytes \<or> (\<exists>err. res = OutputError err)"
    by blast+
  moreover have "output_path ''out'' 7 = ''out/7.bin''" by code_simp
  ultimately have "bytes = [1, 2, 3]" "res = Written ''out/7.bin'' [1, 2, 3] \<or> (\<exists>err. res = OutputError err)" by (auto simp: w)
  with fin reach ses(1) w show ?thesis by (intro exI [of _ ?m] exI [of _ ses] exI [of _ res]) simp
qed

end
