(* ===== verification/Monitor_Faults.thy ===== *)
theory Monitor_Faults
  imports Monitor_Link
begin

text \<open>
  The links between monitor and senders when something goes wrong, and when nothing does: heartbeats that come back, a
  heartbeat that arrives in two pieces, a task that does not fit into the socket's buffer, and a sender that has ended.
\<close>

section \<open>Heartbeats\<close>

lemma recv_available: "0 < n \<Longrightarrow> inbox sk = bs @ rest \<Longrightarrow> length bs = n \<Longrightarrow> recv n sk = (Inr bs, sk\<lparr>inbox := rest\<rparr>)"
  by (auto simp: recv_def)

lemma handle_read_frame:
  assumes "inbox sk = frame p @ rest" "length p < 2 ^ 32" "parse p = Inr n"
  shows "handle_read parse sk = (Inr (Some (if n = 1 then WORKING else IDLE)), sk\<lparr>inbox := rest\<rparr>)"
proof -
  let ?h = "BigEndian_PutUint32 (of_nat (length p))"
  have "recv 4 sk = (Inr ?h, sk\<lparr>inbox := p @ rest\<rparr>)" using assms(1) by (intro recv_available) (simp_all add: frame_def)
  moreover have "recv (length p) (sk\<lparr>inbox := p @ rest\<rparr>) = (Inr p, sk\<lparr>inbox := rest\<rparr>)"
    by (cases "p = []") (simp_all add: recv_def)
  moreover have "?h \<noteq> []" "length ?h = 4" by (simp_all flip: length_greater_0_conv)
  ultimately show ?thesis using assms(2,3) by (simp add: handle_read_def frame_length)
qed

text \<open>Reading the heartbeats one by one, as the polls of the loop do.\<close>

lemma read_heartbeats:
  assumes "\<And>st. length (hb st) < 2 ^ 32" "\<And>st. parse (hb st) = Inr (state_number st)"
  shows "map_of (links m) sid = Some sk \<Longrightarrow> inbox sk = concat (map (\<lambda>st. frame (hb st)) sts) @ rest \<Longrightarrow> crashed m = None \<Longrightarrow>
    crashed ((read_link parse sid ^^ length sts) m) = None \<and>
    (\<exists>sk'. map_of (links ((read_link parse sid ^^ length sts) m)) sid = Some sk' \<and> inbox sk' = rest) \<and>
    (sts \<noteq> [] \<longrightarrow> map_of (sender_states (orchestrator ((read_link parse sid ^^ length sts) m))) sid = Some (last sts))"
proof (induction sts arbitrary: m sk)
  case (Cons st sts)
  let ?r = "read_link parse sid"
  let ?sk = "sk\<lparr>inbox := concat (map (\<lambda>st. frame (hb st)) sts) @ rest\<rparr>"
  have "handle_read parse sk = (Inr (Some (if state_number st = 1 then WORKING else IDLE)), ?sk)"
    by (rule handle_read_frame) (use Cons.prems(2) assms in simp_all)
  then have one: "?r m = m\<lparr>links := AList.update sid ?sk (links m), orchestrator := handle_heartbeat sid st (orchestrator m)\<rparr>"
    using Cons.prems(1) by (cases st) (simp_all add: read_link_def state_number_def)
  then have m1: "map_of (links (?r m)) sid = Some ?sk" "crashed (?r m) = None"
    "map_of (sender_states (orchestrator (?r m))) sid = Some st"
    using Cons.prems(3) by (simp_all add: map_of_update handle_heartbeat_def)
  from Cons.IH [OF m1(1) _ m1(2)] m1(3) show ?case by (cases "sts = []") (simp_all add: funpow_Suc_right del: funpow.simps)
qed auto

text \<open>C34: pings come back as heartbeats. The monitor sends tasks and pings in any order; the sender serves them; the monitor reads
  what it wrote. After \<open>n\<close> readable polls, no more than there were pings, nothing has been raised, the
  orchestrator has the state that the sender gave in its \<open>n\<close>-th answer, and the answers after that are still there to
  be read. The tasks have arrived in the order sent and nothing is logged.\<close>

theorem pings_come_back:
  assumes "list_all2 (carries unmarshalTask unmarshalPing) ms ps"
    and "\<And>st. marshalHb \<lparr>State = st\<rparr> = Inr (hb st)" "\<And>st. length (hb st) < 2 ^ 32" "\<And>st. parse (hb st) = Inr (state_number st)"
    and "rx c = concat (map frame ps)" "rx_end c = EOF" "tx_fault c = None" "tx c = []"
    and "serveConn unmarshalTask unmarshalPing marshalHb getState c \<lparr>taskChan = [], ipc_logs = [], polls = 0\<rparr> = (c', out)"
    and "map_of (links m) sid = Some sk" "inbox sk = tx c'" "crashed m = None" "n \<le> polls_of ms"
  shows "taskChan out = tasks_of ms \<and> ipc_logs out = [] \<and> crashed ((read_link parse sid ^^ n) m) = None \<and>
    (\<exists>sk'. map_of (links ((read_link parse sid ^^ n) m)) sid = Some sk' \<and>
      inbox sk' = concat (map (\<lambda>j. frame (hb (getState j))) [n..<polls_of ms])) \<and>
    (0 < n \<longrightarrow> map_of (sender_states (orchestrator ((read_link parse sid ^^ n) m))) sid = Some (getState (n - 1)))"
proof -
  have served: "tx c' = concat (map (\<lambda>j. frame (hb (getState j))) [0..<polls_of ms])" "taskChan out = tasks_of ms" "ipc_logs out = []"
    using serveConn_serves [where hb = hb and mh = marshalHb and gs = getState, OF assms(1,2,5,6,7)] assms(8,9)
    by (auto simp: replies_def)
  let ?sts = "map getState [0..<n]"
  have "[0..<polls_of ms] = [0..<n] @ [n..<polls_of ms]" using assms(13) upt_add_eq_append [of 0 n "polls_of ms - n"] by simp
  then have "inbox sk = concat (map (\<lambda>st. frame (hb st)) ?sts) @ concat (map (\<lambda>j. frame (hb (getState j))) [n..<polls_of ms])"
    by (simp add: assms(11) served(1) comp_def)
  from read_heartbeats [where hb = hb and parse = parse, OF assms(3,4,10) this assms(12)] served show ?thesis by (auto simp: last_map)
qed

text \<open>A heartbeat whose payload comes after its header: the header is read and forgotten, and the payload, of fewer than four
  bytes like every heartbeat of this program, is then taken for a header, which raises.\<close>

lemma split_heartbeat:
  assumes "inbox sk = take 4 (frame p)" "peer sk = Peer_open" "0 < length p" "length p < 4"
  shows "\<exists>sk'. handle_read parse sk = (Inr None, sk') \<and> inbox sk' = [] \<and>
    (\<exists>sk''. handle_read parse (sk'\<lparr>inbox := p\<rparr>) = (Inl StructError, sk''))"
proof -
  let ?h = "BigEndian_PutUint32 (of_nat (length p))"
  have h: "take 4 (frame p) = ?h" "?h \<noteq> []" "length ?h = 4" by (simp_all add: frame_def flip: length_greater_0_conv)
  have "recv 4 sk = (Inr ?h, sk\<lparr>inbox := []\<rparr>)" using assms(1) h by (intro recv_available) simp_all
  moreover have "recv (length p) (sk\<lparr>inbox := []\<rparr>) = (Inl BlockingIOError, sk\<lparr>inbox := []\<rparr>)"
    using assms(2,3) by (simp add: recv_def)
  moreover have "length p < 2 ^ 32" using assms(4) by simp
  ultimately have "handle_read parse sk = (Inr None, sk\<lparr>inbox := []\<rparr>)" using h
    by (simp add: handle_read_def frame_length caught_def)
  moreover have "handle_read parse (sk\<lparr>inbox := [], inbox := p\<rparr>) = (Inl StructError, sk\<lparr>inbox := []\<rparr>)"
    using assms(3,4) by (auto simp: handle_read_def recv_def)
  ultimately show ?thesis by (intro exI [of _ "sk\<lparr>inbox := []\<rparr>"]) auto
qed

section \<open>A task that does not fit\<close>

lemma readFramed_partial:
  assumes "rx c = take n (frame p)" "length p < 2 ^ 32" "n < length (frame p)"
  shows "\<exists>err. readFramed c = Inl err"
proof (rule ccontr)
  assume "\<not> ?thesis"
  then obtain q d where "readFramed c = Inr (q, d)" by (cases "readFramed c") auto
  then obtain h e where h: "ReadFull 4 c = Inr (h, e)" and q: "ReadFull (unat (BigEndian_Uint32 h)) e = Inr (q, d)"
    by (auto simp: readFramed_def split: sum.splits)
  from ReadFull_Inr [OF h] ReadFull_Inr [OF q] have parts: "rx c = h @ q @ rx d" "length h = 4" "length q = unat (BigEndian_Uint32 h)"
    by auto
  then have len: "4 + length q \<le> length (rx c)" by simp
  then have n: "4 \<le> n" using assms(1) by simp
  have "take 4 (rx c) = take 4 (frame p)" unfolding assms(1) using n by (simp add: min_absorb1)
  also have "\<dots> = BigEndian_PutUint32 (of_nat (length p))" by (simp add: frame_def)
  finally have "h = BigEndian_PutUint32 (of_nat (length p))" using parts(1,2) by simp
  then have "length q = length p" using parts(3) frame_length [OF assms(2)] by simp
  moreover have "length (rx c) \<le> n" using assms(1) by simp
  moreover have "length (frame p) = 4 + length p" by (simp add: frame_def)
  ultimately show False using len assms(3) by linarith
qed

text \<open>A frame of which only a part was written adds no task.\<close>

lemma aligned_partial:
  assumes "aligned ut up ts bs" "length p < 2 ^ 32" "n < length (frame p)" "rx c = bs @ take n (frame p)"
  shows "stream_tasks ut c = ts"
proof -
  from assms(1) obtain ms ps where ms: "list_all2 (carries ut up) ms ps" "bs = concat (map frame ps)" "tasks_of ms = ts"
    unfolding aligned_def by blast
  have "rx c = concat (map frame ps) @ take n (frame p) \<Longrightarrow> stream_tasks ut c = tasks_of ms" for c
    using ms(1)
  proof (induction ms ps arbitrary: c rule: list_all2_induct)
    case Nil
    then have "rx c = take n (frame p)" by simp
    from readFramed_partial [OF this assms(2,3)] show ?case by (auto simp: stream_tasks.simps [of ut c])
  next
    case (Cons m ms q qs)
    from Cons.hyps have "length q < 2 ^ 32" by (cases m) auto
    with Cons.prems have "readFramed c = Inr (q, c\<lparr>rx := concat (map frame qs) @ take n (frame p)\<rparr>)"
      by (simp add: readFramed_frame read_frame_frame)
    with Cons.IH [of "c\<lparr>rx := concat (map frame qs) @ take n (frame p)\<rparr>"] Cons.hyps show ?case
      by (cases m) (auto simp: stream_tasks.simps [of ut c] task_of_def split: sum.splits)
  qed
  with assms(4) ms show ?thesis by simp
qed

lemma send_task_cut:
  assumes "serialize (task_for md) = Inr p" "length p < 2 ^ 32" "map_of ls sid = Some sk"
    and "peer sk = Peer_open" "room sk < length (frame p)"
  shows "send_task serialize sid (file_path md) (file_hash md) ls =
    (None, AList.update sid (sk\<lparr>wrote := wrote sk @ take (room sk) (frame p), room := 0, cut_off := True\<rparr>) ls)"
  using assms by (simp add: send_task_def send_framed_def sendall_def Let_def task_for_def frame_def)


section \<open>A sender that has ended\<close>

lemma send_framed_other:
  "send_framed sid' p ls = (e, ls') \<Longrightarrow> sid \<noteq> sid' \<Longrightarrow> map_of ls' sid = map_of ls sid"
  by (auto simp: send_framed_def Let_def map_of_update split: if_splits option.splits prod.splits)

lemma ping_each_dead:
  "sid \<in> set sids \<Longrightarrow> map_of ls sid = Some sk \<Longrightarrow> peer sk \<noteq> Peer_open \<Longrightarrow> fst (ping_each ping sids ls) \<noteq> None"
proof (induction sids arbitrary: ls)
  case (Cons x sids)
  show ?case
  proof (cases "x = sid")
    case True
    with Cons.prems have "fst (send_framed x ping ls) \<noteq> None"
      by (auto simp: send_framed_def sendall_def Let_def split: peer_end.splits)
    then show ?thesis by (auto split: prod.split option.split)
  next
    case False
    with Cons send_framed_other [of x ping ls] show ?thesis by (fastforce split: prod.split option.split)
  qed
qed simp

text \<open>After an exception has left the loop, no task is assigned and nothing is written any more.\<close>

lemma crashed_stays:
  "link_step serialize ping parse basename hash watch_dir m m' \<Longrightarrow> crashed m \<noteq> None \<Longrightarrow>
   crashed m' = crashed m \<and> sent_tasks (orchestrator m') = sent_tasks (orchestrator m)"
  by (induction rule: link_step.induct) simp_all

lemma crashed_forever:
  "link_reachable serialize ping parse basename hash watch_dir m m' \<Longrightarrow> crashed m \<noteq> None \<Longrightarrow>
   crashed m' = crashed m \<and> sent_tasks (orchestrator m') = sent_tasks (orchestrator m)"
  by (induction rule: link_reachable.induct) (use crashed_stays in fastforce)+

text \<open>C33: one file that can not be opened stops the whole transmitting side. The sender that takes its task ends with
  \<open>log.Fatalf\<close>, which closes its end of the link, in one way or the other. The monitor's next ping then raises, whatever the
  state of the other links; the exception is not caught, and from then on no task is assigned to any sender.\<close>

theorem unreadable_file_stops_all:
  assumes "sphase s = Preparing task" "InitCounterFile env (counter_path (Task_FileHash task)) (counter_files s) = (Inr f, fs')"
    and "OpenFile mmap_Open (FilePath task) = Inl err"
    and "crashed m = None" "run_pc m = At_ping" "map_of (links m) sid = Some sk" "peer sk = Peer_open" "p \<noteq> Peer_open"
  shows "\<exists>s' m1 m2. sender_step unmarshalTask unmarshalPing marshalHb mmap_Open rs_New marshal s s' \<and> \<not> running s' \<and>
    link_step serialize ping parse basename hash watch_dir m m1 \<and> map_option peer (map_of (links m1) sid) = Some p \<and>
    link_step serialize ping parse basename hash watch_dir m1 m2 \<and> crashed m2 \<noteq> None \<and>
    (\<forall>m3. link_reachable serialize ping parse basename hash watch_dir m2 m3 \<longrightarrow>
      sent_tasks (orchestrator m3) = sent_tasks (orchestrator m))"
proof -
  define s' where "s' = s\<lparr>counter_files := fs', sphase := Exited task err\<rparr>"
  have "sender_step unmarshalTask unmarshalPing marshalHb mmap_Open rs_New marshal s s'" "\<not> running s'"
    unfolding s'_def by (rule open_fatal [OF assms(1-3)]) (simp add: running_def)
  moreover
  define m1 where "m1 = m\<lparr>links := AList.update sid (sk\<lparr>peer := p\<rparr>) (links m)\<rparr>"
  have "link_step serialize ping parse basename hash watch_dir m m1"
    unfolding m1_def by (rule peer_moves [OF assms(6) hangs_up [OF assms(7,8)]])
  moreover obtain e ls where e: "ping_all ping (links m1) = (e, ls)" by fastforce
  define m2 where "m2 = m1\<lparr>links := ls, crashed := e, run_pc := At_sync\<rparr>"
  have "link_step serialize ping parse basename hash watch_dir m1 m2"
    unfolding m2_def using assms(4,5) e by (intro pinged) (simp_all add: m1_def)
  moreover have dead: "map_of (links m1) sid = Some (sk\<lparr>peer := p\<rparr>)" by (simp add: m1_def map_of_update)
  then have "sid \<in> set (map fst (links m1))" by (force dest: map_of_SomeD)
  from ping_each_dead [OF this dead, of ping] e assms(8) have crash: "crashed m2 \<noteq> None" by (auto simp: ping_all_def m2_def)
  moreover have "sent_tasks (orchestrator m3) = sent_tasks (orchestrator m)"
    if "link_reachable serialize ping parse basename hash watch_dir m2 m3" for m3
    using crashed_forever [OF that crash] by (simp add: m2_def m1_def)
  ultimately show ?thesis using dead by (intro exI [of _ s'] exI [of _ m1] exI [of _ m2]) simp
qed

section \<open>Runs\<close>

definition parse_state :: "byte list \<Rightarrow> nat res" where
  "parse_state = wire_unmarshal (\<lambda>fs. Some (scan_varint 1 0 fs))"

definition wire_hb :: "SenderState \<Rightarrow> byte list" where
  "wire_hb st = put_fields (varint_field 1 (state_number st))"

lemma wire_hb_codec:
  "marshal_heartbeat \<lparr>State = st\<rparr> = Inr (wire_hb st)" "length (wire_hb st) < 2 ^ 32" "parse_state (wire_hb st) = Inr (state_number st)"
proof -
  have len: "length (wire_hb st) < 2 ^ 31"
    by (cases st) (simp_all add: wire_hb_def put_fields_def varint_field_def state_number_def varint.simps)
  then show "marshal_heartbeat \<lparr>State = st\<rparr> = Inr (wire_hb st)" "length (wire_hb st) < 2 ^ 32"
    by (simp_all add: marshal_heartbeat_def wire_marshal_def wire_hb_def)
  show "parse_state (wire_hb st) = Inr (state_number st)"
    by (simp add: parse_state_def wire_unmarshal_def wire_hb_def scan_simps)
qed

theorem pings_come_back_witness:
  "\<exists>c' out m. serveConn unmarshal_task unmarshal_ping marshal_heartbeat (\<lambda>n. if n = 0 then IDLE else WORKING)
       (demo_input [[], demo_bytes, []]) \<lparr>taskChan = [], ipc_logs = [], polls = 0\<rparr> = (c', out) \<and>
     taskChan out = [task_for demo_md] \<and> map_option inbox (map_of (links m) 1) = Some (tx c') \<and>
     map_of (sender_states (orchestrator ((read_link parse_state 1 ^^ 2) m))) 1 = Some WORKING"
proof -
  let ?gs = "\<lambda>n :: nat. if n = 0 then IDLE else WORKING"
  have carry: "list_all2 (carries unmarshal_task unmarshal_ping) [Poll, Assign (task_for demo_md), Poll] [[], demo_bytes, []]"
    using demo_bytes_size task_wire.unmarshal_marshal [OF demo_marshal_task] by (simp add: wire_empty task_for_def demo_md_def)
  obtain c' out where run: "serveConn unmarshal_task unmarshal_ping marshal_heartbeat ?gs
      (demo_input [[], demo_bytes, []]) \<lparr>taskChan = [], ipc_logs = [], polls = 0\<rparr> = (c', out)" by fastforce
  let ?m = "start_monitor [1] [(1, (demo_sk 0 [])\<lparr>inbox := tx c'\<rparr>)]"
  have "taskChan out = tasks_of [Poll, Assign (task_for demo_md), Poll]"
    "map_of (sender_states (orchestrator ((read_link parse_state 1 ^^ 2) ?m))) 1 = Some (?gs (2 - 1))"
    using pings_come_back [where hb = wire_hb and parse = parse_state and n = 2 and m = ?m and sid = 1,
        OF carry wire_hb_codec _ _ _ _ run]
    by (simp_all add: demo_input_def start_monitor_def)
  with run show ?thesis by (intro exI [of _ c'] exI [of _ out] exI [of _ ?m]) (simp add: start_monitor_def)
qed


theorem unreadable_file_stops_all_witness:
  "\<exists>s' m1 m2. sender_step unmarshal_task unmarshal_ping marshal_heartbeat (\<lambda>p. Inl EOF) ref_New marshal_packet demo_sending s' \<and>
     \<not> running s' \<and> demo_lreach 100 (demo_queued 100 At_ping) \<and> demo_lstep (demo_queued 100 At_ping) m1 \<and> demo_lstep m1 m2 \<and>
     crashed m2 \<noteq> None"
proof -
  let ?env = "\<lparr>env_MkdirAll = None, env_OpenExcl = None, env_InitWrite = None, env_Open = None, env_Stat = None\<rparr>"
  let ?m = "demo_queued 100 At_ping"
  obtain f fs where f: "InitCounterFile ?env (counter_path (Task_FileHash (task_for demo_md))) (counter_files demo_sending) = (Inr f, fs)"
    by (simp add: InitCounterFile_def Let_def demo_sending_def demo_sender_def)
  obtain err where s: "sphase demo_sending = Preparing (task_for demo_md)"
      "OpenFile (\<lambda>p. Inl EOF) (FilePath (task_for demo_md)) = Inl err"
    by (simp add: demo_sending_def OpenFile_def)
  have m: "crashed ?m = None" "run_pc ?m = At_ping" "map_of (links ?m) 1 = Some (demo_sk 100 [])" "peer (demo_sk 100 []) = Peer_open"
    by (simp_all add: demo_queued_def start_monitor_def demo_sk_def)
  have "Peer_closed \<noteq> Peer_open" by simp
  from unreadable_file_stops_all [OF s(1) f s(2) m this] demo_queued_reached(2) [of 100] show ?thesis by blast
qed

end
