(* ===== verification/Receiver_Boot.thy ===== *)
theory Receiver_Boot
  imports Receiver
begin

text \<open>
  The start of the receiver, \<open>receivers/cmd/main.go\<close>: the values of the command-line flags, what becomes of them, and
  \<open>statsLoop\<close>. A flag value that \<open>make\<close> or \<open>time.NewTicker\<close> does not accept is not checked by the program and makes it
  panic. Lemmas: when the receiver comes up, and with what. Command-line syntax itself is the library's.
\<close>

section \<open>Flags\<close>

text \<open>Durations in nanoseconds.\<close>

record receiver_flags =
  listenAddr :: string
  receiver_id :: uint64
  sessionSocket :: string
  batch_size :: int
  flush_interval :: int
  queueDepth :: int
  statsInterval :: int

definition default_flags :: receiver_flags where
  "default_flags = \<lparr>listenAddr = '':1400'', receiver_id = 1, sessionSocket = ''/tmp/uniflow_session.sock'', batch_size = 30,
     flush_interval = 100 * 1000000, queueDepth = 1024, statsInterval = 30 * 1000000000\<rparr>"

definition udpReadBuffer :: int where
  "udpReadBuffer = 8 * 2 ^ 20"

section \<open>Starting\<close>

text \<open>
  The goroutines that \<open>main\<close> starts make their tickers and the batch first of all. Whichever panics first ends the process;
  the list holds the panics that are possible.
\<close>

definition ticker_panic :: "int \<Rightarrow> string list" where
  "ticker_panic d = (if d \<le> 0 then [''non-positive interval for NewTicker''] else [])"

definition Run_panics :: "Forwarder \<Rightarrow> string list" where
  "Run_panics fwd =
     (if flushInterval fwd \<le> 0 then ticker_panic (flushInterval fwd)
      else if batchSize fwd < 0 then [''makeslice: cap out of range'']
      else [])"

text \<open>\<open>statsLoop\<close>: a line for each tick, from the counters as they are then.\<close>

definition statsLoop :: "int \<Rightarrow> Counters list \<Rightarrow> string list + string list" where
  "statsLoop interval counters =
     (if ticker_panic interval \<noteq> [] then Inl (ticker_panic interval)
      else Inr (map (\<lambda>c. Sprintf ''receiver: %s'' [S (Snapshot c)]) counters))"

datatype 's boot_result =
    BootFatal error
  | BootPanics "string list"
  | BootUp Forwarder "'s receiver" "error list"

text \<open>\<open>NewClient\<close> is the function that makes the batch sender; the last component of \<open>BootUp\<close> is what was only logged.\<close>

definition start_receiver ::
  "(string \<Rightarrow> 'a res) \<Rightarrow> ('a \<Rightarrow> 'c res) \<Rightarrow> ('c \<Rightarrow> int \<Rightarrow> error option) \<Rightarrow> (string \<Rightarrow> 's) \<Rightarrow> receiver_flags \<Rightarrow>
   's boot_result" where
  "start_receiver resolve listen set_buffer new_client fl =
     (case resolve (listenAddr fl) of
        Inl err \<Rightarrow> BootFatal (Wrap ''receiver: resolve %s'' [S (listenAddr fl)] err)
      | Inr udpAddr \<Rightarrow>
          (case listen udpAddr of
             Inl err \<Rightarrow> BootFatal (Wrap ''receiver: listen %s'' [S (listenAddr fl)] err)
           | Inr udpConn \<Rightarrow>
               (let logged = (case set_buffer udpConn udpReadBuffer of
                        None \<Rightarrow> []
                      | Some err \<Rightarrow> [Wrap ''receiver: set read buffer'' [] err])
                in if queueDepth fl < 0 then BootPanics [''makechan: size out of range'']
                   else
                     (let r = main_start (nat (queueDepth fl)) (new_client (sessionSocket fl));
                          fwd = NewForwarder (ucast (receiver_id fl)) (batch_size fl) (flush_interval fl);
                          panics = Run_panics fwd @ (case statsLoop (statsInterval fl) [] of Inl ps \<Rightarrow> ps | Inr ls \<Rightarrow> [])
                      in if panics \<noteq> [] then BootPanics panics else BootUp fwd r logged))))"

section \<open>When it comes up\<close>

lemma Run_panics_Nil: "Run_panics fwd = [] \<longleftrightarrow> 0 < flushInterval fwd \<and> 0 \<le> batchSize fwd"
  by (auto simp: Run_panics_def ticker_panic_def)

lemma NewForwarder_fields [simp]:
  "flushInterval (NewForwarder i b d) = d" "batchSize (NewForwarder i b d) = b" "receiverID (NewForwarder i b d) = i"
  by (simp_all add: NewForwarder_def)

text \<open>The receiver comes up exactly when the address can be resolved and listened on and the flags are ones the runtime accepts:
  a queue depth and a batch size that are not negative and intervals that are positive. It then has an empty queue of the depth given and a
  forwarder with the values given, except that the receiver identity is cut to its low 32 bits. Failing to set the size
  of the socket buffer does not stop it. Any other flag value makes the process panic instead of being reported.\<close>

lemma receiver_boots:
  "start_receiver resolve listen set_buffer new_client fl = BootUp fwd r logged \<longleftrightarrow>
   (\<exists>udpAddr udpConn. resolve (listenAddr fl) = Inr udpAddr \<and> listen udpAddr = Inr udpConn \<and>
      logged = (case set_buffer udpConn udpReadBuffer of None \<Rightarrow> [] | Some err \<Rightarrow> [Wrap ''receiver: set read buffer'' [] err])) \<and>
   0 \<le> queueDepth fl \<and> 0 \<le> batch_size fl \<and> 0 < flush_interval fl \<and> 0 < statsInterval fl \<and>
   fwd = \<lparr>receiverID = of_int (uint (receiver_id fl) mod 2 ^ 32), batchSize = batch_size fl, flushInterval = flush_interval fl\<rparr> \<and>
   r = main_start (nat (queueDepth fl)) (new_client (sessionSocket fl))"
proof -
  have id: "(ucast (receiver_id fl) :: uint32) = of_int (uint (receiver_id fl) mod 2 ^ 32)"
    by (simp add: word_uint_eq_iff unsigned_ucast_eq take_bit_eq_mod uint_word_of_int)
  show ?thesis
    by (auto simp: start_receiver_def Let_def Run_panics_Nil statsLoop_def ticker_panic_def NewForwarder_def id
        split: sum.split if_splits)
qed

text \<open>With a batch size of zero the forwarder flushes after every packet, as with one.\<close>

lemma batch_size_zero:
  assumes "batchSize fwd \<le> 1" "chan_recv ch = Some (Some packet, ch')"
  shows "Run_select marshal send fwd IntakeReady [] ch st =
    map_option (\<lambda>st. (False, [], ch', st)) (flushBatch marshal send fwd [packet] st)"
  using assms by (simp add: flush_def option.map_comp comp_def)

text \<open>The default flags are accepted.\<close>

lemma default_flags_boot:
  "start_receiver (\<lambda>a. Inr a) (\<lambda>a. Inr ()) (\<lambda>c n. None) new_client default_flags =
   BootUp (NewForwarder 1 30 100000000) (main_start 1024 (new_client ''/tmp/uniflow_session.sock'')) []"
  by (simp add: start_receiver_def default_flags_def Run_panics_def statsLoop_def ticker_panic_def Let_def)

end
