(* ===== verification/Helper_Process.thy ===== *)
theory Helper_Process
  imports Rs_Helper Unix_Socket
begin

text \<open>
  \<open>rs_helper\<close> as a process, \<open>session-manager/rs_helper/cmd/rs_helper/main.go\<close>: \<open>main\<close>, the accept loop \<open>serve\<close>, and the
  goroutines of \<open>handleConnection\<close>, one per connection, which run concurrently and stop in the middle of what they do when
  \<open>main\<close> returns. Lemmas: a connection is served as if it were the only one, and an error of \<open>Accept\<close> ends the process.
\<close>

section \<open>One request\<close>

text \<open>One round of the loop of \<open>handleConnection\<close>: it goes on or returns.\<close>

datatype answer = Leaves conn "helper_log list" | Answers conn "helper_log list"

definition answer_round ::
  "(int \<Rightarrow> int \<Rightarrow> Codec res) \<Rightarrow> (byte list \<Rightarrow> ReconstructRequest res) \<Rightarrow> (ReconstructResponse \<Rightarrow> byte list res) \<Rightarrow>
   conn \<Rightarrow> helper_log list \<Rightarrow> answer" where
  "answer_round rs_New unmarshal marshal c logs =
     (case readRequest unmarshal c of
        Inl err \<Rightarrow> Leaves c (if err \<noteq> EOF then logs @ [ReadError err] else logs)
      | Inr (req, c1) \<Rightarrow>
          (let resp = FromRequest rs_New req;
               logs = (if \<not> Resp_Ok resp then
                   logs @ [ReconstructionFailed (Req_FileHash req) (Req_BlockId req) (Resp_Error resp)]
                 else logs)
           in case writeResponse marshal c1 resp of
                (Some err, c2) \<Rightarrow> Leaves c2 (logs @ [WriteError err])
              | (None, c2) \<Rightarrow> Answers c2 logs))"

lemma handleConnection_rounds:
  "handleConnection rs_New unmarshal marshal c logs =
     (case answer_round rs_New unmarshal marshal c logs of
        Leaves c logs \<Rightarrow> (c, logs)
      | Answers c logs \<Rightarrow> handleConnection rs_New unmarshal marshal c logs)"
  by (subst handleConnection.simps) (simp add: answer_round_def Let_def split: sum.split prod.split option.split)

section \<open>The process\<close>

text \<open>\<open>accepted_as\<close> is the connection as it was accepted; the program does not keep it.\<close>

record helper_conn =
  accepted_as :: conn
  served :: conn
  conn_logs :: "helper_log list"
  left :: bool

record helper =
  helper_conns :: "helper_conn list"
  serving :: bool
  helper_os :: os

definition helper_main :: "string \<Rightarrow> os \<Rightarrow> helper started \<times> os" where
  "helper_main sockPath w =
     (case os_Remove sockPath w of
        (e, w) \<Rightarrow>
          if e \<noteq> None \<and> e \<noteq> Some ErrNotExist then
            (Exits (Wrap ''rs_helper: failed to remove old socket file'' [] (the e)), w)
          else
            (case net_Listen sockPath w of
               (Inl err, w) \<Rightarrow> (Exits (Wrap ''rs_helper: failed to listen on %s'' [S sockPath] err), w)
             | (Inr listener, w) \<Rightarrow> (Returns \<lparr>helper_conns = [], serving = True, helper_os = w\<rparr>, w)))"

definition after_answer :: "nat \<Rightarrow> answer \<Rightarrow> helper \<Rightarrow> helper" where
  "after_answer i a h =
     h\<lparr>helper_conns := (helper_conns h)[i :=
         (case a of
            Leaves c logs \<Rightarrow> (helper_conns h ! i)\<lparr>served := c, conn_logs := logs, left := True\<rparr>
          | Answers c logs \<Rightarrow> (helper_conns h ! i)\<lparr>served := c, conn_logs := logs\<rparr>)]\<rparr>"

text \<open>The accept loop returns on the first error; then \<open>main\<close> removes the socket file and the process ends.\<close>

inductive helper_step ::
  "(int \<Rightarrow> int \<Rightarrow> Codec res) \<Rightarrow> (byte list \<Rightarrow> ReconstructRequest res) \<Rightarrow> (ReconstructResponse \<Rightarrow> byte list res) \<Rightarrow>
   string \<Rightarrow> helper \<Rightarrow> helper \<Rightarrow> bool"
  for rs_New unmarshal marshal sockPath where
  serve_accepts: "serving h \<Longrightarrow>
    helper_step rs_New unmarshal marshal sockPath h
      (h\<lparr>helper_conns := helper_conns h @ [\<lparr>accepted_as = c, served = c, conn_logs = [], left = False\<rparr>]\<rparr>)"
| serve_returns: "serving h \<Longrightarrow>
    helper_step rs_New unmarshal marshal sockPath h
      (h\<lparr>serving := False, helper_os := snd (os_Remove sockPath (helper_os h))\<rparr>)"
| conn_answered: "serving h \<Longrightarrow> i < length (helper_conns h) \<Longrightarrow> \<not> left (helper_conns h ! i) \<Longrightarrow>
    answer_round rs_New unmarshal marshal (served (helper_conns h ! i)) (conn_logs (helper_conns h ! i)) = a \<Longrightarrow>
    helper_step rs_New unmarshal marshal sockPath h (after_answer i a h)"

inductive helper_reachable ::
  "(int \<Rightarrow> int \<Rightarrow> Codec res) \<Rightarrow> (byte list \<Rightarrow> ReconstructRequest res) \<Rightarrow> (ReconstructResponse \<Rightarrow> byte list res) \<Rightarrow>
   string \<Rightarrow> helper \<Rightarrow> helper \<Rightarrow> bool"
  for rs_New unmarshal marshal sockPath h0 where
  helper_start: "helper_reachable rs_New unmarshal marshal sockPath h0 h0"
| helper_more: "helper_reachable rs_New unmarshal marshal sockPath h0 h \<Longrightarrow>
    helper_step rs_New unmarshal marshal sockPath h h' \<Longrightarrow> helper_reachable rs_New unmarshal marshal sockPath h0 h'"

section \<open>Invariant\<close>

definition helper_conn_ok ::
  "(int \<Rightarrow> int \<Rightarrow> Codec res) \<Rightarrow> (byte list \<Rightarrow> ReconstructRequest res) \<Rightarrow> (ReconstructResponse \<Rightarrow> byte list res) \<Rightarrow>
   helper_conn \<Rightarrow> bool" where
  "helper_conn_ok rs_New unmarshal marshal hc \<longleftrightarrow>
     handleConnection rs_New unmarshal marshal (accepted_as hc) [] =
       (if left hc then (served hc, conn_logs hc)
        else handleConnection rs_New unmarshal marshal (served hc) (conn_logs hc))"

lemma helper_step_ok:
  assumes "helper_step rs_New unmarshal marshal sockPath h h'"
    and "list_all (helper_conn_ok rs_New unmarshal marshal) (helper_conns h)"
  shows "list_all (helper_conn_ok rs_New unmarshal marshal) (helper_conns h')"
  using assms(1)
proof cases
  case (conn_answered i a)
  let ?c = "helper_conns h ! i"
  have "helper_conn_ok rs_New unmarshal marshal ?c" using assms(2) conn_answered(3) by (simp add: list_all_length)
  with conn_answered(4,5) handleConnection_rounds [of rs_New unmarshal marshal "served ?c" "conn_logs ?c"]
  have "helper_conn_ok rs_New unmarshal marshal (helper_conns (after_answer i a h) ! i)"
    using conn_answered(3) by (cases a) (simp_all add: helper_conn_ok_def after_answer_def)
  with assms(2) conn_answered(1,3) show ?thesis
    by (simp add: list_all_length after_answer_def nth_list_update)
qed (use assms(2) in \<open>auto simp: helper_conn_ok_def\<close>)

lemma helper_reachable_ok:
  "helper_reachable rs_New unmarshal marshal sockPath h0 h \<Longrightarrow> helper_conns h0 = [] \<Longrightarrow>
   list_all (helper_conn_ok rs_New unmarshal marshal) (helper_conns h)"
  by (induction rule: helper_reachable.induct) (auto intro: helper_step_ok)

lemma helper_main_conns: "helper_main sockPath w = (Returns h, w') \<Longrightarrow> helper_conns h = []"
  by (auto simp: helper_main_def split: prod.splits if_splits sum.splits)

section \<open>Properties\<close>


text \<open>One error of \<open>Accept\<close> ends \<open>rs_helper\<close>, whatever connections it is serving. From every running state the
  accept loop can return; after that nothing is answered any more, on any connection, and the socket file is gone. (The
  comment in \<open>serve\<close> takes every error for the listener having been closed.)\<close>

lemma accept_error_ends_helper:
  assumes "helper_reachable rs_New unmarshal marshal sockPath h0 h" "serving h" "refused (helper_os h) sockPath = None"
  shows "\<exists>h'. helper_step rs_New unmarshal marshal sockPath h h' \<and> helper_conns h' = helper_conns h \<and>
    sockPath \<notin> paths (helper_os h') \<and> (\<forall>h''. \<not> helper_step rs_New unmarshal marshal sockPath h' h'')"
proof -
  let ?h = "h\<lparr>serving := False, helper_os := snd (os_Remove sockPath (helper_os h))\<rparr>"
  have "sockPath \<notin> paths (helper_os ?h)" using assms(3) by (simp add: os_Remove_def)
  moreover have "\<not> helper_step rs_New unmarshal marshal sockPath ?h h''" for h''
    by (auto elim: helper_step.cases)
  ultimately show ?thesis using serve_returns [OF assms(2)] by (intro exI [of _ ?h]) auto
qed

section \<open>A run\<close>

text \<open>Two connections, the first with requests, the second closed by its peer.\<close>

definition demo_helper :: helper where
  "demo_helper = \<lparr>helper_conns = [], serving = True,
     helper_os = \<lparr>paths = {''/tmp/rs.sock''}, refused = (\<lambda>p. None), unusable = (\<lambda>p. None)\<rparr>\<rparr>"

lemma demo_helper_main: "helper_main ''/tmp/rs.sock'' (helper_os demo_helper) = (Returns demo_helper, helper_os demo_helper)"
  by (simp add: helper_main_def demo_helper_def os_Remove_def net_Listen_def insert_absorb)

abbreviation demo_hstep :: "helper \<Rightarrow> helper \<Rightarrow> bool" where
  "demo_hstep \<equiv> helper_step ref_New toy_unmarshal (\<lambda>resp. Inr []) ''/tmp/rs.sock''"

abbreviation demo_hreach :: "helper \<Rightarrow> bool" where
  "demo_hreach \<equiv> helper_reachable ref_New toy_unmarshal (\<lambda>resp. Inr []) ''/tmp/rs.sock'' demo_helper"

definition demo_conn :: "byte list \<Rightarrow> conn" where
  "demo_conn bs = \<lparr>rx = bs, rx_end = EOF, tx = [], tx_fault = None\<rparr>"

definition demo_two :: "bool \<Rightarrow> helper" where
  "demo_two gone = demo_helper\<lparr>helper_conns :=
     [\<lparr>accepted_as = demo_conn (frame [7]), served = demo_conn (frame [7]), conn_logs = [], left = False\<rparr>,
      \<lparr>accepted_as = demo_conn [], served = demo_conn [], conn_logs = [], left = gone\<rparr>]\<rparr>"

lemma demo_two_reached: "demo_hreach (demo_two True)"
proof -
  let ?h1 = "demo_helper\<lparr>helper_conns :=
     [\<lparr>accepted_as = demo_conn (frame [7]), served = demo_conn (frame [7]), conn_logs = [], left = False\<rparr>]\<rparr>"
  have "demo_hstep demo_helper ?h1"
    using serve_accepts [of demo_helper _ _ _ _ "demo_conn (frame [7])"] by (simp add: demo_helper_def)
  moreover have "demo_hstep ?h1 (demo_two False)"
    using serve_accepts [of ?h1 _ _ _ _ "demo_conn []"] by (simp add: demo_helper_def demo_two_def)
  moreover have "answer_round ref_New toy_unmarshal (\<lambda>resp. Inr []) (demo_conn []) [] = Leaves (demo_conn []) []"
    by (simp add: answer_round_def readRequest_frame read_frame_empty demo_conn_def)
  then have "demo_hstep (demo_two False) (demo_two True)"
    using conn_answered [of "demo_two False" 1 ref_New toy_unmarshal "\<lambda>resp. Inr []" "Leaves (demo_conn []) []"]
    by (simp add: demo_two_def demo_helper_def after_answer_def)
  ultimately show ?thesis by (meson helper_reachable.intros)
qed


lemma accept_error_ends_helper_witness:
  "\<exists>h'. demo_hstep (demo_two True) h' \<and> ''/tmp/rs.sock'' \<notin> paths (helper_os h') \<and> rx (served (helper_conns h' ! 0)) = frame [7] \<and>
     (\<forall>h''. \<not> demo_hstep h' h'')"
proof -
  have "serving (demo_two True)" "refused (helper_os (demo_two True)) ''/tmp/rs.sock'' = None"
    by (simp_all add: demo_two_def demo_helper_def)
  from accept_error_ends_helper [OF demo_two_reached this] obtain h' where
    "demo_hstep (demo_two True) h'" "helper_conns h' = helper_conns (demo_two True)" "''/tmp/rs.sock'' \<notin> paths (helper_os h')"
    "\<forall>h''. \<not> demo_hstep h' h''" by blast
  then show ?thesis by (intro exI [of _ h']) (simp add: demo_two_def demo_conn_def)
qed

end
