(* ===== verification/Hosts.thy ===== *)
theory Hosts
  imports Monitor_Link Receiver_Boot Helper_Process
begin

text \<open>
  The two Python programs that start everything, \<open>file-monitor/main.py\<close> and \<open>session-manager/main.py\<close>, with their
  configuration, and the listening side of \<open>session-manager/src/receiver_server.py\<close>. Lemmas: the two configurations fit together,
  the server starts over a stale socket and removes its socket, and what is left behind when something fails on the way.
\<close>

section \<open>Configuration\<close>

definition TARGET_IP :: string where
  "TARGET_IP = ''127.0.0.1''"

text \<open>By sender: the port of its target and its socket.\<close>

definition SENDERS_CONFIG :: "(sender_id \<times> nat \<times> string) list" where
  "SENDERS_CONFIG = [(1, 1400, ''/tmp/uniflow_sender_1.sock''), (2, 1401, ''/tmp/uniflow_sender_2.sock''),
     (3, 1402, ''/tmp/uniflow_sender_3.sock'')]"

definition RECEIVERS_CONFIG :: "(nat \<times> string) list" where
  "RECEIVERS_CONFIG = [(1, ''0.0.0.0:1400''), (2, ''0.0.0.0:1401''), (3, ''0.0.0.0:1402'')]"

definition SESSION_SOCKET_PATH :: string where
  "SESSION_SOCKET_PATH = ''/tmp/uniflow_session.sock''"

definition RS_HELPER_SOCKET_PATH :: string where
  "RS_HELPER_SOCKET_PATH = ''/tmp/uniflow_rs_helper.sock''"

section \<open>Command lines\<close>

definition boot_senders :: "string list list" where
  "boot_senders = map (\<lambda>(sender_id, port, socket_path).
     [''./bin/sender.exe'', ''-target'', TARGET_IP @ '':'' @ show_nat port, ''-socket'', socket_path]) SENDERS_CONFIG"

definition boot_rs_helper :: "string list" where
  "boot_rs_helper = [''./bin/rs_helper.exe'', ''-sock'', RS_HELPER_SOCKET_PATH]"

definition boot_receivers :: "string list list" where
  "boot_receivers = map (\<lambda>(receiver_id, listen).
     [''./bin/receiver.exe'', ''-listen'', listen, ''-receiver-id'', show_nat receiver_id, ''-session-socket'', SESSION_SOCKET_PATH])
     RECEIVERS_CONFIG"

section \<open>ReceiverServer\<close>

text \<open>\<open>connections\<close> counts the threads started for accepted connections; they are daemon threads that the server does not keep.\<close>

record ReceiverServer =
  sock_path :: string
  listener_open :: bool
  accept_alive :: bool
  stop_event :: bool
  connections :: nat

text \<open>\<open>bind\<close> makes the socket file; the accept thread is started last.\<close>

definition server_start :: "string \<Rightarrow> os \<Rightarrow> ReceiverServer res \<times> os" where
  "server_start path w =
     (case (if path \<in> paths w then os_Remove path w else (None, w)) of
        (Some err, w) \<Rightarrow> (Inl err, w)
      | (None, w) \<Rightarrow>
          (case net_Listen path w of
             (Inl err, w) \<Rightarrow> (Inl err, w)
           | (Inr l, w) \<Rightarrow>
               (Inr \<lparr>sock_path = path, listener_open = True, accept_alive = True, stop_event = False, connections = 0\<rparr>, w)))"

text \<open>The accept loop: an accepted connection gets a thread, a timeout changes nothing, any other error ends the loop, as does the
  stop event when the loop looks at it.\<close>

inductive server_step :: "ReceiverServer \<Rightarrow> ReceiverServer \<Rightarrow> bool" where
  receiver_connects: "accept_alive s \<Longrightarrow> listener_open s \<Longrightarrow> server_step s (s\<lparr>connections := connections s + 1\<rparr>)"
| accept_error: "accept_alive s \<Longrightarrow> server_step s (s\<lparr>accept_alive := False\<rparr>)"
| sees_stop: "accept_alive s \<Longrightarrow> stop_event s \<Longrightarrow> server_step s (s\<lparr>accept_alive := False\<rparr>)"

text \<open>\<open>stop\<close>. The join has a timeout, so the accept thread may be alive after it; \<open>joined\<close> says whether it has ended.\<close>

definition server_stop :: "bool \<Rightarrow> ReceiverServer \<Rightarrow> os \<Rightarrow> error option \<times> ReceiverServer \<times> os" where
  "server_stop joined s w =
     (let s = s\<lparr>stop_event := True, accept_alive := accept_alive s \<and> \<not> joined, listener_open := False\<rparr>
      in case (if sock_path s \<in> paths w then os_Remove (sock_path s) w else (None, w)) of (e, w) \<Rightarrow> (e, s, w))"

section \<open>main.py of the session manager\<close>

text \<open>The subprocesses that run, and the server. \<open>popen\<close> gives the error of \<open>subprocess.Popen\<close>, if any.\<close>

record session_host =
  processes :: "string list list"
  server :: "ReceiverServer option"

fun popen_all :: "(string list \<Rightarrow> error option) \<Rightarrow> string list list \<Rightarrow> session_host \<Rightarrow> error option \<times> session_host" where
  "popen_all popen [] host = (None, host)"
| "popen_all popen (cmd # cmds) host =
     (case popen cmd of
        Some err \<Rightarrow> (Some err, host)
      | None \<Rightarrow> popen_all popen cmds (host\<lparr>processes := processes host @ [cmd]\<rparr>))"

text \<open>The start stands before the \<open>try\<close>: an exception ends the program and leaves what was started.\<close>

definition session_boot :: "(string list \<Rightarrow> error option) \<Rightarrow> os \<Rightarrow> error option \<times> session_host \<times> os" where
  "session_boot popen w =
     (case popen_all popen [boot_rs_helper] \<lparr>processes = [], server = None\<rparr> of
        (Some err, host) \<Rightarrow> (Some err, host, w)
      | (None, host) \<Rightarrow>
          (case server_start SESSION_SOCKET_PATH w of
             (Inl err, w) \<Rightarrow> (Some err, host, w)
           | (Inr srv, w) \<Rightarrow>
               (case popen_all popen boot_receivers (host\<lparr>server := Some srv\<rparr>) of (e, host) \<Rightarrow> (e, host, w))))"

text \<open>The \<open>finally\<close> block: the receivers, then the helper, then the server.\<close>

definition session_shutdown :: "bool \<Rightarrow> session_host \<Rightarrow> os \<Rightarrow> error option \<times> session_host \<times> os" where
  "session_shutdown joined host w =
     (case server host of
        None \<Rightarrow> (None, host\<lparr>processes := []\<rparr>, w)
      | Some srv \<Rightarrow>
          (case server_stop joined srv w of (e, srv, w) \<Rightarrow> (e, host\<lparr>processes := [], server := Some srv\<rparr>, w)))"

section \<open>Lemmas\<close>

text \<open>Sender \<open>i\<close> sends to the port on which receiver \<open>i\<close> listens, receivers get the socket that the server listens on, which is
  also their default, and no two programs share a socket.\<close>

lemma configurations_fit:
  "map (\<lambda>(i, port, path). (i, ''0.0.0.0:'' @ show_nat port)) SENDERS_CONFIG = RECEIVERS_CONFIG"
  "SESSION_SOCKET_PATH = sessionSocket default_flags"
  "distinct (map (snd \<circ> snd) SENDERS_CONFIG @ [SESSION_SOCKET_PATH, RS_HELPER_SOCKET_PATH])" "distinct (map fst SENDERS_CONFIG)"
  by code_simp+

lemma server_start_stale:
  "refused w path = None \<Longrightarrow> unusable w path = None \<Longrightarrow>
   server_start path w = (Inr \<lparr>sock_path = path, listener_open = True, accept_alive = True, stop_event = False, connections = 0\<rparr>,
     w\<lparr>paths := insert path (paths w)\<rparr>)"
  by (auto simp: server_start_def os_Remove_def net_Listen_def)

text \<open>A complete start and stop leaves no process and no socket file; connection threads are left to their peers.\<close>

lemma popen_all_fine: "\<forall>cmd\<in>set cmds. popen cmd = None \<Longrightarrow> popen_all popen cmds host = (None, host\<lparr>processes := processes host @ cmds\<rparr>)"
  by (induction cmds arbitrary: host) simp_all

lemma session_boot_shutdown:
  assumes "\<And>cmd. popen cmd = None" "refused w SESSION_SOCKET_PATH = None" "unusable w SESSION_SOCKET_PATH = None"
  shows "\<exists>host. session_boot popen w = (None, host, w\<lparr>paths := insert SESSION_SOCKET_PATH (paths w)\<rparr>) \<and>
    processes host = boot_rs_helper # boot_receivers \<and>
    (\<exists>host'. session_shutdown joined host (w\<lparr>paths := insert SESSION_SOCKET_PATH (paths w)\<rparr>) =
      (None, host', w\<lparr>paths := paths w - {SESSION_SOCKET_PATH}\<rparr>) \<and> processes host' = [])"
  using assms
  by (auto simp: session_boot_def popen_all_fine server_start_stale session_shutdown_def server_stop_def os_Remove_def Let_def)

text \<open>When the socket can not be made, the program ends with an exception and \<open>rs_helper\<close> goes on running.\<close>

lemma session_boot_leaves_helper:
  assumes "popen boot_rs_helper = None" "server_start SESSION_SOCKET_PATH w = (Inl err, w')"
  shows "session_boot popen w = (Some err, \<lparr>processes = [boot_rs_helper], server = None\<rparr>, w')"
  using assms by (simp add: session_boot_def)

text \<open>After an error of \<open>accept\<close> other than the timeout, the socket stays open but no connection is accepted any more.\<close>

lemma accept_error_deaf:
  assumes "server_step\<^sup>*\<^sup>* s s'" "\<not> accept_alive s"
  shows "s' = s"
  using assms by (induction rule: rtranclp_induct) (auto elim: server_step.cases)

end
