(* ===== verification/Helper_Link.thy ===== *)
theory Helper_Link
  imports Session_Manager
begin

text \<open>
  The link between the session manager and \<open>rs_helper\<close>, both ends: the client of \<open>session-manager/src/rs_client.py\<close> and the
  connection handler of \<open>rs_helper\<close>. It makes the answers of \<open>FromRequest\<close> available to the block assembler, as
  \<open>Session_Pipeline\<close> uses them.
\<close>

section \<open>The Python client\<close>

text \<open>\<open>_send_framed\<close>: a length that does not fit its four bytes is a \<open>struct.error\<close>.\<close>

definition client_send_framed :: "('m \<Rightarrow> byte list res) \<Rightarrow> 'm \<Rightarrow> byte list res" where
  "client_send_framed marshal message =
     (case marshal message of
        Inl err \<Rightarrow> Inl err
      | Inr payload \<Rightarrow>
          if length payload < 2 ^ 32 then Inr (BigEndian_PutUint32 (of_nat (length payload)) @ payload)
          else Inl (LibError ''struct.error''))"

definition closed_unexpectedly :: error where
  "closed_unexpectedly = LibError ''rs_helper closed the connection unexpectedly''"

definition client_recv_exact :: "nat \<Rightarrow> conn \<Rightarrow> (byte list \<times> conn) res" where
  "client_recv_exact n c =
     (if n \<le> length (rx c) then Inr (take n (rx c), c\<lparr>rx := drop n (rx c)\<rparr>)
      else if rx_end c = EOF then Inl closed_unexpectedly else Inl (rx_end c))"

definition client_recv_framed :: "(byte list \<Rightarrow> 'm res) \<Rightarrow> conn \<Rightarrow> 'm res" where
  "client_recv_framed unmarshal c =
     (case client_recv_exact 4 c of
        Inl err \<Rightarrow> Inl err
      | Inr (header, c) \<Rightarrow>
          (case client_recv_exact (unat (BigEndian_Uint32 header)) c of
             Inl err \<Rightarrow> Inl err
           | Inr (payload, c) \<Rightarrow> unmarshal payload))"

text \<open>One request and its response; \<open>serve\<close> gives the bytes that come back for the bytes sent.\<close>

definition exchange ::
  "('q \<Rightarrow> byte list res) \<Rightarrow> (byte list \<Rightarrow> 'r res) \<Rightarrow> (byte list \<Rightarrow> byte list) \<Rightarrow> 'q \<Rightarrow> 'r res" where
  "exchange marshal unmarshal serve request =
     (case client_send_framed marshal request of
        Inl err \<Rightarrow> Inl err
      | Inr bs \<Rightarrow> client_recv_framed unmarshal \<lparr>rx = serve bs, rx_end = EOF, tx = [], tx_fault = None\<rparr>)"

text \<open>The bytes \<open>rs_helper\<close> writes on a connection that delivers \<open>bs\<close>.\<close>

definition helper_serve ::
  "(int \<Rightarrow> int \<Rightarrow> Codec res) \<Rightarrow> (byte list \<Rightarrow> ReconstructRequest res) \<Rightarrow> (ReconstructResponse \<Rightarrow> byte list res) \<Rightarrow>
   byte list \<Rightarrow> byte list" where
  "helper_serve rs_New unmarshal marshal bs =
     tx (fst (handleConnection rs_New unmarshal marshal \<lparr>rx = bs, rx_end = EOF, tx = [], tx_fault = None\<rparr> []))"

section \<open>Both ends together\<close>

lemma client_recv_framed_frame:
  assumes "rx c = frame p" "length p < 2 ^ 32"
  shows "client_recv_framed unmarshal c = unmarshal p"
proof -
  have "client_recv_exact 4 c = Inr (BigEndian_PutUint32 (of_nat (length p)), c\<lparr>rx := p\<rparr>)"
    using assms(1) by (simp add: client_recv_exact_def frame_def)
  then show ?thesis using frame_length [OF assms(2)] by (simp add: client_recv_framed_def client_recv_exact_def)
qed

lemma helper_serve_answers:
  assumes "unmarshal p = Inr req" "length p < 2 ^ 32"
  shows "helper_serve rs_New unmarshal marshal (frame p) = (case marshal (FromRequest rs_New req) of Inl err \<Rightarrow> [] | Inr out \<Rightarrow> frame out)"
proof (cases "marshal (FromRequest rs_New req)")
  case (Inl err)
  have "readRequest unmarshal \<lparr>rx = frame p, rx_end = EOF, tx = [], tx_fault = None\<rparr>
      = Inr (req, \<lparr>rx = [], rx_end = EOF, tx = [], tx_fault = None\<rparr>)"
    using read_message_frame [of _ p "[]" unmarshal req] assms by (simp add: readRequest_message)
  then show ?thesis
    unfolding helper_serve_def by (subst handleConnection.simps) (simp add: Inl writeResponse_def Let_def)
next
  case (Inr out)
  have "handleConnection rs_New unmarshal marshal \<lparr>rx = frame p, rx_end = EOF, tx = [], tx_fault = None\<rparr> []
      = (\<lparr>rx = frame p, rx_end = EOF, tx = [], tx_fault = None\<rparr>\<lparr>rx := [], tx := [] @ concat (map frame [out])\<rparr>,
         [] @ concat (map (failure_log rs_New) [req]))"
    using assms Inr by (subst handleConnection_served [where reqs = "[req]" and ps = "[p]" and outs = "[out]"]) simp_all
  then show ?thesis by (simp add: helper_serve_def Inr)
qed

text \<open>C24: the client gets the helper's answer. For every request that can be serialised, what \<open>rs_client.py\<close> reads back is
  exactly the response that \<open>FromRequest\<close> computes for it, whatever that is; only when the helper cannot serialise its response does
  the client see the connection closed.\<close>

theorem rs_client_gets_answer:
  assumes "bounded_codec marshal_req unmarshal_req" "bounded_codec marshal_resp unmarshal_resp"
    and "marshal_req req = Inr p"
  shows "exchange marshal_req unmarshal_resp (helper_serve rs_New unmarshal_req marshal_resp) req
    = (case marshal_resp (FromRequest rs_New req) of Inl err \<Rightarrow> Inl closed_unexpectedly | Inr out \<Rightarrow> Inr (FromRequest rs_New req))"
proof -
  have p: "unmarshal_req p = Inr req" "length p < 2 ^ 32"
    using proto_codec.unmarshal_marshal [OF bounded_codec.axioms(1) [OF assms(1)] assms(3)]
      bounded_codec.marshal_frame [OF assms(1,3)] by simp_all
  then have send: "client_send_framed marshal_req req = Inr (frame p)" by (simp add: client_send_framed_def assms(3) frame_def)
  note serve = helper_serve_answers [where unmarshal = unmarshal_req and p = p and req = req and marshal = marshal_resp and
      rs_New = rs_New, OF p]
  show ?thesis
  proof (cases "marshal_resp (FromRequest rs_New req)")
    case (Inl err)
    then show ?thesis by (simp add: exchange_def send serve client_recv_framed_def client_recv_exact_def)
  next
    case (Inr out)
    then have "unmarshal_resp out = Inr (FromRequest rs_New req)" "length out < 2 ^ 32"
      using proto_codec.unmarshal_marshal [OF bounded_codec.axioms(1) [OF assms(2)]]
        bounded_codec.marshal_frame [OF assms(2)] by blast+
    with Inr show ?thesis by (simp add: exchange_def send serve client_recv_framed_frame)
  qed
qed

text \<open>The witness: a request with impossible dimensions over the real codecs; the client gets the error.\<close>

definition bad_request :: ReconstructRequest where
  "bad_request = \<lparr>Req_FileHash = 1, Req_BlockId = 2, Req_KSymbols = 0, Req_NSymbols = 0, Req_Shards = []\<rparr>"

theorem rs_client_gets_answer_witness:
  "exchange marshal_request unmarshal_response (helper_serve ref_New unmarshal_request marshal_response) bad_request
     = Inr (fail_response ''invalid k_symbols=0 n_symbols=0'')"
proof -
  have msg: "Sprintf ''invalid k_symbols=%d n_symbols=%d'' [D 0, D 0] = ''invalid k_symbols=0 n_symbols=0''" by code_simp
  then have resp: "FromRequest ref_New bad_request = fail_response ''invalid k_symbols=0 n_symbols=0''"
    by (simp add: FromRequest_def bad_request_def)
  have "fields_size (request_fields bad_request) < 2 ^ 31"
    using fields_size_word64 [of 1 1] fields_size_word32 [of 2 2] fields_size_word32 [of 3 0] fields_size_word32 [of 4 0]
    by (simp add: request_fields_def bad_request_def repeated_field_def)
  then have "\<exists>p. marshal_request bad_request = Inr p" by (simp add: marshal_request_def wire_marshal_def fields_size_def)
  then obtain p where p: "marshal_request bad_request = Inr p" ..
  have "fields_size (response_fields (fail_response ''invalid k_symbols=0 n_symbols=0'')) < 2 ^ 31"
    using fields_size_word32 [of 1 0] fields_size_bytes [of 2 1 "text_bytes ''invalid k_symbols=0 n_symbols=0''"]
    by (simp add: response_fields_def fail_response_def repeated_field_def text_bytes_def)
  then have "\<exists>out. marshal_response (fail_response ''invalid k_symbols=0 n_symbols=0'') = Inr out"
    by (simp add: marshal_response_def wire_marshal_def fields_size_def)
  with rs_client_gets_answer [OF request_wire.bounded_codec_axioms response_wire.bounded_codec_axioms p, of ref_New] resp
  show ?thesis by auto
qed

end
