(* ===== verification/Receiver_Pools.thy ===== *)
theory Receiver_Pools
  imports Links
begin

text \<open>
  Storage in the receiver: \<open>bufferPool\<close> of \<open>receivers/cmd/main.go\<close> and \<open>PacketPool\<close> of
  \<open>receivers/internal/forwarder/forwarder.go\<close>. Theory \<open>Receiver\<close> passes packets by value; here the read loop, the
  queue, the batch and the pool hold addresses, packets are reset and reused, and a step relation \<open>pstep\<close>
  follows the program's gets, resets and puts. Following the pointers (\<open>deref\<close>) maps it to the receiver of
  theory \<open>Receiver\<close>. Lemmas: a packet has one owner at a time, and each step is a step of that receiver.
\<close>

section \<open>State\<close>

text \<open>
  A packet is an address in \<open>heap\<close>; addresses from \<open>heap_next\<close> on have not been allocated. \<open>PacketPool\<close> and
  \<open>bufferPool\<close> hold what was put back. The other fields are those of the receiver, with addresses for packets.
\<close>

datatype pooled_phase = PReading | PHolding nat | PStopped | PPanicked nat | SliceOutOfRange

record 's pooled_receiver =
  heap :: "nat \<Rightarrow> Packet"
  heap_next :: nat
  PacketPool :: "nat list"
  bufferPool :: "byte list list"
  p_intake :: "nat list"
  p_depth :: nat
  p_closed :: bool
  p_phase :: pooled_phase
  p_batch :: "nat list"
  p_returned :: bool
  p_state :: "'s fwd_state"
  p_open :: bool
  p_history :: "byte list list"

definition pooled_start :: "nat \<Rightarrow> 's \<Rightarrow> 's pooled_receiver" where
  "pooled_start queueDepth s =
     \<lparr>heap = (\<lambda>a. zero_Packet), heap_next = 0, PacketPool = [], bufferPool = [],
      p_intake = [], p_depth = queueDepth, p_closed = False, p_phase = PReading, p_batch = [], p_returned = False,
      p_state = \<lparr>fs_counters = zero_Counters, fs_sender = s, fs_log = []\<rparr>, p_open = True, p_history = []\<rparr>"

section \<open>Pools\<close>

text \<open>\<open>sync.Pool.Get\<close> returns any one of the objects in the pool and takes it out, or a new one.\<close>

definition new_buffer :: "byte list" where
  "new_buffer = replicate maxDatagramSize 0"

inductive buffer_Get :: "byte list list \<Rightarrow> byte list \<Rightarrow> byte list list \<Rightarrow> bool" where
  pooled_buffer: "b \<in> set bs \<Longrightarrow> buffer_Get bs b (remove1 b bs)"
| fresh_buffer: "buffer_Get bs new_buffer bs"

inductive packet_Get :: "'s pooled_receiver \<Rightarrow> nat \<Rightarrow> 's pooled_receiver \<Rightarrow> bool" where
  pooled_packet: "a \<in> set (PacketPool p) \<Longrightarrow> packet_Get p a (p\<lparr>PacketPool := remove1 a (PacketPool p)\<rparr>)"
| fresh_packet: "packet_Get p (heap_next p)
    (p\<lparr>heap := (heap p)(heap_next p := zero_Packet), heap_next := heap_next p + 1\<rparr>)"

definition set_packet :: "nat \<Rightarrow> Packet \<Rightarrow> 's pooled_receiver \<Rightarrow> 's pooled_receiver" where
  "set_packet a v p = p\<lparr>heap := (heap p)(a := v)\<rparr>"

definition packet_Put :: "nat \<Rightarrow> 's pooled_receiver \<Rightarrow> 's pooled_receiver" where
  "packet_Put a p = p\<lparr>PacketPool := a # PacketPool p\<rparr>"

section \<open>The read loop\<close>

datatype read_outcome =
    Oversized Counters
  | BadSlice Counters
  | Rejected Counters "byte list" Packet
  | Accepted Counters "byte list" Packet

text \<open>
  One datagram, given the buffer and the packet that the pools return. \<open>decode_into\<close> is \<open>proto.Unmarshal\<close>, which fills
  the packet it is given; after an error the packet holds whatever was decoded before it.
\<close>

definition readLoop_pooled ::
  "(byte list \<Rightarrow> Packet \<Rightarrow> error option \<times> Packet) \<Rightarrow> byte list \<Rightarrow> byte list \<Rightarrow> Packet \<Rightarrow> Counters \<Rightarrow> read_outcome" where
  "readLoop_pooled decode_into raw buffer packet counters =
     (let datagram = take readDatagramSize raw;
          packetSize = length datagram;
          counters = AddReceived counters
      in if packetSize > maxDatagramSize then Oversized (AddMalformed counters)
         else if packetSize > length buffer then BadSlice counters
         else
           (let buffer = go_copy buffer datagram;
                rawPacket = take packetSize buffer;
                packet = Packet_Reset packet
            in case decode_into rawPacket packet of
                 (Some err, packet) \<Rightarrow> Rejected (AddMalformed counters) buffer packet
               | (None, packet) \<Rightarrow>
                   if \<not> VerifyPacket (GetFileHash (Some packet)) (GetBlockId (Some packet)) (GetTotalBlocks (Some packet))
                          (GetSymbolId (Some packet)) (GetKSymbols (Some packet)) (GetNSymbols (Some packet))
                          (GetFileSize (Some packet)) (GetContent (Some packet)) (GetPacketCrc (Some packet))
                   then Rejected (AddCrcDropped counters) buffer packet
                   else
                     (let ownedContent = go_copy (replicate (length (Content packet)) 0) (Content packet)
                      in Accepted counters buffer (packet\<lparr>Content := ownedContent\<rparr>))))"

section \<open>The forwarder\<close>

text \<open>The deferred function of \<open>flushBatch\<close>: reset every packet of the batch and put it back.\<close>

fun recycle :: "nat list \<Rightarrow> 's pooled_receiver \<Rightarrow> 's pooled_receiver" where
  "recycle [] p = p"
| "recycle (a # as) p = recycle as (packet_Put a (set_packet a (Packet_Reset (heap p a)) p))"

definition flush_pooled ::
  "(SymbolBatch \<Rightarrow> byte list res) \<Rightarrow> ('s \<Rightarrow> byte list \<Rightarrow> (error option \<times> 's) option) \<Rightarrow> Forwarder \<Rightarrow> 's pooled_receiver \<Rightarrow>
   's pooled_receiver option" where
  "flush_pooled marshal send fwd p =
     (if p_batch p = [] then Some p
      else
        (case flushBatch marshal send fwd (map (heap p) (p_batch p)) (p_state p) of
           None \<Rightarrow> None
         | Some st \<Rightarrow> Some ((recycle (p_batch p) p)\<lparr>p_state := st, p_batch := []\<rparr>)))"

text \<open>One round of \<open>Run\<close>, whose stop channel is nil in this process: the intake or the ticker.\<close>

fun Run_pooled ::
  "(SymbolBatch \<Rightarrow> byte list res) \<Rightarrow> ('s \<Rightarrow> byte list \<Rightarrow> (error option \<times> 's) option) \<Rightarrow> Forwarder \<Rightarrow> select_case \<Rightarrow>
   's pooled_receiver \<Rightarrow> 's pooled_receiver option" where
  "Run_pooled marshal send fwd StopClosed p = None"
| "Run_pooled marshal send fwd TickReady p = flush_pooled marshal send fwd p"
| "Run_pooled marshal send fwd IntakeReady p =
     (case p_intake p of
        a # as \<Rightarrow>
          (let p = p\<lparr>p_intake := as, p_batch := p_batch p @ [a]\<rparr> in
           if int (length (p_batch p)) \<ge> batchSize fwd then flush_pooled marshal send fwd p else Some p)
      | [] \<Rightarrow>
          if p_closed p then map_option (\<lambda>p. p\<lparr>p_returned := True\<rparr>) (flush_pooled marshal send fwd p) else None)"

section \<open>Steps\<close>

definition p_set_counters :: "Counters \<Rightarrow> 's pooled_receiver \<Rightarrow> 's pooled_receiver" where
  "p_set_counters c p = p\<lparr>p_state := (p_state p)\<lparr>fs_counters := c\<rparr>\<rparr>"

definition p_read :: "byte list \<Rightarrow> Counters \<Rightarrow> 's pooled_receiver \<Rightarrow> 's pooled_receiver" where
  "p_read raw c p = (p_set_counters c p)\<lparr>p_history := p_history p @ [raw]\<rparr>"

definition crashed :: "'s pooled_receiver \<Rightarrow> bool" where
  "crashed p = (case p_phase p of PPanicked a \<Rightarrow> True | SliceOutOfRange \<Rightarrow> True | _ \<Rightarrow> False)"

inductive pstep ::
  "(byte list \<Rightarrow> Packet \<Rightarrow> error option \<times> Packet) \<Rightarrow> (SymbolBatch \<Rightarrow> byte list res) \<Rightarrow>
   ('s \<Rightarrow> byte list \<Rightarrow> (error option \<times> 's) option) \<Rightarrow> Forwarder \<Rightarrow> 's pooled_receiver \<Rightarrow> 's pooled_receiver \<Rightarrow> bool"
  for decode_into marshal send fwd where
  p_oversized: "p_phase p = PReading \<Longrightarrow> p_open p \<Longrightarrow>
    readLoop_pooled decode_into raw buffer packet (fs_counters (p_state p)) = Oversized c \<Longrightarrow>
    pstep decode_into marshal send fwd p (p_read raw c p)"
| p_bad_slice: "p_phase p = PReading \<Longrightarrow> p_open p \<Longrightarrow> buffer_Get (bufferPool p) buffer bs \<Longrightarrow>
    readLoop_pooled decode_into raw buffer packet (fs_counters (p_state p)) = BadSlice c \<Longrightarrow>
    pstep decode_into marshal send fwd p ((p_read raw c p)\<lparr>p_phase := SliceOutOfRange\<rparr>)"
| p_rejected: "p_phase p = PReading \<Longrightarrow> p_open p \<Longrightarrow> buffer_Get (bufferPool p) buffer bs \<Longrightarrow> packet_Get p a p1 \<Longrightarrow>
    readLoop_pooled decode_into raw buffer (heap p1 a) (fs_counters (p_state p1)) = Rejected c buffer' packet \<Longrightarrow>
    pstep decode_into marshal send fwd p
      (packet_Put a (set_packet a packet ((p_read raw c p1)\<lparr>bufferPool := buffer' # bs\<rparr>)))"
| p_accepted: "p_phase p = PReading \<Longrightarrow> p_open p \<Longrightarrow> buffer_Get (bufferPool p) buffer bs \<Longrightarrow> packet_Get p a p1 \<Longrightarrow>
    readLoop_pooled decode_into raw buffer (heap p1 a) (fs_counters (p_state p1)) = Accepted c buffer' packet \<Longrightarrow>
    pstep decode_into marshal send fwd p
      (set_packet a packet ((p_read raw c p1)\<lparr>bufferPool := buffer' # bs, p_phase := PHolding a\<rparr>))"
| p_queued: "p_phase p = PHolding a \<Longrightarrow> \<not> p_closed p \<Longrightarrow> length (p_intake p) < p_depth p \<Longrightarrow>
    pstep decode_into marshal send fwd p (p\<lparr>p_intake := p_intake p @ [a], p_phase := PReading\<rparr>)"
| p_dropped: "p_phase p = PHolding a \<Longrightarrow> \<not> p_closed p \<Longrightarrow> \<not> length (p_intake p) < p_depth p \<Longrightarrow>
    pstep decode_into marshal send fwd p
      (packet_Put a (set_packet a (Packet_Reset (heap p a))
        ((p_set_counters (AddIntakeDropped (fs_counters (p_state p))) p)\<lparr>p_phase := PReading\<rparr>)))"
| p_crashed: "p_phase p = PHolding a \<Longrightarrow> p_closed p \<Longrightarrow>
    pstep decode_into marshal send fwd p (p\<lparr>p_phase := PPanicked a\<rparr>)"
| p_read_closed: "p_phase p = PReading \<Longrightarrow> \<not> p_open p \<Longrightarrow>
    pstep decode_into marshal send fwd p (p\<lparr>p_phase := PStopped\<rparr>)"
| p_forward: "\<not> p_returned p \<Longrightarrow> \<not> crashed p \<Longrightarrow> Run_pooled marshal send fwd ev p = Some p' \<Longrightarrow>
    pstep decode_into marshal send fwd p p'"
| p_close_udp: "p_open p \<Longrightarrow> \<not> crashed p \<Longrightarrow> pstep decode_into marshal send fwd p (p\<lparr>p_open := False\<rparr>)"
| p_close_intake: "\<not> p_open p \<Longrightarrow> \<not> crashed p \<Longrightarrow> \<not> p_closed p \<Longrightarrow>
    pstep decode_into marshal send fwd p (p\<lparr>p_closed := True\<rparr>)"
| p_collect: "subseq ps (PacketPool p) \<Longrightarrow> subseq bs (bufferPool p) \<Longrightarrow>
    pstep decode_into marshal send fwd p (p\<lparr>PacketPool := ps, bufferPool := bs\<rparr>)"

inductive preachable ::
  "(byte list \<Rightarrow> Packet \<Rightarrow> error option \<times> Packet) \<Rightarrow> (SymbolBatch \<Rightarrow> byte list res) \<Rightarrow>
   ('s \<Rightarrow> byte list \<Rightarrow> (error option \<times> 's) option) \<Rightarrow> Forwarder \<Rightarrow> nat \<Rightarrow> 's \<Rightarrow> 's pooled_receiver \<Rightarrow> bool"
  for decode_into marshal send fwd queueDepth s where
  p_start: "preachable decode_into marshal send fwd queueDepth s (pooled_start queueDepth s)"
| p_step: "preachable decode_into marshal send fwd queueDepth s p \<Longrightarrow> pstep decode_into marshal send fwd p p' \<Longrightarrow>
    preachable decode_into marshal send fwd queueDepth s p'"

section \<open>Ownership\<close>

fun held :: "pooled_phase \<Rightarrow> nat list" where
  "held (PHolding a) = [a]"
| "held (PPanicked a) = [a]"
| "held PReading = []"
| "held PStopped = []"
| "held SliceOutOfRange = []"

definition in_use :: "'s pooled_receiver \<Rightarrow> nat list" where
  "in_use p = p_batch p @ p_intake p @ held (p_phase p)"

text \<open>Every packet in use or in the pool is allocated and has one owner; the buffers have their full length.\<close>

definition pooled_ok :: "'s pooled_receiver \<Rightarrow> bool" where
  "pooled_ok p \<longleftrightarrow>
     distinct (in_use p @ PacketPool p) \<and> (\<forall>a\<in>set (in_use p @ PacketPool p). a < heap_next p) \<and>
     (\<forall>b\<in>set (bufferPool p). length b = maxDatagramSize) \<and> p_phase p \<noteq> SliceOutOfRange"

section \<open>The abstraction\<close>

text \<open>Following the pointers gives a state of the receiver without pools.\<close>

fun deref_phase :: "(nat \<Rightarrow> Packet) \<Rightarrow> pooled_phase \<Rightarrow> read_phase" where
  "deref_phase h PReading = Reading"
| "deref_phase h (PHolding a) = Holding (h a)"
| "deref_phase h PStopped = Stopped"
| "deref_phase h (PPanicked a) = Panicked (h a)"
| "deref_phase h SliceOutOfRange = Stopped"

definition deref :: "'s pooled_receiver \<Rightarrow> 's receiver" where
  "deref p =
     \<lparr>intake = \<lparr>buf = map (heap p) (p_intake p), capacity = p_depth p, chan_closed = p_closed p\<rparr>,
      phase = deref_phase (heap p) (p_phase p), batch = map (heap p) (p_batch p), fwd_returned = p_returned p,
      fwd_state = p_state p, udp_open = p_open p, history = p_history p\<rparr>"

text \<open>\<open>unmarshal\<close> tells what \<open>proto.Unmarshal\<close> makes of the bytes when it is given a reset packet.\<close>

definition decodes :: "(byte list \<Rightarrow> Packet \<Rightarrow> error option \<times> Packet) \<Rightarrow> (byte list \<Rightarrow> Packet res) \<Rightarrow> bool" where
  "decodes decode_into unmarshal \<longleftrightarrow>
     (\<forall>raw. case unmarshal raw of
        Inl err \<Rightarrow> fst (decode_into raw zero_Packet) = Some err
      | Inr packet \<Rightarrow> decode_into raw zero_Packet = (None, packet))"

section \<open>One datagram\<close>

lemma take_go_copy: "length src \<le> length dst \<Longrightarrow> take (length src) (go_copy dst src) = src"
  by (simp add: go_copy_def)

lemma readLoop_pooled_eq:
  assumes "decodes decode_into unmarshal" "length buffer = maxDatagramSize"
  shows "readLoop_pooled decode_into raw buffer packet c =
    (if length raw > maxDatagramSize then Oversized (AddMalformed (AddReceived c))
     else case unmarshal raw of
         Inl err \<Rightarrow> Rejected (AddMalformed (AddReceived c)) (go_copy buffer raw) (snd (decode_into raw zero_Packet))
       | Inr q \<Rightarrow> if valid_packet q then Accepted (AddReceived c) (go_copy buffer raw) q
           else Rejected (AddCrcDropped (AddReceived c)) (go_copy buffer raw) q)"
proof -
  have d: "case unmarshal raw of Inl err \<Rightarrow> fst (decode_into raw zero_Packet) = Some err
      | Inr q \<Rightarrow> decode_into raw zero_Packet = (None, q)"
    using assms(1) unfolding decodes_def by blast
  have "length (take readDatagramSize raw) > maxDatagramSize \<longleftrightarrow> length raw > maxDatagramSize"
    by (simp add: readDatagramSize_def maxDatagramSize_def)
  moreover have "length raw \<le> maxDatagramSize \<Longrightarrow> take readDatagramSize raw = raw"
    by (simp add: readDatagramSize_def maxDatagramSize_def)
  ultimately show ?thesis
    using d assms(2)
    by (cases "decode_into raw zero_Packet")
      (auto simp: readLoop_pooled_def valid_packet_def Packet_Reset_def take_go_copy Let_def split: sum.splits)
qed

lemma readLoop_pooled_abstract:
  assumes "decodes decode_into unmarshal" "length buffer = maxDatagramSize"
  shows "readLoop_pooled decode_into raw buffer packet c \<noteq> BadSlice c'"
    and "readLoop_pooled decode_into raw buffer packet c = Rejected c' buffer' q \<Longrightarrow>
      readLoop_accept unmarshal raw c = (c', None) \<and> length buffer' = maxDatagramSize"
    and "readLoop_pooled decode_into raw buffer packet c = Accepted c' buffer' q \<Longrightarrow>
      readLoop_accept unmarshal raw c = (c', Some q) \<and> length buffer' = maxDatagramSize"
  using assms(2)
  by (auto simp: readLoop_pooled_eq [OF assms] readLoop_accept_eq split: if_splits sum.splits)

lemma readLoop_pooled_Oversized:
  "readLoop_pooled decode_into raw buffer packet c = Oversized c' \<Longrightarrow> readLoop_accept unmarshal raw c = (c', None)"
  by (auto simp: readLoop_pooled_def readLoop_accept_def Let_def split: if_splits prod.splits option.splits)

lemma buffer_Get_length:
  assumes "buffer_Get bs b bs'" "\<forall>b\<in>set bs. length b = maxDatagramSize"
  shows "length b = maxDatagramSize \<and> (\<forall>b\<in>set bs'. length b = maxDatagramSize)"
  using assms by cases (auto simp: new_buffer_def dest: notin_set_remove1)

section \<open>Getting and putting packets\<close>

lemma map_upd_other: "a \<notin> set xs \<Longrightarrow> map (f(a := v)) xs = map f xs"
  by (rule map_cong) auto

lemma packet_Get_ok:
  assumes "packet_Get p a p1" "pooled_ok p" "held (p_phase p) = []"
  shows "a \<notin> set (in_use p1) \<and> a \<notin> set (PacketPool p1) \<and> a < heap_next p1 \<and> pooled_ok p1 \<and>
    p_state p1 = p_state p \<and> deref p1 = deref p \<and> bufferPool p1 = bufferPool p \<and> p_phase p1 = p_phase p"
  using assms(1)
proof cases
  case pooled_packet
  with assms(2,3) show ?thesis
    by (auto simp: pooled_ok_def in_use_def deref_def dest: notin_set_remove1)
next
  case fresh_packet
  moreover from this assms(2) have "heap_next p \<notin> set (in_use p @ PacketPool p)"
    by (auto simp: pooled_ok_def)
  ultimately show ?thesis
    using assms(2,3) by (cases "p_phase p") (auto simp: pooled_ok_def in_use_def deref_def map_upd_other less_Suc_eq)
qed

lemma recycle_heap: "heap (recycle as p) = (\<lambda>a. if a \<in> set as then zero_Packet else heap p a)"
  by (induction as arbitrary: p) (auto simp: packet_Put_def set_packet_def Packet_Reset_def)

lemma recycle_other: "recycle as p = p\<lparr>heap := heap (recycle as p), PacketPool := rev as @ PacketPool p\<rparr>"
proof (induction as arbitrary: p)
  case (Cons a as)
  show ?case
    by (simp only: recycle.simps) (subst Cons.IH, simp add: packet_Put_def set_packet_def)
qed simp

lemma recycle_state:
  "recycle as p = p\<lparr>heap := (\<lambda>a. if a \<in> set as then zero_Packet else heap p a), PacketPool := rev as @ PacketPool p\<rparr>"
  using recycle_other [of as p] by (simp only: recycle_heap)

lemma flush_pooled_simulates:
  assumes "pooled_ok p" "flush_pooled marshal send fwd p = Some p'"
  shows "flush marshal send fwd (map (heap p) (p_batch p)) (p_state p) = Some ([], p_state p') \<and> pooled_ok p' \<and>
    deref p' = (deref p)\<lparr>batch := [], fwd_state := p_state p'\<rparr> \<and> p_returned p' = p_returned p"
proof (cases "p_batch p = []")
  case True
  with assms show ?thesis by (auto simp: flush_pooled_def flush_def deref_def)
next
  case False
  with assms(2) obtain st where st: "flushBatch marshal send fwd (map (heap p) (p_batch p)) (p_state p) = Some st"
    and p': "p' = (recycle (p_batch p) p)\<lparr>p_state := st, p_batch := []\<rparr>"
    by (auto simp: flush_pooled_def split: option.splits)
  have "set (p_batch p) \<inter> set (p_intake p) = {}" "set (p_batch p) \<inter> set (held (p_phase p)) = {}"
    using assms(1) by (auto simp: pooled_ok_def in_use_def)
  then have "deref p' = (deref p)\<lparr>batch := [], fwd_state := st\<rparr>"
    unfolding p' recycle_state by (cases "p_phase p") (auto simp: deref_def)
  moreover have "pooled_ok p'"
    using assms(1) unfolding p' recycle_state by (auto simp: pooled_ok_def in_use_def)
  ultimately show ?thesis using False st p' by (simp add: flush_def recycle_state)
qed

lemma pooled_ok_take: "pooled_ok p \<Longrightarrow> p_intake p = a # as \<Longrightarrow> pooled_ok (p\<lparr>p_intake := as, p_batch := p_batch p @ [a]\<rparr>)"
  by (auto simp: pooled_ok_def in_use_def)

lemma Run_pooled_simulates:
  assumes "pooled_ok p" "Run_pooled marshal send fwd ev p = Some p'" "\<not> p_returned p"
  shows "ev \<noteq> StopClosed \<and> pooled_ok p' \<and>
    Run_select marshal send fwd ev (batch (deref p)) (intake (deref p)) (fwd_state (deref p))
      = Some (p_returned p', batch (deref p'), intake (deref p'), p_state p') \<and>
    deref p' = (deref p)\<lparr>fwd_returned := p_returned p', batch := batch (deref p'), intake := intake (deref p'),
      fwd_state := p_state p'\<rparr>"
proof (cases ev)
  case StopClosed
  with assms(2) show ?thesis by simp
next
  case TickReady
  with assms(2) have fl: "flush_pooled marshal send fwd p = Some p'" by simp
  from flush_pooled_simulates [OF assms(1) this] TickReady assms(3) show ?thesis by (simp add: deref_def)
next
  case IntakeReady
  show ?thesis
  proof (cases "p_intake p")
    case Nil
    with assms(2) IntakeReady obtain q where fl: "flush_pooled marshal send fwd p = Some q"
      and p': "p' = q\<lparr>p_returned := True\<rparr>" and cl: "p_closed p" by (auto split: if_splits)
    from flush_pooled_simulates [OF assms(1) fl] have "pooled_ok p'" "deref q = (deref p)\<lparr>batch := [], fwd_state := p_state q\<rparr>"
        "flush marshal send fwd (map (heap p) (p_batch p)) (p_state p) = Some ([], p_state q)"
      by (simp_all add: p' pooled_ok_def in_use_def)
    with Nil cl p' IntakeReady show ?thesis by (simp add: deref_def chan_recv_def)
  next
    case (Cons a as)
    let ?p = "p\<lparr>p_intake := as, p_batch := p_batch p @ [a]\<rparr>"
    note ok = pooled_ok_take [OF assms(1) Cons]
    show ?thesis
    proof (cases "int (length (p_batch ?p)) \<ge> batchSize fwd")
      case True
      with assms(2) IntakeReady Cons have "flush_pooled marshal send fwd ?p = Some p'" by (simp add: Let_def)
      from flush_pooled_simulates [OF ok this] True IntakeReady Cons assms(3) show ?thesis
        by (simp add: deref_def chan_recv_def Let_def)
    next
      case False
      with assms(2) IntakeReady Cons have "p' = ?p" by (simp add: Let_def)
      with False ok IntakeReady Cons assms(3) show ?thesis by (simp add: deref_def chan_recv_def Let_def)
    qed
  qed
qed

section \<open>Every step is a step of the receiver\<close>

lemma deref_read: "deref (p_read raw c p) = (set_counters c (deref p))\<lparr>history := p_history p @ [raw]\<rparr>"
  by (simp add: deref_def p_read_def p_set_counters_def set_counters_def)

lemma set_unused:
  assumes "a \<notin> set (in_use p)"
  shows "deref (set_packet a v p) = deref p"
  using assms by (cases "p_phase p") (auto simp: deref_def set_packet_def in_use_def map_upd_other)

lemma deref_Put [simp]: "deref (packet_Put a p) = deref p"
  by (simp add: deref_def packet_Put_def)

lemma deref_buffers [simp]: "deref (p\<lparr>bufferPool := bs\<rparr>) = deref p" "deref (p\<lparr>PacketPool := ps\<rparr>) = deref p"
  by (simp_all add: deref_def)

lemma subseq_keeps_distinct: "subseq xs ys \<Longrightarrow> distinct ys \<Longrightarrow> distinct xs"
proof (induction rule: list_emb.induct)
  case (list_emb_Cons2 x y xs ys)
  then show ?case using subseq_set [of xs ys] by auto
qed auto

lemma pooled_ok_step:
  assumes "pstep decode_into marshal send fwd p p'" "decodes decode_into unmarshal" "pooled_ok p"
  shows "pooled_ok p'"
  using assms(1)
proof cases
  case (p_bad_slice buffer bs raw packet c)
  with buffer_Get_length [OF p_bad_slice(4)] assms(3) readLoop_pooled_abstract(1) [OF assms(2)] show ?thesis
    by (auto simp: pooled_ok_def)
next
  case (p_rejected buffer bs a p1 raw c buffer' packet)
  have b: "length buffer = maxDatagramSize" "\<forall>b\<in>set bs. length b = maxDatagramSize"
    using buffer_Get_length [OF p_rejected(4)] assms(3) by (auto simp: pooled_ok_def)
  have "length buffer' = maxDatagramSize" using readLoop_pooled_abstract(2) [OF assms(2) b(1) p_rejected(6)] by simp
  with b packet_Get_ok [OF p_rejected(5) assms(3)] p_rejected(1,2) show ?thesis
    by (auto simp: pooled_ok_def in_use_def packet_Put_def set_packet_def p_read_def p_set_counters_def)
next
  case (p_accepted buffer bs a p1 raw c buffer' packet)
  have b: "length buffer = maxDatagramSize" "\<forall>b\<in>set bs. length b = maxDatagramSize"
    using buffer_Get_length [OF p_accepted(4)] assms(3) by (auto simp: pooled_ok_def)
  have "length buffer' = maxDatagramSize" using readLoop_pooled_abstract(3) [OF assms(2) b(1) p_accepted(6)] by simp
  with b packet_Get_ok [OF p_accepted(5) assms(3)] p_accepted(1,2) show ?thesis
    by (auto simp: pooled_ok_def in_use_def packet_Put_def set_packet_def p_read_def p_set_counters_def)
next
  case (p_forward ev)
  with Run_pooled_simulates [OF assms(3) p_forward(3,1)] show ?thesis by simp
next
  case (p_collect ps bs)
  with assms(3) subseq_set [OF p_collect(2)] subseq_set [OF p_collect(3)] show ?thesis
    by (auto simp: pooled_ok_def in_use_def dest: subseq_keeps_distinct)
qed (use assms(3) in \<open>auto simp: pooled_ok_def in_use_def packet_Put_def set_packet_def p_read_def p_set_counters_def\<close>)

lemma not_crashed: "pooled_ok p \<Longrightarrow> \<not> crashed p \<Longrightarrow> phase (deref p) \<noteq> Panicked q"
  by (cases "p_phase p") (auto simp: crashed_def pooled_ok_def deref_def)

text \<open>The packet is filled before anybody else can see it.\<close>

lemma deref_fill:
  assumes "a \<notin> set (in_use p)" "p_phase p = PReading"
  shows "deref (set_packet a v ((p_read raw c p)\<lparr>bufferPool := bs\<rparr>))
      = (set_counters c (deref p))\<lparr>history := history (deref p) @ [raw]\<rparr>"
    and "deref (set_packet a v ((p_read raw c p)\<lparr>bufferPool := bs, p_phase := PHolding a\<rparr>))
      = (set_counters c (deref p))\<lparr>history := history (deref p) @ [raw], phase := Holding v\<rparr>"
  using assms
  by (simp_all add: deref_def set_packet_def p_read_def p_set_counters_def set_counters_def in_use_def map_upd_other)

lemma pstep_read_simulates:
  assumes "decodes decode_into unmarshal" "pooled_ok p" "p_phase p = PReading" "p_open p"
    and "buffer_Get (bufferPool p) buffer bs" "packet_Get p a p1"
    and read: "readLoop_pooled decode_into raw buffer (heap p1 a) (fs_counters (p_state p1)) = outcome"
  shows "outcome = Rejected c buffer' packet \<Longrightarrow> rstep unmarshal marshal send fwd (deref p)
      (deref (packet_Put a (set_packet a packet ((p_read raw c p1)\<lparr>bufferPool := buffer' # bs\<rparr>))))"
    and "outcome = Accepted c buffer' packet \<Longrightarrow> rstep unmarshal marshal send fwd (deref p)
      (deref (set_packet a packet ((p_read raw c p1)\<lparr>bufferPool := buffer' # bs, p_phase := PHolding a\<rparr>)))"
proof -
  have b: "length buffer = maxDatagramSize"
    using buffer_Get_length [OF assms(5)] assms(2) by (auto simp: pooled_ok_def)
  have got: "a \<notin> set (in_use p1)" "deref p1 = deref p" "p_state p1 = p_state p" "p_phase p1 = PReading"
    using packet_Get_ok [OF assms(6,2)] assms(3) by simp_all
  have d: "phase (deref p) = Reading" "udp_open (deref p)" "fwd_state (deref p) = p_state p"
    using assms(3,4) by (simp_all add: deref_def)
  show "rstep unmarshal marshal send fwd (deref p)
      (deref (packet_Put a (set_packet a packet ((p_read raw c p1)\<lparr>bufferPool := buffer' # bs\<rparr>))))"
    if "outcome = Rejected c buffer' packet"
    using readLoop_pooled_abstract(2) [OF assms(1) b read [unfolded that]] got d
    by (simp add: deref_fill [OF got(1,4)] rstep.read_drop)
  show "rstep unmarshal marshal send fwd (deref p)
      (deref (set_packet a packet ((p_read raw c p1)\<lparr>bufferPool := buffer' # bs, p_phase := PHolding a\<rparr>)))"
    if "outcome = Accepted c buffer' packet"
    using readLoop_pooled_abstract(3) [OF assms(1) b read [unfolded that]] got d
    by (simp add: deref_fill [OF got(1,4)] rstep.read_keep)
qed

lemma deref_drop:
  assumes "pooled_ok p" "p_phase p = PHolding a"
  shows "deref (packet_Put a (set_packet a v ((p_set_counters c p)\<lparr>p_phase := PReading\<rparr>)))
    = (set_counters c (deref p))\<lparr>phase := Reading\<rparr>"
  using assms
  by (simp add: pooled_ok_def in_use_def deref_def set_packet_def packet_Put_def p_set_counters_def set_counters_def
      map_upd_other)

lemma pstep_simulates:
  assumes "pstep decode_into marshal send fwd p p'" "decodes decode_into unmarshal" "pooled_ok p"
  shows "rstep unmarshal marshal send fwd (deref p) (deref p') \<or> deref p' = deref p"
  using assms(1)
proof cases
  case (p_oversized raw buffer packet c)
  have "rstep unmarshal marshal send fwd (deref p) ((set_counters c (deref p))\<lparr>history := history (deref p) @ [raw]\<rparr>)"
    using p_oversized(2,3) readLoop_pooled_Oversized [OF p_oversized(4)]
    by (intro rstep.read_drop) (simp_all add: deref_def)
  then show ?thesis using p_oversized(1) by (simp add: deref_read) (simp add: deref_def)
next
  case (p_bad_slice buffer bs raw packet c)
  with buffer_Get_length [OF p_bad_slice(4)] assms(3) readLoop_pooled_abstract(1) [OF assms(2)] show ?thesis
    by (auto simp: pooled_ok_def)
next
  case (p_rejected buffer bs a p1 raw c buffer' packet)
  with pstep_read_simulates(1) [OF assms(2,3) p_rejected(2-6)] show ?thesis by simp
next
  case (p_accepted buffer bs a p1 raw c buffer' packet)
  with pstep_read_simulates(2) [OF assms(2,3) p_accepted(2-6)] show ?thesis by simp
next
  case (p_queued a)
  then show ?thesis
    using rstep.offer_queued [of "deref p" "heap p a" "(intake (deref p))\<lparr>buf := buf (intake (deref p)) @ [heap p a]\<rparr>"]
    by (simp add: deref_def readLoop_offer_def try_send_def)
next
  case (p_dropped a)
  then show ?thesis
    using rstep.offer_dropped [of "deref p" "heap p a" "AddIntakeDropped (fs_counters (p_state p))"]
      deref_drop [OF assms(3) p_dropped(2)]
    by (simp add: readLoop_offer_def try_send_def) (simp add: deref_def)
next
  case (p_crashed a)
  then show ?thesis
    using rstep.offer_crashed [of "deref p" "heap p a"] by (simp add: deref_def readLoop_offer_def try_send_def)
next
  case p_read_closed
  then show ?thesis using rstep.read_closed [of "deref p"] by (simp add: deref_def)
next
  case (p_forward ev)
  have "rstep unmarshal marshal send fwd (deref p) ((deref p)\<lparr>fwd_returned := p_returned p', batch := batch (deref p'),
      intake := intake (deref p'), fwd_state := p_state p'\<rparr>)"
    using Run_pooled_simulates [OF assms(3) p_forward(3,1)] p_forward(1) not_crashed [OF assms(3) p_forward(2)]
    by (intro rstep.forward) (auto simp: deref_def)
  then show ?thesis using Run_pooled_simulates [OF assms(3) p_forward(3,1)] by simp
next
  case p_close_udp
  then show ?thesis
    using rstep.close_udp [of "deref p"] not_crashed [OF assms(3)] by (simp add: deref_def)
next
  case p_close_intake
  then show ?thesis
    using rstep.close_intake [of "deref p"] not_crashed [OF assms(3)] by (simp add: deref_def)
next
  case (p_collect ps bs)
  then show ?thesis by (simp add: deref_def)
qed

lemma pooled_ok_start: "pooled_ok (pooled_start queueDepth s)"
  by (simp add: pooled_ok_def pooled_start_def in_use_def)

lemma deref_start: "deref (pooled_start queueDepth s) = main_start queueDepth s"
  by (simp add: deref_def pooled_start_def main_start_def)

lemma pooled_reachable:
  assumes "preachable decode_into marshal send fwd queueDepth s p" "decodes decode_into unmarshal"
  shows "pooled_ok p \<and> reachable unmarshal marshal send fwd queueDepth s (deref p)"
  using assms(1)
proof induction
  case p_start
  show ?case by (simp add: pooled_ok_start deref_start reachable.start)
next
  case (p_step p p')
  from pstep_simulates [OF p_step.hyps(2) assms(2)] p_step.IH
  have "rstep unmarshal marshal send fwd (deref p) (deref p') \<or> deref p' = deref p" by blast
  with p_step.IH have "reachable unmarshal marshal send fwd queueDepth s (deref p')"
    by (auto intro: reachable.step)
  with pooled_ok_step [OF p_step.hyps(2) assms(2)] p_step.IH show ?case by blast
qed

section \<open>Properties\<close>

text \<open>C12: recycling packets and buffers through \<open>sync.Pool\<close> can not be seen. Following the pointers, every state that
  the receiver reaches with its pools is a state of the receiver that makes a new packet for each datagram, and each of its
  steps is a step of that receiver or leaves it alone, whichever objects the pools return, whatever an earlier use left in
  them, and whatever the garbage collector takes out. It rests on the reset before each use, on the copies of the datagram and of the
  content, and on a packet being put back only when nobody else has it.\<close>

theorem pooled_receiver_refines:
  assumes "decodes decode_into unmarshal" "preachable decode_into marshal send fwd queueDepth s p"
  shows "reachable unmarshal marshal send fwd queueDepth s (deref p) \<and>
    (\<forall>p'. pstep decode_into marshal send fwd p p' \<longrightarrow>
       rstep unmarshal marshal send fwd (deref p) (deref p') \<or> deref p' = deref p)"
  using pooled_reachable [OF assms(2,1)] pstep_simulates [OF _ assms(1)] by blast

text \<open>C14: the receiver's heap stays well formed. Every packet in the batch, in the queue, in the hands of the read
  loop or in the pool has been allocated and is in exactly one of these places (no packet is put back twice or while it is
  in use), every pooled buffer has its full length, and so the read loop's slice of the buffer is never out of range.\<close>

theorem pooled_receiver_well_formed:
  assumes "decodes decode_into unmarshal" "preachable decode_into marshal send fwd queueDepth s p"
  shows "distinct (p_batch p @ p_intake p @ held (p_phase p) @ PacketPool p) \<and>
    (\<forall>a\<in>set (p_batch p @ p_intake p @ held (p_phase p) @ PacketPool p). a < heap_next p) \<and>
    (\<forall>b\<in>set (bufferPool p). length b = maxDatagramSize) \<and> p_phase p \<noteq> SliceOutOfRange"
  using pooled_reachable [OF assms(2,1)] by (simp add: pooled_ok_def in_use_def)

section \<open>A run\<close>

text \<open>A datagram is accepted into a new packet, queued and sent; the next one reuses the packet.\<close>

definition demo_decode :: "byte list \<Rightarrow> Packet \<Rightarrow> error option \<times> Packet" where
  "demo_decode raw packet = (case unmarshal_packet raw of Inl err \<Rightarrow> (Some err, packet) | Inr q \<Rightarrow> (None, q))"

lemma demo_decodes: "decodes demo_decode unmarshal_packet"
  by (simp add: decodes_def demo_decode_def split: sum.split)

abbreviation demo_pstep :: "(attempt list \<times> net \<times> Client) pooled_receiver \<Rightarrow> (attempt list \<times> net \<times> Client) pooled_receiver \<Rightarrow> bool" where
  "demo_pstep \<equiv> pstep demo_decode marshal_batch (client_send (\<lambda>c. None)) (NewForwarder 1 1 100)"

abbreviation demo_preachable :: "(attempt list \<times> net \<times> Client) pooled_receiver \<Rightarrow> bool" where
  "demo_preachable \<equiv> preachable demo_decode marshal_batch (client_send (\<lambda>c. None)) (NewForwarder 1 1 100) 4 demo_session"

lemma demo_read:
  "length buffer = maxDatagramSize \<Longrightarrow>
   readLoop_pooled demo_decode demo_datagram buffer packet c = Accepted (AddReceived c) (go_copy buffer demo_datagram) demo_packet"
  using demo_accepted
  by (auto simp: readLoop_pooled_eq [OF demo_decodes] accepts_def split: if_splits sum.splits)

lemma demo_pooled:
  "\<exists>p. demo_preachable p \<and> p_phase p = PHolding 0 \<and> heap_next p = 1 \<and> p_history p = [demo_datagram, demo_datagram] \<and>
     heap p 0 = demo_packet"
proof -
  let ?c1 = "AddReceived zero_Counters"
  let ?b = "go_copy new_buffer demo_datagram"
  let ?p0 = "pooled_start 4 demo_session"
  let ?n = "?p0\<lparr>heap := (heap ?p0)(0 := zero_Packet), heap_next := 1\<rparr>"
  let ?p1 = "set_packet 0 demo_packet ((p_read demo_datagram ?c1 ?n)\<lparr>bufferPool := [?b], p_phase := PHolding 0\<rparr>)"
  let ?p2 = "?p1\<lparr>p_intake := [0], p_phase := PReading\<rparr>"
  have "length new_buffer = maxDatagramSize" by (simp add: new_buffer_def)
  note read = demo_read [OF this]
  have "packet_Get ?p0 0 ?n" using fresh_packet [of ?p0] by (simp add: pooled_start_def)
  then have s1: "demo_pstep ?p0 ?p1"
    by (rule p_accepted [where buffer = new_buffer and bs = "[]", rotated 3]) (simp_all add: pooled_start_def fresh_buffer read)
  have s2: "demo_pstep ?p1 ?p2"
    using p_queued [of ?p1 0] by (simp add: pooled_start_def set_packet_def p_read_def p_set_counters_def)
  obtain s where send: "client_send (\<lambda>c. None) demo_session demo_payload = Some (None, s)" using demo_send by blast
  let ?st = "\<lparr>fs_counters = AddBatchSent (AddForwarded ?c1), fs_sender = s,
      fs_log = [BatchSent 1 (distinctFileHashes [demo_packet])]\<rparr>"
  let ?p3 = "?p2\<lparr>heap := (heap ?p2)(0 := zero_Packet), PacketPool := [0], p_intake := [], p_state := ?st\<rparr>"
  have "Run_pooled marshal_batch (client_send (\<lambda>c. None)) (NewForwarder 1 1 100) IntakeReady ?p2 = Some ?p3"
    by (simp add: pooled_start_def set_packet_def p_read_def p_set_counters_def NewForwarder_def flush_pooled_def
        flushBatch_def demo_marshal send recycle_state Let_def) (auto simp: fun_upd_def)
  then have s3: "demo_pstep ?p2 ?p3"
    by (rule p_forward [rotated 2])
      (simp_all add: crashed_def pooled_start_def set_packet_def p_read_def p_set_counters_def)
  let ?n3 = "?p3\<lparr>PacketPool := []\<rparr>"
  let ?p4 = "set_packet 0 demo_packet ((p_read demo_datagram (AddReceived (fs_counters (p_state ?n3))) ?n3)
      \<lparr>bufferPool := [?b, ?b], p_phase := PHolding 0\<rparr>)"
  have "packet_Get ?p3 0 ?n3" using pooled_packet [of 0 ?p3] by simp
  then have s4: "demo_pstep ?p3 ?p4"
    by (rule p_accepted [where buffer = new_buffer and bs = "[?b]", rotated 3])
      (simp_all add: pooled_start_def set_packet_def p_read_def p_set_counters_def fresh_buffer read)
  have "demo_preachable ?p4" using s1 s2 s3 s4 by (meson preachable.intros)
  then show ?thesis
    by (intro exI [of _ ?p4]) (simp add: set_packet_def p_read_def p_set_counters_def pooled_start_def)
qed

theorem pooled_receiver_refines_witness:
  "\<exists>p. demo_preachable p \<and> heap_next p = 1 \<and> p_history p = [demo_datagram, demo_datagram] \<and>
     demo_reach (deref p) \<and> phase (deref p) = Holding demo_packet"
proof -
  obtain p where p: "demo_preachable p" "p_phase p = PHolding 0" "heap_next p = 1"
      "p_history p = [demo_datagram, demo_datagram]" "heap p 0 = demo_packet" using demo_pooled by blast
  from pooled_receiver_refines [OF demo_decodes p(1)] have "demo_reach (deref p)" by blast
  with p show ?thesis by (auto simp: deref_def)
qed

theorem pooled_receiver_well_formed_witness:
  "\<exists>p. demo_preachable p \<and> held (p_phase p) = [0] \<and> distinct (p_batch p @ p_intake p @ held (p_phase p) @ PacketPool p) \<and>
     p_phase p \<noteq> SliceOutOfRange"
proof -
  obtain p where p: "demo_preachable p" "p_phase p = PHolding 0" using demo_pooled by blast
  from pooled_receiver_well_formed [OF demo_decodes p(1)] p show ?thesis by (intro exI [of _ p]) simp
qed

end
