(* ===== verification/Receiver_Live.thy ===== *)
theory Receiver_Live
  imports Links
begin

text \<open>
  The receiver process again, \<open>receivers/cmd/main.go\<close>, \<open>receivers/internal/forwarder\<close> and
  \<open>receivers/internal/sessionClient\<close>, in smaller steps. Theory \<open>Receiver\<close> takes one round of the forwarder, with whatever the
  batch sender does, as one step; here \<open>SendBatch\<close> is cut where another goroutine can come between: at the mutex, at
  each look at the context, around the dial, the timer and the write. The read loop goes on meanwhile, and
  \<open>main\<close> on a signal closes the socket, then the channel, waits for the workers or for the grace timer, and then cancels the context
  and takes the mutex to close the connection. Lemmas: an invariant of where the goroutines can be, and the accounting
  and order of packets at every point; the end of the process is the subject of theory \<open>Receiver_Shutdown\<close>.
\<close>

section \<open>Where the goroutines are\<close>

text \<open>The points of \<open>SendBatch\<close> at which it can be overtaken: before the mutex, at the check of the context, at the top
  of the reconnect loop, in \<open>DialContext\<close>, at the timer, and in the write.\<close>

datatype send_pc = Locking | Checking | Reconnecting | Dialing | Waiting | Writing

text \<open>A batch on its way: whether \<open>Run\<close> returns after this flush, the packets, and the marshalled batch.\<close>

record flight =
  last_flush :: bool
  fl_packets :: "Packet list"
  fl_payload :: "byte list"

datatype fwd_pc = Selecting | Sending send_pc flight | Returned

text \<open>\<open>main\<close>: waiting for a signal; the socket closed; at the select, with the channel closed too; in the forced \<open>Close\<close>, its context
  cancelled, at the mutex; waiting for the workers; before the last \<open>Close\<close>; in it, at the mutex; returned.\<close>

datatype main_pc = Serving | Closing | AtSelect | ForcedClose | AwaitDone | LastCancel | LastClose | Ended

text \<open>
  \<open>mutex\<close> is \<open>client.mu\<close>: held from one step to another only by \<open>SendBatch\<close>, since \<open>Close\<close> does not wait for anything
  once it has it. \<open>peer_reads\<close> tells whether a write to the session manager can complete; it can not while the
  session manager leaves a full socket buffer unread.
\<close>

record live =
  queue :: chan
  filling :: "Packet list"
  fpc :: fwd_pc
  books :: "(net \<times> Client) fwd_state"
  mutex :: bool
  rphase :: read_phase
  udp_up :: bool
  mpc :: main_pc
  peer_reads :: bool
  datagrams :: "byte list list"

abbreviation s_net :: "live \<Rightarrow> net" where
  "s_net s \<equiv> fst (fs_sender (books s))"

abbreviation s_client :: "live \<Rightarrow> Client" where
  "s_client s \<equiv> snd (fs_sender (books s))"

definition set_client :: "net \<Rightarrow> Client \<Rightarrow> live \<Rightarrow> live" where
  "set_client w c s = s\<lparr>books := (books s)\<lparr>fs_sender := (w, c)\<rparr>\<rparr>"

definition set_books_counters :: "Counters \<Rightarrow> live \<Rightarrow> live" where
  "set_books_counters c s = s\<lparr>books := (books s)\<lparr>fs_counters := c\<rparr>\<rparr>"

definition cancel :: "live \<Rightarrow> live" where
  "cancel s = set_client (s_net s) ((s_client s)\<lparr>ctx_done := True\<rparr>) s"

definition serve_start :: "nat \<Rightarrow> string \<Rightarrow> live" where
  "serve_start queueDepth path =
     \<lparr>queue = \<lparr>buf = [], capacity = queueDepth, chan_closed = False\<rparr>, filling = [], fpc = Selecting,
      books = \<lparr>fs_counters = zero_Counters, fs_sender = (\<lparr>sockets = [], timers = []\<rparr>, NewClient path), fs_log = []\<rparr>,
      mutex = False, rphase = Reading, udp_up = True, mpc = Serving, peer_reads = True, datagrams = []\<rparr>"

section \<open>Steps of the forwarder\<close>

definition after_flush :: "bool \<Rightarrow> fwd_pc" where
  "after_flush ret = (if ret then Returned else Selecting)"

text \<open>The closure \<open>flush\<close> and \<open>flushBatch\<close> up to the call of \<open>SendBatch\<close>.\<close>

definition begin_flush :: "(SymbolBatch \<Rightarrow> byte list res) \<Rightarrow> Forwarder \<Rightarrow> bool \<Rightarrow> Packet list \<Rightarrow> live \<Rightarrow> live" where
  "begin_flush marshal fwd ret packets s =
     (if packets = [] then s\<lparr>filling := [], fpc := after_flush ret\<rparr>
      else
        (case marshal \<lparr>ReceiverId = receiverID fwd, SB_Packets = packets\<rparr> of
           Inl err \<Rightarrow>
             s\<lparr>filling := [], fpc := after_flush ret,
               books := (books s)\<lparr>fs_counters := AddIpcDropped (fs_counters (books s)),
                 fs_log := fs_log (books s) @ [MarshalFailed (length packets) err]\<rparr>\<rparr>
         | Inr bytes \<Rightarrow>
             s\<lparr>filling := [], fpc := Sending Locking \<lparr>last_flush = ret, fl_packets = packets, fl_payload = bytes\<rparr>\<rparr>))"

text \<open>\<open>SendBatch\<close> returns: the mutex is released and \<open>flushBatch\<close> does its accounting, in one step with the last thing
  \<open>SendBatch\<close> did.\<close>

definition finish_send :: "error option \<Rightarrow> flight \<Rightarrow> live \<Rightarrow> live" where
  "finish_send result fl s =
     (case result of
        Some err \<Rightarrow>
          s\<lparr>mutex := False, fpc := after_flush (last_flush fl),
            books := (books s)\<lparr>fs_counters := AddIpcDropped (fs_counters (books s)),
              fs_log := fs_log (books s) @ [SendFailed (length (fl_packets fl)) err]\<rparr>\<rparr>
      | None \<Rightarrow>
          s\<lparr>mutex := False, fpc := after_flush (last_flush fl),
            books := (books s)\<lparr>fs_counters := AddBatchSent ((AddForwarded ^^ length (fl_packets fl)) (fs_counters (books s))),
              fs_log := fs_log (books s) @ [BatchSent (length (fl_packets fl)) (distinctFileHashes (fl_packets fl))]\<rparr>\<rparr>)"

definition next_backoff :: "int \<Rightarrow> int" where
  "next_backoff b = (let b = b * 2 in if b > maxBackoff then maxBackoff else b)"

section \<open>The step relation\<close>

text \<open>
  The labels tell whose step it is: \<open>Arrival\<close> a datagram that the read loop reads, \<open>Tick\<close> a round of the forwarder's select
  that takes its ticker, \<open>Work\<close> any other step of a goroutine, \<open>Signal\<close> the signal on which \<open>main\<close> closes the socket,
  \<open>Grace\<close> the expiry of the grace timer, \<open>Stall\<close> and \<open>Resume\<close> the session manager's reading.
\<close>

datatype label = Arrival | Tick | Work | Signal | Grace | Stall | Resume

inductive sstep ::
  "(byte list \<Rightarrow> Packet res) \<Rightarrow> (SymbolBatch \<Rightarrow> byte list res) \<Rightarrow> (conn \<Rightarrow> error option) \<Rightarrow> Forwarder \<Rightarrow> live \<Rightarrow> label \<Rightarrow> live \<Rightarrow> bool"
  for unmarshal marshal conn_Close fwd where
  live_drop: "rphase s = Reading \<Longrightarrow> udp_up s \<Longrightarrow>
    readLoop_accept unmarshal raw (fs_counters (books s)) = (c, None) \<Longrightarrow>
    sstep unmarshal marshal conn_Close fwd s Arrival (set_books_counters c (s\<lparr>datagrams := datagrams s @ [raw]\<rparr>))"
| live_keep: "rphase s = Reading \<Longrightarrow> udp_up s \<Longrightarrow>
    readLoop_accept unmarshal raw (fs_counters (books s)) = (c, Some packet) \<Longrightarrow>
    sstep unmarshal marshal conn_Close fwd s Arrival
      (set_books_counters c (s\<lparr>datagrams := datagrams s @ [raw], rphase := Holding packet\<rparr>))"
| live_queued: "rphase s = Holding packet \<Longrightarrow> readLoop_offer (queue s) packet (fs_counters (books s)) = Queued ch \<Longrightarrow>
    sstep unmarshal marshal conn_Close fwd s Work (s\<lparr>queue := ch, rphase := Reading\<rparr>)"
| live_full: "rphase s = Holding packet \<Longrightarrow> readLoop_offer (queue s) packet (fs_counters (books s)) = Dropped c \<Longrightarrow>
    sstep unmarshal marshal conn_Close fwd s Work (set_books_counters c (s\<lparr>rphase := Reading\<rparr>))"
| live_crashed: "rphase s = Holding packet \<Longrightarrow> readLoop_offer (queue s) packet (fs_counters (books s)) = Crashed \<Longrightarrow>
    sstep unmarshal marshal conn_Close fwd s Work (s\<lparr>rphase := Panicked packet\<rparr>)"
| live_returns: "rphase s = Reading \<Longrightarrow> \<not> udp_up s \<Longrightarrow>
    sstep unmarshal marshal conn_Close fwd s Work (s\<lparr>rphase := Stopped\<rparr>)"
| take_packet: "fpc s = Selecting \<Longrightarrow> chan_recv (queue s) = Some (Some packet, ch) \<Longrightarrow>
    int (length (filling s @ [packet])) < batchSize fwd \<Longrightarrow>
    sstep unmarshal marshal conn_Close fwd s Work (s\<lparr>queue := ch, filling := filling s @ [packet]\<rparr>)"
| take_last: "fpc s = Selecting \<Longrightarrow> chan_recv (queue s) = Some (Some packet, ch) \<Longrightarrow>
    int (length (filling s @ [packet])) \<ge> batchSize fwd \<Longrightarrow>
    sstep unmarshal marshal conn_Close fwd s Work
      (begin_flush marshal fwd False (filling s @ [packet]) (s\<lparr>queue := ch\<rparr>))"
| take_closed: "fpc s = Selecting \<Longrightarrow> chan_recv (queue s) = Some (None, ch) \<Longrightarrow>
    sstep unmarshal marshal conn_Close fwd s Work (begin_flush marshal fwd True (filling s) s)"
| take_tick: "fpc s = Selecting \<Longrightarrow>
    sstep unmarshal marshal conn_Close fwd s Tick (begin_flush marshal fwd False (filling s) s)"
| lock: "fpc s = Sending Locking fl \<Longrightarrow> \<not> mutex s \<Longrightarrow>
    sstep unmarshal marshal conn_Close fwd s Work (s\<lparr>mutex := True, fpc := Sending Checking fl\<rparr>)"
| check_closed: "fpc s = Sending Checking fl \<Longrightarrow> ctx_done (s_client s) \<Longrightarrow>
    sstep unmarshal marshal conn_Close fwd s Work (finish_send (Some (Errorf ''sessionclient: closed'' [])) fl s)"
| check_open: "fpc s = Sending Checking fl \<Longrightarrow> \<not> ctx_done (s_client s) \<Longrightarrow>
    sstep unmarshal marshal conn_Close fwd s Work
      (s\<lparr>fpc := Sending (if connection (s_client s) = None then Reconnecting else Writing) fl\<rparr>)"
| reconnect_closed: "fpc s = Sending Reconnecting fl \<Longrightarrow> ctx_done (s_client s) \<Longrightarrow>
    sstep unmarshal marshal conn_Close fwd s Work (finish_send (Some (closed_error (s_client s))) fl s)"
| reconnect_dial: "fpc s = Sending Reconnecting fl \<Longrightarrow> \<not> ctx_done (s_client s) \<Longrightarrow>
    sstep unmarshal marshal conn_Close fwd s Work (s\<lparr>fpc := Sending Dialing fl\<rparr>)"
| dial_ok: "fpc s = Sending Dialing fl \<Longrightarrow> tx conn = [] \<Longrightarrow>
    sstep unmarshal marshal conn_Close fwd s Work
      (set_client ((s_net s)\<lparr>sockets := sockets (s_net s) @ [conn]\<rparr>)
        ((s_client s)\<lparr>connection := Some (length (sockets (s_net s))), currentBackoff := initialBackoff\<rparr>)
        (s\<lparr>fpc := Sending Writing fl\<rparr>))"
| dial_failed: "fpc s = Sending Dialing fl \<Longrightarrow>
    sstep unmarshal marshal conn_Close fwd s Work
      (set_client ((s_net s)\<lparr>timers := timers (s_net s) @ [currentBackoff (s_client s)]\<rparr>) (s_client s)
        (s\<lparr>fpc := Sending Waiting fl\<rparr>))"
| wait_closed: "fpc s = Sending Waiting fl \<Longrightarrow> ctx_done (s_client s) \<Longrightarrow>
    sstep unmarshal marshal conn_Close fwd s Work (finish_send (Some (closed_error (s_client s))) fl s)"
| wait_over: "fpc s = Sending Waiting fl \<Longrightarrow>
    sstep unmarshal marshal conn_Close fwd s Work
      (set_client (s_net s) ((s_client s)\<lparr>currentBackoff := next_backoff (currentBackoff (s_client s))\<rparr>)
        (s\<lparr>fpc := Sending Reconnecting fl\<rparr>))"
| wrote: "fpc s = Sending Writing fl \<Longrightarrow> peer_reads s \<Longrightarrow>
    write_frame conn_Close (s_net s) (s_client s) (fl_payload fl) = (err, w, c) \<Longrightarrow>
    sstep unmarshal marshal conn_Close fwd s Work (finish_send err fl (set_client w c s))"
| signalled: "mpc s = Serving \<Longrightarrow>
    sstep unmarshal marshal conn_Close fwd s Signal (s\<lparr>udp_up := False, mpc := Closing\<rparr>)"
| intake_closed: "mpc s = Closing \<Longrightarrow>
    sstep unmarshal marshal conn_Close fwd s Work (s\<lparr>queue := (queue s)\<lparr>chan_closed := True\<rparr>, mpc := AtSelect\<rparr>)"
| done_in_time: "mpc s = AtSelect \<Longrightarrow> fpc s = Returned \<Longrightarrow> rphase s = Stopped \<Longrightarrow>
    sstep unmarshal marshal conn_Close fwd s Work (s\<lparr>mpc := LastCancel\<rparr>)"
| grace_over: "mpc s = AtSelect \<Longrightarrow>
    sstep unmarshal marshal conn_Close fwd s Grace (cancel (s\<lparr>mpc := ForcedClose\<rparr>))"
| forced_close: "mpc s = ForcedClose \<Longrightarrow> \<not> mutex s \<Longrightarrow>
    sstep unmarshal marshal conn_Close fwd s Work
      (set_client (s_net s) (snd (Close conn_Close (s_net s) (s_client s))) (s\<lparr>mpc := AwaitDone\<rparr>))"
| workers_done: "mpc s = AwaitDone \<Longrightarrow> fpc s = Returned \<Longrightarrow> rphase s = Stopped \<Longrightarrow>
    sstep unmarshal marshal conn_Close fwd s Work (s\<lparr>mpc := LastCancel\<rparr>)"
| last_cancel: "mpc s = LastCancel \<Longrightarrow>
    sstep unmarshal marshal conn_Close fwd s Work (cancel (s\<lparr>mpc := LastClose\<rparr>))"
| last_close: "mpc s = LastClose \<Longrightarrow> \<not> mutex s \<Longrightarrow>
    sstep unmarshal marshal conn_Close fwd s Work
      (set_client (s_net s) (snd (Close conn_Close (s_net s) (s_client s))) (s\<lparr>mpc := Ended\<rparr>))"
| stall: "peer_reads s \<Longrightarrow> sstep unmarshal marshal conn_Close fwd s Stall (s\<lparr>peer_reads := False\<rparr>)"
| resume: "\<not> peer_reads s \<Longrightarrow> sstep unmarshal marshal conn_Close fwd s Resume (s\<lparr>peer_reads := True\<rparr>)"

text \<open>A panic in the read loop ends the process.\<close>

definition alive :: "live \<Rightarrow> bool" where
  "alive s = (case rphase s of Panicked p \<Rightarrow> False | _ \<Rightarrow> True)"

inductive sruns ::
  "(byte list \<Rightarrow> Packet res) \<Rightarrow> (SymbolBatch \<Rightarrow> byte list res) \<Rightarrow> (conn \<Rightarrow> error option) \<Rightarrow> Forwarder \<Rightarrow> live \<Rightarrow> label list \<Rightarrow> live \<Rightarrow> bool"
  for unmarshal marshal conn_Close fwd where
  none: "sruns unmarshal marshal conn_Close fwd s [] s"
| more: "alive s \<Longrightarrow> sstep unmarshal marshal conn_Close fwd s l s' \<Longrightarrow> sruns unmarshal marshal conn_Close fwd s' ls s'' \<Longrightarrow>
    sruns unmarshal marshal conn_Close fwd s (l # ls) s''"

inductive_simps sruns_Nil [simp]: "sruns unmarshal marshal conn_Close fwd s [] s'"
inductive_simps sruns_Cons: "sruns unmarshal marshal conn_Close fwd s (l # ls) s'"

section \<open>Invariant\<close>

fun intake_shut :: "main_pc \<Rightarrow> bool" where
  "intake_shut Serving = False"
| "intake_shut Closing = False"
| "intake_shut AtSelect = True"
| "intake_shut ForcedClose = True"
| "intake_shut AwaitDone = True"
| "intake_shut LastCancel = True"
| "intake_shut LastClose = True"
| "intake_shut Ended = True"

fun holds_mutex :: "fwd_pc \<Rightarrow> bool" where
  "holds_mutex (Sending pc fl) = (pc \<noteq> Locking)"
| "holds_mutex Selecting = False"
| "holds_mutex Returned = False"

fun fwd_ok :: "fwd_pc \<Rightarrow> Packet list \<Rightarrow> Packet list \<Rightarrow> bool \<Rightarrow> nat option \<Rightarrow> bool" where
  "fwd_ok (Sending pc fl) fill waiting shut fd \<longleftrightarrow>
     fill = [] \<and> (last_flush fl \<longrightarrow> waiting = [] \<and> shut) \<and> (pc = Writing \<longrightarrow> fd \<noteq> None)"
| "fwd_ok Selecting fill waiting shut fd \<longleftrightarrow> True"
| "fwd_ok Returned fill waiting shut fd \<longleftrightarrow> fill = [] \<and> waiting = [] \<and> shut"

text \<open>After the forced \<open>Close\<close> the forwarder can not get past the check of the context.\<close>

fun before_check :: "fwd_pc \<Rightarrow> bool" where
  "before_check (Sending pc fl) \<longleftrightarrow> pc = Locking \<or> pc = Checking"
| "before_check Selecting \<longleftrightarrow> True"
| "before_check Returned \<longleftrightarrow> True"

fun main_ok :: "main_pc \<Rightarrow> fwd_pc \<Rightarrow> read_phase \<Rightarrow> Client \<Rightarrow> bool" where
  "main_ok Serving f r cl \<longleftrightarrow> r \<noteq> Stopped"
| "main_ok Closing f r cl \<longleftrightarrow> True"
| "main_ok AtSelect f r cl \<longleftrightarrow> True"
| "main_ok ForcedClose f r cl \<longleftrightarrow> ctx_done cl"
| "main_ok AwaitDone f r cl \<longleftrightarrow> ctx_done cl \<and> before_check f"
| "main_ok LastCancel f r cl \<longleftrightarrow> f = Returned \<and> r = Stopped"
| "main_ok LastClose f r cl \<longleftrightarrow> f = Returned \<and> r = Stopped \<and> ctx_done cl"
| "main_ok Ended f r cl \<longleftrightarrow> f = Returned \<and> r = Stopped \<and> ctx_done cl \<and> connection cl = None"

definition live_ok :: "nat \<Rightarrow> live \<Rightarrow> bool" where
  "live_ok q s \<longleftrightarrow>
     length (buf (queue s)) \<le> q \<and> capacity (queue s) = q \<and> chan_closed (queue s) = intake_shut (mpc s) \<and>
     udp_up s = (mpc s = Serving) \<and> mutex s = holds_mutex (fpc s) \<and>
     fwd_ok (fpc s) (filling s) (buf (queue s)) (intake_shut (mpc s)) (connection (s_client s)) \<and>
     main_ok (mpc s) (fpc s) (rphase s) (s_client s)"

lemma live_ok_start: "live_ok q (serve_start q path)"
  by (simp add: live_ok_def serve_start_def)

lemma write_frame_ctx: "write_frame conn_Close w c p = (err, w', c') \<Longrightarrow> ctx_done c' = ctx_done c"
  by (auto simp: write_frame_def closeConnectionLocked_def Let_def split: prod.splits option.splits)

lemma Close_client: "snd (Close conn_Close w c) = c\<lparr>connection := None, ctx_done := True\<rparr>"
  by (cases c) (simp add: Close_def closeConnectionLocked_def Let_def split: option.split)

lemma live_ok_flush:
  assumes "live_ok q s" "fpc s = Selecting" "length ps \<le> length (buf (queue s))" "ret \<longrightarrow> ps = [] \<and> intake_shut (mpc s)"
  shows "live_ok q (begin_flush marshal fwd ret packets (s\<lparr>queue := (queue s)\<lparr>buf := ps\<rparr>\<rparr>))"
proof (cases "mpc s")
qed (use assms in \<open>auto simp: live_ok_def begin_flush_def after_flush_def split: sum.split\<close>)

lemma live_ok_finish:
  assumes "live_ok q s" "fpc s = Sending pc fl" "ctx_done c = ctx_done (s_client s)"
  shows "live_ok q (finish_send err fl (set_client w c s))"
  by (cases "mpc s"; cases err) (use assms in \<open>auto simp: live_ok_def finish_send_def after_flush_def set_client_def\<close>)

lemma set_client_same [simp]: "set_client (s_net s) (s_client s) s = s"
  by (simp add: set_client_def)

lemma queue_same: "s\<lparr>queue := (queue s)\<lparr>buf := buf (queue s)\<rparr>\<rparr> = s"
  by simp

lemma live_ok_move:
  assumes "live_ok q s" "fpc s = Sending pc fl" "pc \<noteq> Locking" "pc' \<noteq> Locking" "ctx_done c = ctx_done (s_client s)"
    and "pc \<noteq> Checking \<or> \<not> ctx_done (s_client s)" "pc' = Writing \<longrightarrow> connection c \<noteq> None"
  shows "live_ok q (set_client w c (s\<lparr>fpc := Sending pc' fl\<rparr>))"
  by (cases "mpc s") (use assms in \<open>auto simp: live_ok_def set_client_def\<close>)

lemma chan_recv_cases:
  "chan_recv ch = Some (Some p, ch') \<Longrightarrow> \<exists>ps. buf ch = p # ps \<and> ch' = ch\<lparr>buf := ps\<rparr>"
  "chan_recv ch = Some (None, ch') \<Longrightarrow> buf ch = [] \<and> chan_closed ch \<and> ch' = ch"
  by (auto simp: chan_recv_def split: list.splits if_splits)

lemma live_ok_step:
  assumes "sstep unmarshal marshal conn_Close fwd s l s'" "live_ok q s"
  shows "live_ok q s'"
  using assms(1)
proof cases
  case (live_queued packet ch)
  with assms(2) readLoop_offer_cases(1) [OF live_queued(4)] show ?thesis
    by (cases "mpc s"; cases "fpc s") (simp_all add: live_ok_def)
next
  case (live_full packet c)
  from live_full(1-3) assms(2) show ?thesis
    by (cases "mpc s") (simp_all add: live_ok_def set_books_counters_def)
next
  case (live_drop raw c)
  from live_drop(1-4) assms(2) show ?thesis by (cases "mpc s") (simp_all add: live_ok_def set_books_counters_def)
next
  case (live_keep raw c packet)
  from live_keep(1-4) assms(2) show ?thesis by (cases "mpc s") (simp_all add: live_ok_def set_books_counters_def)
next
  case (take_packet packet ch)
  with assms(2) chan_recv_cases(1) [OF take_packet(4)] show ?thesis by (auto simp: live_ok_def)
next
  case (take_last packet ch)
  from chan_recv_cases(1) [OF take_last(4)] obtain ps where "buf (queue s) = packet # ps" "ch = (queue s)\<lparr>buf := ps\<rparr>" by blast
  with take_last(1-3) live_ok_flush [OF assms(2), of ps False] show ?thesis by simp
next
  case (take_closed ch)
  from chan_recv_cases(2) [OF take_closed(4)] assms(2) have "buf (queue s) = []" "intake_shut (mpc s)"
    by (simp_all add: live_ok_def)
  then have "live_ok q (begin_flush marshal fwd True (filling s) (s\<lparr>queue := (queue s)\<lparr>buf := buf (queue s)\<rparr>\<rparr>))"
    by (intro live_ok_flush [OF assms(2) take_closed(3)]) simp_all
  with take_closed(2) show ?thesis by (simp only: queue_same)
next
  case take_tick
  with live_ok_flush [OF assms(2), of "buf (queue s)" False] show ?thesis by simp
next
  case (check_closed fl)
  with live_ok_finish [OF assms(2) check_closed(3) refl, of _ "s_net s"] show ?thesis by simp
next
  case (reconnect_closed fl)
  with live_ok_finish [OF assms(2) reconnect_closed(3) refl, of _ "s_net s"] show ?thesis by simp
next
  case (wait_closed fl)
  with live_ok_finish [OF assms(2) wait_closed(3) refl, of _ "s_net s"] show ?thesis by simp
next
  case (wrote fl err w c)
  with live_ok_finish [OF assms(2) wrote(3) write_frame_ctx [OF wrote(5)]] show ?thesis by simp
next
  case (lock fl)
  with assms(2) show ?thesis by (cases "mpc s") (auto simp: live_ok_def)
next
  case (check_open fl)
  with live_ok_move [OF assms(2) check_open(3), of _ "s_client s" "s_net s"] show ?thesis
    by (auto simp: set_client_def)
next
  case (reconnect_dial fl)
  with live_ok_move [OF assms(2) reconnect_dial(3), of Dialing "s_client s" "s_net s"] show ?thesis
    by (auto simp: set_client_def)
next
  case (dial_ok fl conn)
  with live_ok_move [OF assms(2) dial_ok(3)] show ?thesis by simp
next
  case (dial_failed fl)
  with live_ok_move [OF assms(2) dial_failed(3)] show ?thesis by simp
next
  case (wait_over fl)
  with live_ok_move [OF assms(2) wait_over(3)] show ?thesis by simp
next
  case grace_over
  with assms(2) show ?thesis by (cases "fpc s") (simp_all add: live_ok_def cancel_def set_client_def)
next
  case forced_close
  with assms(2) show ?thesis by (cases "fpc s") (auto simp: live_ok_def set_client_def Close_client)
next
  case last_cancel
  with assms(2) show ?thesis by (auto simp: live_ok_def cancel_def set_client_def)
next
  case last_close
  with assms(2) show ?thesis by (auto simp: live_ok_def set_client_def Close_client)
next
  case live_returns
  with assms(2) show ?thesis by (cases "mpc s") (simp_all add: live_ok_def)
next
  case signalled
  with assms(2) show ?thesis by (cases "fpc s") (auto simp: live_ok_def)
next
  case intake_closed
  with assms(2) show ?thesis by (cases "fpc s") (auto simp: live_ok_def)
next
  case (live_crashed packet)
  from live_crashed(1-3) assms(2) show ?thesis by (cases "mpc s") (simp_all add: live_ok_def)
qed (use assms(2) in \<open>auto simp: live_ok_def\<close>)

lemma live_ok_run:
  "sruns unmarshal marshal conn_Close fwd s ls s' \<Longrightarrow> live_ok q s \<Longrightarrow> live_ok q s'"
  by (induction rule: sruns.induct) (auto intro: live_ok_step)

lemma sruns_append:
  "sruns unmarshal marshal conn_Close fwd s (ls1 @ ls2) s' \<longleftrightarrow>
   (\<exists>m. sruns unmarshal marshal conn_Close fwd s ls1 m \<and> sruns unmarshal marshal conn_Close fwd m ls2 s')"
  by (induction ls1 arbitrary: s) (auto simp: sruns_Cons)

section \<open>Packets and books\<close>

text \<open>The packets in the process, in the order in which they came, and those the session manager can read.\<close>

fun in_flight :: "fwd_pc \<Rightarrow> Packet list" where
  "in_flight (Sending pc fl) = fl_packets fl"
| "in_flight Selecting = []"
| "in_flight Returned = []"

definition live_packets :: "live \<Rightarrow> Packet list" where
  "live_packets s = in_flight (fpc s) @ filling s @ buf (queue s) @ pending (rphase s)"

abbreviation client_state :: "live \<Rightarrow> attempt list \<times> net \<times> Client" where
  "client_state s \<equiv> ([], fs_sender (books s))"

definition live_delivered :: "(byte list \<Rightarrow> SymbolBatch res) \<Rightarrow> live \<Rightarrow> Packet list" where
  "live_delivered unmarshalBatch s = delivered_packets unmarshalBatch (client_delivered (client_state s))"

lemma client_dialled:
  assumes "client_inv (as, w, client)" "tx conn = []"
  shows "client_inv (as, w\<lparr>sockets := sockets w @ [conn]\<rparr>,
      client\<lparr>connection := Some (length (sockets w)), currentBackoff := b\<rparr>) \<and>
    client_delivered (as, w\<lparr>sockets := sockets w @ [conn]\<rparr>, client') = client_delivered (as, w, client)"
proof -
  have "open_socket [] conn" using assms(2) by (simp add: open_socket_def)
  moreover from this have "batches conn = []" by (intro batches_broken open_socket_broken)
  ultimately show ?thesis
    using assms(1) open_socket_broken by (auto simp: client_inv_def client_delivered_def)
qed

locale live_codec = bounded_codec marshal unmarshalBatch
  for marshal :: "SymbolBatch \<Rightarrow> byte list res" and unmarshalBatch :: "byte list \<Rightarrow> SymbolBatch res" +
  fixes unmarshal :: "byte list \<Rightarrow> Packet res"
    and conn_Close :: "conn \<Rightarrow> error option"
    and fwd :: Forwarder
begin

definition flight_ok :: "fwd_pc \<Rightarrow> bool" where
  "flight_ok f \<longleftrightarrow> (\<forall>pc fl. f = Sending pc fl \<longrightarrow>
     marshal \<lparr>ReceiverId = receiverID fwd, SB_Packets = fl_packets fl\<rparr> = Inr (fl_payload fl))"

definition live_inv :: "live \<Rightarrow> bool" where
  "live_inv s \<longleftrightarrow>
     client_inv (client_state s) \<and> flight_ok (fpc s) \<and>
     (let c = fs_counters (books s); ds = live_delivered unmarshalBatch s in
      received c = of_nat (length (datagrams s)) \<and>
      received c = settled c + of_nat (lost (fs_log (books s))) + of_nat (length (live_packets s)) \<and>
      forwarded c = of_nat (length ds) \<and>
      subseq (ds @ live_packets s) (concat (map (accepts unmarshal) (datagrams s))))"

lemma live_inv_start: "live_inv (serve_start q path)"
  by (simp add: live_inv_def serve_start_def flight_ok_def client_inv_def NewClient_def live_delivered_def
      client_delivered_def live_packets_def zero_Counters_def settled_def)

text \<open>Steps that touch neither packets nor counters nor sockets.\<close>

lemma live_inv_quiet:
  assumes "live_inv s" "books s' = books s" "live_packets s' = live_packets s" "datagrams s' = datagrams s"
    and "flight_ok (fpc s')"
  shows "live_inv s'"
  using assms by (simp add: live_inv_def live_delivered_def)

text \<open>The client changes, but what is on the sockets does not.\<close>

lemma live_inv_client:
  assumes "live_inv s" "client_inv ([], w, c) \<and> client_delivered ([], w, c) = client_delivered ([], s_net s, s_client s)"
    and "books s' = (books s)\<lparr>fs_sender := (w, c)\<rparr>" "live_packets s' = live_packets s" "datagrams s' = datagrams s"
    and "flight_ok (fpc s')"
  shows "live_inv s'"
  using assms by (simp add: live_inv_def live_delivered_def)

lemma client_change:
  assumes "client_inv ([], w, c)" "sockets w' = sockets w" "connection c' = connection c \<or> connection c' = None"
  shows "client_inv ([], w', c') \<and> client_delivered ([], w', c') = client_delivered ([], w, c)"
  using assms by (auto simp: client_inv_def client_delivered_def)

text \<open>The packets of a flight leave the process, delivered or lost.\<close>

lemma live_inv_finish:
  assumes "live_inv s" "fpc s = Sending pc fl" "client_inv ([], w, c)"
    and "client_delivered ([], w, c) = client_delivered (client_state s) @ (if err = None then [fl_payload fl] else [])"
  shows "live_inv (finish_send err fl (set_client w c s))"
proof -
  let ?ds = "live_delivered unmarshalBatch s"
  let ?s' = "finish_send err fl (set_client w c s)"
  from assms(1,2) have "marshal \<lparr>ReceiverId = receiverID fwd, SB_Packets = fl_packets fl\<rparr> = Inr (fl_payload fl)"
    by (simp add: live_inv_def flight_ok_def)
  from unmarshal_marshal [OF this]
  have ds: "live_delivered unmarshalBatch ?s' = ?ds @ (if err = None then fl_packets fl else [])"
    using assms(4)
    by (cases err) (simp_all add: finish_send_def set_client_def live_delivered_def delivered_packets_def)
  have ps: "live_packets s = fl_packets fl @ live_packets ?s'"
    using assms(2) by (cases err) (simp_all add: live_packets_def finish_send_def set_client_def after_flush_def)
  have sub: "subseq (?ds @ fl_packets fl @ live_packets ?s') (concat (map (accepts unmarshal) (datagrams s)))"
    using assms(1) ps by (simp add: live_inv_def Let_def)
  show ?thesis
  proof (cases err)
    case None
    with assms(1,3) ds ps sub show ?thesis
      by (auto simp: live_inv_def Let_def finish_send_def set_client_def flight_ok_def after_flush_def Add_defs settled_def
          algebra_simps)
  next
    case (Some e)
    with assms(1,3) ds ps subseq_drop_middle [OF sub] show ?thesis
      by (auto simp: live_inv_def Let_def finish_send_def set_client_def flight_ok_def after_flush_def Add_defs settled_def
          algebra_simps)
  qed
qed

lemma live_inv_flush:
  assumes "live_inv s" "fpc s = Selecting" "packets @ buf ch = filling s @ buf (queue s)"
  shows "live_inv (begin_flush marshal fwd ret packets (s\<lparr>queue := ch\<rparr>))"
proof (cases "packets = []")
  case True
  with assms show ?thesis
    by (intro live_inv_quiet [OF assms(1)])
      (simp_all add: begin_flush_def live_packets_def after_flush_def flight_ok_def)
next
  case False
  show ?thesis
  proof (cases "marshal \<lparr>ReceiverId = receiverID fwd, SB_Packets = packets\<rparr>")
    case (Inr bytes)
    with False assms show ?thesis
      by (intro live_inv_quiet [OF assms(1)]) (simp_all add: begin_flush_def live_packets_def flight_ok_def flip: append_assoc)
  next
    case (Inl err)
    let ?s' = "begin_flush marshal fwd ret packets (s\<lparr>queue := ch\<rparr>)"
    have ps: "live_packets s = packets @ live_packets ?s'"
      using False Inl assms(2,3) by (simp add: begin_flush_def live_packets_def after_flush_def flip: append_assoc)
    then have "subseq (live_delivered unmarshalBatch s @ packets @ live_packets ?s')
        (concat (map (accepts unmarshal) (datagrams s)))"
      using assms(1) by (simp add: live_inv_def Let_def)
    from subseq_drop_middle [OF this] False Inl assms(1) ps show ?thesis
      by (auto simp: live_inv_def Let_def begin_flush_def flight_ok_def after_flush_def live_delivered_def Add_defs
          settled_def algebra_simps)
  qed
qed

lemma live_inv_read:
  assumes "live_inv s" "rphase s = Reading"
  shows "readLoop_accept unmarshal raw (fs_counters (books s)) = (c, None) \<Longrightarrow>
      live_inv (set_books_counters c (s\<lparr>datagrams := datagrams s @ [raw]\<rparr>))"
    and "readLoop_accept unmarshal raw (fs_counters (books s)) = (c, Some packet) \<Longrightarrow>
      live_inv (set_books_counters c (s\<lparr>datagrams := datagrams s @ [raw], rphase := Holding packet\<rparr>))"
proof -
  show "live_inv (set_books_counters c (s\<lparr>datagrams := datagrams s @ [raw]\<rparr>))"
    if "readLoop_accept unmarshal raw (fs_counters (books s)) = (c, None)"
    using assms readLoop_accept_None [OF that]
    by (auto simp: live_inv_def Let_def set_books_counters_def live_packets_def live_delivered_def subseq_snoc algebra_simps)
  show "live_inv (set_books_counters c (s\<lparr>datagrams := datagrams s @ [raw], rphase := Holding packet\<rparr>))"
    if "readLoop_accept unmarshal raw (fs_counters (books s)) = (c, Some packet)"
  proof -
    from readLoop_accept_Some [OF that] have "accepts unmarshal raw = [packet]" "c = AddReceived (fs_counters (books s))"
      by simp_all
    moreover have "subseq ((live_delivered unmarshalBatch s @ live_packets s) @ [packet])
        (concat (map (accepts unmarshal) (datagrams s)) @ [packet])"
      using assms(1) subseq_both_snoc [of "live_delivered unmarshalBatch s" "live_packets s" "[]"]
      by (simp add: live_inv_def Let_def)
    ultimately show ?thesis
      using assms
      by (auto simp: live_inv_def Let_def set_books_counters_def live_packets_def live_delivered_def Add_defs settled_def
          algebra_simps)
  qed
qed

lemma live_inv_offer:
  assumes "live_inv s" "rphase s = Holding packet"
  shows "readLoop_offer (queue s) packet (fs_counters (books s)) = Queued ch \<Longrightarrow> live_inv (s\<lparr>queue := ch, rphase := Reading\<rparr>)"
    and "readLoop_offer (queue s) packet (fs_counters (books s)) = Dropped c \<Longrightarrow>
      live_inv (set_books_counters c (s\<lparr>rphase := Reading\<rparr>))"
proof -
  show "live_inv (s\<lparr>queue := ch, rphase := Reading\<rparr>)"
    if "readLoop_offer (queue s) packet (fs_counters (books s)) = Queued ch"
    using assms readLoop_offer_cases(1) [OF that]
    by (intro live_inv_quiet [OF assms(1)]) (auto simp: live_packets_def live_inv_def)
  have "subseq ((live_delivered unmarshalBatch s @ in_flight (fpc s)) @ (filling s @ buf (queue s)) @ [] @ [packet])
      (concat (map (accepts unmarshal) (datagrams s)))"
    using assms by (simp add: live_inv_def live_packets_def Let_def)
  note sub = subseq_drop_last [OF this]
  show "live_inv (set_books_counters c (s\<lparr>rphase := Reading\<rparr>))"
    if "readLoop_offer (queue s) packet (fs_counters (books s)) = Dropped c"
    using assms sub readLoop_offer_cases(2) [OF that]
    by (auto simp: live_inv_def Let_def set_books_counters_def live_packets_def live_delivered_def Add_defs settled_def
        algebra_simps)
qed

lemma live_inv_step:
  assumes "sstep unmarshal marshal conn_Close fwd s l s'" "live_inv s" "live_ok q s"
  shows "live_inv s'"
proof -
  have cl: "client_inv ([], s_net s, s_client s)" using assms(2) by (simp add: live_inv_def)
  have fl: "flight_ok (fpc s)" using assms(2) by (simp add: live_inv_def)
  note same = client_change [OF cl]
  from assms(1) show ?thesis
  proof cases
    case (live_drop raw c)
    with live_inv_read(1) [OF assms(2)] show ?thesis by simp
  next
    case (live_keep raw c packet)
    with live_inv_read(2) [OF assms(2)] show ?thesis by simp
  next
    case (live_queued packet ch)
    with live_inv_offer(1) [OF assms(2)] show ?thesis by simp
  next
    case (live_full packet c)
    with live_inv_offer(2) [OF assms(2)] show ?thesis by simp
  next
    case (take_packet packet ch)
    with chan_recv_cases(1) [OF take_packet(4)] show ?thesis
      by (intro live_inv_quiet [OF assms(2)]) (auto simp: live_packets_def flight_ok_def)
  next
    case (take_last packet ch)
    with chan_recv_cases(1) [OF take_last(4)] live_inv_flush [OF assms(2) take_last(3), of "filling s @ [packet]" ch]
    show ?thesis by auto
  next
    case (take_closed ch)
    with live_inv_flush [OF assms(2) take_closed(3), of "filling s" "queue s"] show ?thesis by simp
  next
    case take_tick
    with live_inv_flush [OF assms(2) take_tick(3), of "filling s" "queue s"] show ?thesis by simp
  next
    case (check_closed fl)
    with live_inv_finish [OF assms(2) check_closed(3) cl, of "Some (Errorf ''sessionclient: closed'' [])"] show ?thesis by simp
  next
    case (reconnect_closed fl)
    with live_inv_finish [OF assms(2) reconnect_closed(3) cl, of "Some (closed_error (s_client s))"] show ?thesis by simp
  next
    case (wait_closed fl)
    with live_inv_finish [OF assms(2) wait_closed(3) cl, of "Some (closed_error (s_client s))"] show ?thesis by simp
  next
    case (wrote fl err w c)
    have "connection (s_client s) \<noteq> None" using assms(3) wrote(3) by (simp add: live_ok_def)
    then obtain fd where fd: "connection (s_client s) = Some fd" by blast
    have "length (fl_payload fl) < 2 ^ 32"
      using fl wrote(3) marshal_frame by (auto simp: flight_ok_def)
    from write_frame_correct [OF cl fd this wrote(5)] wrote(2) live_inv_finish [OF assms(2) wrote(3), of w c err]
    show ?thesis by simp
  next
    case (dial_ok fl' conn)
    with fl show ?thesis
      by (intro live_inv_client [OF assms(2) client_dialled [OF cl dial_ok(4)]])
        (simp_all add: set_client_def live_packets_def flight_ok_def)
  next
    case (dial_failed fl')
    with fl show ?thesis
      by (intro live_inv_client [OF assms(2) same]) (simp_all add: set_client_def live_packets_def flight_ok_def)
  next
    case (wait_over fl')
    with fl show ?thesis
      by (intro live_inv_client [OF assms(2) same]) (simp_all add: set_client_def live_packets_def flight_ok_def)
  next
    case grace_over
    with fl show ?thesis
      by (intro live_inv_client [OF assms(2) same]) (simp_all add: cancel_def set_client_def live_packets_def)
  next
    case last_cancel
    with fl show ?thesis
      by (intro live_inv_client [OF assms(2) same]) (simp_all add: cancel_def set_client_def live_packets_def)
  next
    case forced_close
    with fl show ?thesis
      by (intro live_inv_client [OF assms(2) same]) (simp_all add: set_client_def live_packets_def Close_client)
  next
    case last_close
    with fl show ?thesis
      by (intro live_inv_client [OF assms(2) same]) (simp_all add: set_client_def live_packets_def Close_client)
  qed (rule live_inv_quiet [OF assms(2)]; use fl in \<open>simp add: live_packets_def flight_ok_def\<close>)+
qed

lemma live_inv_run:
  "sruns unmarshal marshal conn_Close fwd s ls s' \<Longrightarrow> live_ok q s \<Longrightarrow> live_inv s \<Longrightarrow> live_inv s'"
  by (induction rule: sruns.induct) (auto intro: live_ok_step live_inv_step)

end

section \<open>Property\<close>

text \<open>C9: accounting and order hold at every moment of the receiver's life, also while a batch is under way. In every state
  that the receiver reaches, with \<open>SendBatch\<close> interrupted by the read loop and by \<open>main\<close> wherever it can be, under every
  success and failure of dials and writes, before, during and after shutdown: the datagrams received are
  those counted as forwarded, failed checksum, malformed or dropped at the intake, the packets lost in batches that could not be sent, and
  the packets in flight, in the batch, in the queue and with the read loop; and what can be read from the sockets, followed by these
  packets, is a subsequence in arrival order of the valid packets received, \<open>forwarded\<close> counting exactly the former.\<close>

theorem live_receiver_accounts:
  assumes "bounded_codec marshal unmarshalBatch"
    and "sruns unmarshal marshal conn_Close fwd (serve_start queueDepth path) ls s"
  shows "let c = fs_counters (books s); ds = live_delivered unmarshalBatch s in
    received c = of_nat (length (datagrams s)) \<and>
    received c = forwarded c + crcDropped c + malformed c + intakeDropped c
      + of_nat (lost (fs_log (books s))) + of_nat (length (live_packets s)) \<and>
    forwarded c = of_nat (length ds) \<and>
    subseq (ds @ live_packets s) (concat (map (accepts unmarshal) (datagrams s)))"
proof -
  have codec: "live_codec marshal unmarshalBatch" using assms(1) by (simp add: live_codec_def)
  have "live_codec.live_inv marshal unmarshalBatch unmarshal fwd s"
    by (rule live_codec.live_inv_run [OF codec assms(2) live_ok_start live_codec.live_inv_start [OF codec]])
  then show ?thesis
    unfolding live_codec.live_inv_def [OF codec] Let_def settled_def by blast
qed

section \<open>A run\<close>

text \<open>The theorem's contract on the wire codecs, with the packets of theory \<open>Links\<close>.\<close>

interpretation live_wire: live_codec marshal_batch unmarshal_batch unmarshal_packet "\<lambda>c. None" "NewForwarder 1 1 100"
  by unfold_locales

text \<open>A datagram arrives and its packet fills the batch; the forwarder takes the mutex and dials.\<close>

definition demo_flight :: flight where
  "demo_flight = \<lparr>last_flush = False, fl_packets = [demo_packet], fl_payload = demo_payload\<rparr>"

definition demo_books :: "(net \<times> Client) fwd_state" where
  "demo_books = \<lparr>fs_counters = AddReceived zero_Counters, fs_sender = (\<lparr>sockets = [], timers = []\<rparr>, NewClient ''/tmp/s''),
     fs_log = []\<rparr>"

definition demo_live :: "Packet list \<Rightarrow> read_phase \<Rightarrow> fwd_pc \<Rightarrow> live" where
  "demo_live waiting r f = (serve_start 4 ''/tmp/s'')\<lparr>queue := \<lparr>buf = waiting, capacity = 4, chan_closed = False\<rparr>,
     rphase := r, fpc := f, books := demo_books, datagrams := [demo_datagram], mutex := holds_mutex f\<rparr>"

abbreviation demo_sstep :: "live \<Rightarrow> label \<Rightarrow> live \<Rightarrow> bool" where
  "demo_sstep \<equiv> sstep unmarshal_packet marshal_batch (\<lambda>c. None) (NewForwarder 1 1 100)"

abbreviation demo_sruns :: "live \<Rightarrow> label list \<Rightarrow> live \<Rightarrow> bool" where
  "demo_sruns \<equiv> sruns unmarshal_packet marshal_batch (\<lambda>c. None) (NewForwarder 1 1 100)"

abbreviation demo_sending :: "send_pc \<Rightarrow> live" where
  "demo_sending pc \<equiv> demo_live [] Reading (Sending pc demo_flight)"

lemma demo_live_fields [simp]:
  "queue (demo_live w r f) = \<lparr>buf = w, capacity = 4, chan_closed = False\<rparr>" "filling (demo_live w r f) = []"
  "fpc (demo_live w r f) = f" "books (demo_live w r f) = demo_books" "mutex (demo_live w r f) = holds_mutex f"
  "rphase (demo_live w r f) = r" "udp_up (demo_live w r f)" "mpc (demo_live w r f) = Serving" "peer_reads (demo_live w r f)"
  "datagrams (demo_live w r f) = [demo_datagram]"
  by (simp_all add: demo_live_def serve_start_def)

lemma demo_live_upd:
  "(demo_live w r f)\<lparr>queue := \<lparr>buf = w', capacity = 4, chan_closed = False\<rparr>, rphase := r'\<rparr> = demo_live w' r' f"
  "(demo_live w r f)\<lparr>fpc := f'\<rparr> = (demo_live w r f')\<lparr>mutex := holds_mutex f\<rparr>"
  by (simp_all add: demo_live_def)

lemma demo_alive: "r = Reading \<or> r = Holding demo_packet \<Longrightarrow> alive (demo_live w r f)"
  by (auto simp: alive_def)

lemma demo_checking_run:
  "demo_sruns (serve_start 4 ''/tmp/s'') [Arrival, Work, Work, Work] (demo_sending Checking)"
proof -
  have "readLoop_accept unmarshal_packet demo_datagram zero_Counters = (AddReceived zero_Counters, Some demo_packet)"
    using demo_accepted by (auto simp: readLoop_accept_eq accepts_def split: if_splits sum.splits)
  then have s1: "demo_sstep (serve_start 4 ''/tmp/s'') Arrival (demo_live [] (Holding demo_packet) Selecting)"
    using live_keep [of "serve_start 4 ''/tmp/s''" unmarshal_packet demo_datagram "AddReceived zero_Counters" demo_packet
        marshal_batch "\<lambda>c. None" "NewForwarder 1 1 100"]
    by (simp add: serve_start_def demo_live_def demo_books_def set_books_counters_def)
  have s2: "demo_sstep (demo_live [] (Holding demo_packet) Selecting) Work (demo_live [demo_packet] Reading Selecting)"
    using live_queued [of "demo_live [] (Holding demo_packet) Selecting" demo_packet
        "\<lparr>buf = [demo_packet], capacity = 4, chan_closed = False\<rparr>"]
    by (simp add: readLoop_offer_def try_send_def demo_live_upd)
  have s3: "demo_sstep (demo_live [demo_packet] Reading Selecting) Work (demo_sending Locking)"
    using take_last [of "demo_live [demo_packet] Reading Selecting" demo_packet
        "\<lparr>buf = [], capacity = 4, chan_closed = False\<rparr>" "NewForwarder 1 1 100" unmarshal_packet marshal_batch "\<lambda>c. None"]
    by (simp add: chan_recv_def begin_flush_def NewForwarder_def demo_marshal) (simp add: demo_live_def serve_start_def demo_flight_def)
  have s4: "demo_sstep (demo_sending Locking) Work (demo_sending Checking)"
    using lock [of "demo_sending Locking" demo_flight] by (simp add: demo_live_def serve_start_def)
  have "alive (serve_start 4 ''/tmp/s'')" by (simp add: alive_def serve_start_def)
  with s1 s2 s3 s4 demo_alive show ?thesis by (simp add: sruns_Cons) blast
qed

lemma demo_open: "connection (s_client (demo_sending pc)) = None" "\<not> ctx_done (s_client (demo_sending pc))"
  by (simp_all add: demo_books_def NewClient_def)

lemma demo_check_passed:
  "(demo_sending Checking)\<lparr>fpc := Sending Reconnecting demo_flight\<rparr> = demo_sending Reconnecting"
  by (simp add: demo_live_def serve_start_def)

lemma demo_dials: "demo_sstep (demo_sending Reconnecting) Work (demo_sending Dialing)"
  using reconnect_dial [of "demo_sending Reconnecting" demo_flight]
  by (simp add: demo_books_def NewClient_def) (simp add: demo_live_def serve_start_def demo_books_def NewClient_def)

lemma demo_dialing_run:
  "demo_sruns (serve_start 4 ''/tmp/s'') [Arrival, Work, Work, Work, Work, Work] (demo_sending Dialing)"
proof -
  have "demo_sstep (demo_sending Checking) Work (demo_sending Reconnecting)"
    using check_open [of "demo_sending Checking" demo_flight, OF _ demo_open(2)] demo_open(1) [of Checking]
    by (simp add: demo_check_passed)
  with demo_dials have "demo_sruns (demo_sending Checking) [Work, Work] (demo_sending Dialing)"
    by (meson sruns.intros demo_alive)
  with demo_checking_run have "demo_sruns (serve_start 4 ''/tmp/s'') ([Arrival, Work, Work, Work] @ [Work, Work]) (demo_sending Dialing)"
    unfolding sruns_append by blast
  then show ?thesis by simp
qed

theorem live_receiver_accounts_witness:
  "demo_sruns (serve_start 4 ''/tmp/s'') [Arrival, Work, Work, Work, Work, Work] (demo_sending Dialing) \<and>
   subseq (live_delivered unmarshal_batch (demo_sending Dialing) @ [demo_packet]) [demo_packet]"
  using demo_dialing_run live_receiver_accounts [OF batch_wire.bounded_codec_axioms demo_dialing_run]
  by (simp add: Let_def demo_accepted live_packets_def demo_flight_def)

end
