(* ===== verification/Receiver_Shutdown.thy ===== *)
theory Receiver_Shutdown
  imports Receiver_Live
begin

text \<open>
  How the receiver process ends, on the step relation of theory \<open>Receiver_Live\<close>. Lemmas: a measure that every step after the
  grace period decreases, and progress; together, that shutdown terminates while the session manager reads, and that it
  does not while a write is blocked.
\<close>

section \<open>How much is left to do\<close>

text \<open>Once the context is cancelled, every step of a goroutine brings its end nearer.\<close>

fun send_left :: "send_pc \<Rightarrow> nat" where
  "send_left Writing = 1"
| "send_left Reconnecting = 2"
| "send_left Waiting = 3"
| "send_left Dialing = 4"
| "send_left Checking = 5"
| "send_left Locking = 6"

fun main_left :: "main_pc \<Rightarrow> nat" where
  "main_left Ended = 0"
| "main_left LastClose = 1"
| "main_left LastCancel = 2"
| "main_left AwaitDone = 3"
| "main_left ForcedClose = 4"
| "main_left AtSelect = 5"
| "main_left Closing = 6"
| "main_left Serving = 7"

definition queue_left :: "live \<Rightarrow> nat" where
  "queue_left s = 8 * length (buf (queue s)) + (if filling s = [] then 1 else 8)"

definition fwd_left :: "live \<Rightarrow> nat" where
  "fwd_left s =
     (case fpc s of
        Returned \<Rightarrow> 0
      | Selecting \<Rightarrow> queue_left s
      | Sending pc fl \<Rightarrow> send_left pc + (if last_flush fl then 0 else queue_left s))"

fun read_left :: "read_phase \<Rightarrow> nat" where
  "read_left Reading = 1"
| "read_left (Holding p) = 1"
| "read_left Stopped = 0"
| "read_left (Panicked p) = 0"

definition work_left :: "live \<Rightarrow> nat" where
  "work_left s = fwd_left s + main_left (mpc s) + read_left (rphase s)"

definition own :: "label \<Rightarrow> bool" where
  "own l \<longleftrightarrow> l = Work \<or> l = Grace"

lemma fwd_left_flush:
  "fpc s = Selecting \<Longrightarrow> fwd_left (begin_flush marshal fwd ret packets (s\<lparr>queue := ch\<rparr>))
     \<le> (if packets = [] then 0 else 6) + (if ret then 0 else 8 * length (buf ch) + 1)"
  by (simp add: begin_flush_def fwd_left_def queue_left_def after_flush_def split: sum.split)

lemma begin_flush_other:
  "mpc (begin_flush marshal fwd ret packets s) = mpc s"
  "rphase (begin_flush marshal fwd ret packets s) = rphase s"
  by (simp_all add: begin_flush_def split: sum.split)

lemma finish_send_other:
  "mpc (finish_send err fl s) = mpc s" "rphase (finish_send err fl s) = rphase s"
  "filling (finish_send err fl s) = filling s" "queue (finish_send err fl s) = queue s"
  "fpc (finish_send err fl s) = after_flush (last_flush fl)"
  by (simp_all add: finish_send_def split: option.split)

lemma set_client_other:
  "mpc (set_client w c s) = mpc s" "rphase (set_client w c s) = rphase s"
  "filling (set_client w c s) = filling s" "queue (set_client w c s) = queue s" "fpc (set_client w c s) = fpc s"
  by (simp_all add: set_client_def)

lemmas left_simps = begin_flush_other finish_send_other set_client_other work_left_def fwd_left_def queue_left_def
  after_flush_def

lemma grace_passed_step:
  "sstep unmarshal marshal conn_Close fwd s l s' \<Longrightarrow> mpc s \<notin> {Serving, Closing, AtSelect} \<Longrightarrow> mpc s' \<notin> {Serving, Closing, AtSelect}"
  by (cases rule: sstep.cases) (auto simp: left_simps cancel_def set_books_counters_def)

lemma grace_passed_run:
  "sruns unmarshal marshal conn_Close fwd s ls s' \<Longrightarrow> mpc s \<notin> {Serving, Closing, AtSelect} \<Longrightarrow> mpc s' \<notin> {Serving, Closing, AtSelect}"
proof (induction rule: sruns.induct)
  case (more s l s' ls s'')
  then show ?case using grace_passed_step by blast
qed

lemma work_left_step:
  assumes "sstep unmarshal marshal conn_Close fwd s l s'" "live_ok q s" "mpc s \<notin> {Serving, Closing, AtSelect}" "alive s"
  shows "work_left s' + (if own l then 1 else 0) \<le> work_left s"
proof -
  have ctx: "fpc s \<noteq> Returned \<Longrightarrow> ctx_done (s_client s)" and shut: "chan_closed (queue s)" "\<not> udp_up s"
    using assms(2,3) by (cases "mpc s"; simp add: live_ok_def)+
  from assms(1) show ?thesis
  proof cases
    case (live_queued packet ch)
    with readLoop_offer_cases(1) [OF live_queued(4)] shut show ?thesis by simp
  next
    case (live_full packet c)
    with readLoop_offer_cases(2) [OF live_full(4)] shut show ?thesis by simp
  next
    case (take_packet packet ch)
    with chan_recv_cases(1) [OF take_packet(4)] show ?thesis by (auto simp: own_def left_simps)
  next
    case (take_last packet ch)
    with chan_recv_cases(1) [OF take_last(4)]
      fwd_left_flush [OF take_last(3), of marshal fwd False "filling s @ [packet]" ch] show ?thesis
      by (auto simp: own_def begin_flush_other work_left_def fwd_left_def [of s] queue_left_def)
  next
    case (take_closed ch)
    with fwd_left_flush [OF take_closed(3), of marshal fwd True "filling s" "queue s"] show ?thesis
      by (auto simp: own_def begin_flush_other work_left_def fwd_left_def [of s] queue_left_def split: if_splits)
  next
    case take_tick
    with fwd_left_flush [OF take_tick(3), of marshal fwd False "filling s" "queue s"] show ?thesis
      by (auto simp: own_def begin_flush_other work_left_def fwd_left_def [of s] queue_left_def split: if_splits)
  qed (use assms(3) ctx shut in \<open>simp_all add: own_def left_simps cancel_def split: fwd_pc.split\<close>)
qed

lemma work_left_run:
  "sruns unmarshal marshal conn_Close fwd s ls s' \<Longrightarrow> live_ok q s \<Longrightarrow> mpc s \<notin> {Serving, Closing, AtSelect} \<Longrightarrow>
   length (filter own ls) + work_left s' \<le> work_left s"
proof (induction rule: sruns.induct)
  case (more s l s' ls s'')
  have "length (filter own ls) + work_left s'' \<le> work_left s'"
    using more.IH live_ok_step [OF more.hyps(2) more.prems(1)] grace_passed_step [OF more.hyps(2) more.prems(2)] .
  with work_left_step [OF more.hyps(2) more.prems more.hyps(1)] show ?case by (simp split: if_splits)
qed simp

lemma send_left_le: "send_left pc \<le> 6"
  by (cases pc) simp_all

lemma fwd_left_bound: "live_ok q s \<Longrightarrow> fwd_left s \<le> 8 * q + 14"
proof (cases "fpc s")
  case (Sending pc fl)
  assume "live_ok q s"
  with Sending send_left_le [of pc] show ?thesis by (auto simp: live_ok_def fwd_left_def queue_left_def)
qed (auto simp: live_ok_def fwd_left_def queue_left_def)

lemma work_left_bound: "live_ok q s \<Longrightarrow> mpc s = ForcedClose \<Longrightarrow> work_left s \<le> 8 * q + 19"
  using fwd_left_bound [of q s] by (cases "rphase s") (simp_all add: work_left_def)

section \<open>Progress\<close>

lemma sending_progress:
  assumes "live_ok q s" "peer_reads s" "fpc s = Sending pc fl" "mutex s \<or> pc = Locking"
  shows "\<exists>s'. sstep unmarshal marshal conn_Close fwd s Work s'"
proof (cases pc)
  case Locking
  with assms show ?thesis by (auto simp: live_ok_def intro: sstep.lock)
next
  case Writing
  with assms(2,3) show ?thesis
    by (cases "write_frame conn_Close (s_net s) (s_client s) (fl_payload fl)") (auto intro: sstep.wrote)
next
  case Checking
  with assms(3) show ?thesis by (cases "ctx_done (s_client s)") (auto intro: sstep.check_closed sstep.check_open)
next
  case Reconnecting
  with assms(3) show ?thesis
    by (cases "ctx_done (s_client s)") (auto intro: sstep.reconnect_closed sstep.reconnect_dial)
qed (use assms(3) in \<open>auto intro: sstep.dial_failed sstep.wait_over\<close>)

lemma forwarder_progress:
  assumes "live_ok q s" "peer_reads s" "intake_shut (mpc s)" "fpc s \<noteq> Returned"
  shows "\<exists>s'. sstep unmarshal marshal conn_Close fwd s Work s'"
proof (cases "fpc s")
  case Selecting
  show ?thesis
  proof (cases "buf (queue s)")
    case Nil
    with assms(1,3) have "chan_recv (queue s) = Some (None, queue s)"
      by (simp add: chan_recv_def live_ok_def)
    with Selecting show ?thesis by (blast intro: sstep.take_closed)
  next
    case (Cons p ps)
    then have "chan_recv (queue s) = Some (Some p, (queue s)\<lparr>buf := ps\<rparr>)" by (simp add: chan_recv_def)
    with Selecting show ?thesis by (metis sstep.take_packet sstep.take_last not_le)
  qed
next
  case (Sending pc fl)
  moreover from this assms(1) have "mutex s \<or> pc = Locking" by (auto simp: live_ok_def)
  ultimately show ?thesis by (rule sending_progress [OF assms(1,2)])
qed (use assms in simp)

lemma reader_progress:
  assumes "live_ok q s" "intake_shut (mpc s)" "alive s" "rphase s \<noteq> Stopped"
  shows "\<exists>s'. sstep unmarshal marshal conn_Close fwd s Work s'"
proof (cases "rphase s")
  case Reading
  moreover have "\<not> udp_up s" using assms(1,2) by (auto simp: live_ok_def)
  ultimately show ?thesis by (blast intro: sstep.live_returns)
next
  case (Holding p)
  moreover have "readLoop_offer (queue s) p (fs_counters (books s)) = Crashed"
    using assms(1,2) by (simp add: readLoop_offer_cases(3) live_ok_def)
  ultimately show ?thesis by (blast intro: sstep.live_crashed)
qed (use assms in \<open>simp_all add: alive_def\<close>)

lemma main_progress:
  assumes "live_ok q s" "fpc s = Returned" "rphase s = Stopped" "intake_shut (mpc s)" "mpc s \<noteq> Ended"
  shows "\<exists>s'. sstep unmarshal marshal conn_Close fwd s Work s'"
proof -
  have "\<not> mutex s" using assms(1,2) by (simp add: live_ok_def)
  with assms show ?thesis
    by (cases "mpc s") (auto intro: sstep.done_in_time sstep.forced_close sstep.workers_done
      sstep.last_cancel sstep.last_close)
qed

lemma at_rest_ended:
  assumes "live_ok q s" "peer_reads s" "intake_shut (mpc s)" "alive s"
    and "\<forall>s'. \<not> sstep unmarshal marshal conn_Close fwd s Work s'"
  shows "mpc s = Ended"
  using assms forwarder_progress reader_progress main_progress by metis

lemma ended_facts:
  assumes "live_ok q s" "mpc s = Ended"
  shows "fpc s = Returned \<and> rphase s = Stopped \<and> live_packets s = [] \<and> connection (s_client s) = None \<and> \<not> mutex s"
  using assms by (auto simp: live_ok_def live_packets_def)

lemma writing_stays:
  assumes "sstep unmarshal marshal conn_Close fwd s l s'" "live_ok q s" "fpc s = Sending Writing fl" "\<not> peer_reads s"
    and "l \<noteq> Resume"
  shows "fpc s' = Sending Writing fl \<and> \<not> peer_reads s'"
  using assms by cases (auto simp: live_ok_def set_client_def cancel_def set_books_counters_def)

lemma writing_stays_run:
  "sruns unmarshal marshal conn_Close fwd s ls s' \<Longrightarrow> live_ok q s \<Longrightarrow> fpc s = Sending Writing fl \<Longrightarrow> \<not> peer_reads s \<Longrightarrow>
   Resume \<notin> set ls \<Longrightarrow> fpc s' = Sending Writing fl \<and> live_ok q s'"
proof (induction rule: sruns.induct)
  case (more s l s' ls s'')
  with live_ok_step [OF more.hyps(2) more.prems(1)]
    writing_stays [OF more.hyps(2) more.prems(1-3)] show ?case by auto
qed simp

section \<open>Properties\<close>

text \<open>C11: shutdown terminates after the grace period as long as the session manager reads. Whatever the forwarder was doing
  when the grace timer expired (waiting for a packet, dialling a session manager that is down, waiting between two dials,
  writing), and in every interleaving of the goroutines, they take at most 19 further steps and 8 per place of the queue,
  other than ticks of the flush ticker; and when none of them can go on, then unless the read loop has panicked \<open>main\<close> has
  returned, both workers have returned, no packet is left in the process, and the connection is closed.\<close>

theorem shutdown_terminates:
  assumes "sruns unmarshal marshal conn_Close fwd (serve_start queueDepth path) (before @ Grace # after) s"
  shows "length (filter own after) \<le> 8 * queueDepth + 19 \<and>
    (peer_reads s \<and> alive s \<and> (\<forall>s'. \<not> sstep unmarshal marshal conn_Close fwd s Work s') \<longrightarrow>
      mpc s = Ended \<and> fpc s = Returned \<and> rphase s = Stopped \<and> live_packets s = [] \<and>
      connection (s_client s) = None \<and> \<not> mutex s)"
proof -
  let ?run = "sruns unmarshal marshal conn_Close fwd"
  from assms obtain m1 m2 where pre: "?run (serve_start queueDepth path) before m1"
    and grace: "sstep unmarshal marshal conn_Close fwd m1 Grace m2" and post: "?run m2 after s"
    by (auto simp: sruns_append sruns_Cons)
  have "live_ok queueDepth m1" using live_ok_run [OF pre live_ok_start] .
  then have ok: "live_ok queueDepth m2" using live_ok_step [OF grace] by blast
  moreover from grace have m2: "mpc m2 = ForcedClose" by cases (simp add: cancel_def set_client_def)
  ultimately have "length (filter own after) \<le> 8 * queueDepth + 19"
    using work_left_run [OF post ok] work_left_bound [OF ok m2] by simp
  moreover have fin: "live_ok queueDepth s" using live_ok_run [OF post ok] .
  have "intake_shut (mpc s)" using grace_passed_run [OF post] m2 by (cases "mpc s") simp_all
  with at_rest_ended [OF fin] ended_facts [OF fin]
  have "peer_reads s \<and> alive s \<and> (\<forall>s'. \<not> sstep unmarshal marshal conn_Close fwd s Work s') \<longrightarrow>
      mpc s = Ended \<and> fpc s = Returned \<and> rphase s = Stopped \<and> live_packets s = [] \<and>
      connection (s_client s) = None \<and> \<not> mutex s"
    by blast
  ultimately show ?thesis ..
qed

text \<open>C30: the grace period does not end a blocked write. When the forwarder is in the write and the session manager does
  not read, \<open>SendBatch\<close> keeps the mutex, and \<open>Close\<close>, which \<open>main\<close> calls when the grace timer
  expires, waits for that mutex before it can close the connection: however the goroutines go on, \<open>main\<close> does not get
  past the forced \<open>Close\<close> until the session manager reads again. (The comment of \<open>shutdownGrace\<close> says that it caps how long
  the forwarder may block flushing.)\<close>

theorem shutdown_waits_for_stalled_write:
  assumes "sruns unmarshal marshal conn_Close fwd (serve_start queueDepth path) before s"
    and "fpc s = Sending Writing fl" "\<not> peer_reads s"
    and "sruns unmarshal marshal conn_Close fwd s after s'" "Resume \<notin> set after"
  shows "fpc s' = Sending Writing fl \<and> mutex s' \<and> mpc s' \<in> {Serving, Closing, AtSelect, ForcedClose} \<and>
    connection (s_client s') \<noteq> None"
proof -
  have "live_ok queueDepth s" using live_ok_run [OF assms(1) live_ok_start] .
  from writing_stays_run [OF assms(4) this assms(2,3,5)]
  have w: "fpc s' = Sending Writing fl" "live_ok queueDepth s'" by simp_all
  then have "mutex s'" "connection (s_client s') \<noteq> None" by (auto simp: live_ok_def)
  moreover have "mpc s' \<in> {Serving, Closing, AtSelect, ForcedClose}"
    using w by (cases "mpc s'") (auto simp: live_ok_def)
  ultimately show ?thesis using w(1) by blast
qed


section \<open>The grace period and the backoff\<close>

definition shutdownGrace :: int where
  "shutdownGrace = 10 * 1000000000"

text \<open>A client that starts to dial when the signal comes gets through six waits within the grace period; the seventh
  is the one that \<open>cancel\<close> interrupts.\<close>

lemma waits_in_grace:
  "sum_list (backoffs initialBackoff 6) < shutdownGrace" "shutdownGrace < sum_list (backoffs initialBackoff 7)"
  by (simp_all add: eval_nat_numeral initialBackoff_def maxBackoff_def shutdownGrace_def)

section \<open>Two runs\<close>

definition demo_forced :: "live \<Rightarrow> live" where
  "demo_forced s = cancel (s\<lparr>udp_up := False, queue := (queue s)\<lparr>chan_closed := True\<rparr>, mpc := ForcedClose\<rparr>)"

lemma demo_forced_run:
  assumes "mpc s = Serving" "rphase s = Reading"
  shows "demo_sruns s [Signal, Work, Grace] (demo_forced s)"
proof -
  let ?a = "s\<lparr>udp_up := False, mpc := Closing\<rparr>"
  let ?b = "?a\<lparr>queue := (queue s)\<lparr>chan_closed := True\<rparr>, mpc := AtSelect\<rparr>"
  have "demo_sstep s Signal ?a" using assms by (intro signalled)
  moreover have "demo_sstep ?a Work ?b" using intake_closed [of ?a] by simp
  moreover have "demo_sstep ?b Grace (demo_forced s)" using grace_over [of ?b] by (simp add: demo_forced_def)
  moreover have "alive s" "alive ?a" "alive ?b" using assms by (simp_all add: alive_def)
  ultimately show ?thesis by (meson sruns.intros)
qed

theorem shutdown_terminates_witness:
  "\<exists>s. demo_sruns (serve_start 4 ''/tmp/s'')
       ([Arrival, Work, Work, Work, Work, Work, Signal, Work] @ Grace # [Work, Work]) s \<and>
     fpc s = Selecting \<and> length (filter own [Work, Work]) \<le> 8 * 4 + 19 \<and>
     (peer_reads s \<and> alive s \<and> (\<forall>s'. \<not> demo_sstep s Work s') \<longrightarrow>
      mpc s = Ended \<and> fpc s = Returned \<and> rphase s = Stopped \<and> live_packets s = [] \<and>
      connection (s_client s) = None \<and> \<not> mutex s)"
proof -
  let ?f = "demo_forced (demo_sending Dialing)"
  let ?w = "set_client ((s_net ?f)\<lparr>timers := timers (s_net ?f) @ [currentBackoff (s_client ?f)]\<rparr>) (s_client ?f)
        (?f\<lparr>fpc := Sending Waiting demo_flight\<rparr>)"
  let ?s = "finish_send (Some (closed_error (s_client ?w))) demo_flight ?w"
  have "demo_sstep ?f Work ?w"
    by (rule dial_failed) (simp add: demo_forced_def cancel_def set_client_def)
  moreover have "demo_sstep ?w Work ?s"
    by (rule wait_closed) (simp_all add: set_client_def demo_forced_def cancel_def)
  moreover have "alive ?f" "alive ?w" by (simp_all add: alive_def demo_forced_def cancel_def set_client_def)
  ultimately have run: "demo_sruns ?f [Work, Work] ?s" by (auto simp: sruns_Cons)
  have "demo_sruns (serve_start 4 ''/tmp/s'')
      (([Arrival, Work, Work, Work, Work, Work] @ [Signal, Work, Grace]) @ [Work, Work]) ?s"
    using demo_dialing_run demo_forced_run [of "demo_sending Dialing"] run unfolding sruns_append by auto
  then have "demo_sruns (serve_start 4 ''/tmp/s'')
      ([Arrival, Work, Work, Work, Work, Work, Signal, Work] @ Grace # [Work, Work]) ?s" by simp
  moreover from shutdown_terminates [OF this] have "length (filter own [Work, Work]) \<le> 8 * 4 + 19 \<and>
     (peer_reads ?s \<and> alive ?s \<and> (\<forall>s'. \<not> demo_sstep ?s Work s') \<longrightarrow>
      mpc ?s = Ended \<and> fpc ?s = Returned \<and> rphase ?s = Stopped \<and> live_packets ?s = [] \<and>
      connection (s_client ?s) = None \<and> \<not> mutex ?s)" .
  moreover have "fpc ?s = Selecting" by (simp add: finish_send_def after_flush_def demo_flight_def)
  ultimately show ?thesis by blast
qed

theorem shutdown_waits_for_stalled_write_witness:
  "\<exists>s s'. demo_sruns (serve_start 4 ''/tmp/s'') ([Arrival, Work, Work, Work, Work, Work] @ [Work, Stall]) s \<and>
     demo_sruns s [Signal, Work, Grace] s' \<and> mpc s' = ForcedClose \<and>
     fpc s' = Sending Writing demo_flight \<and> mutex s' \<and> connection (s_client s') \<noteq> None"
proof -
  let ?d = "demo_sending Dialing"
  let ?w = "set_client ((s_net ?d)\<lparr>sockets := sockets (s_net ?d) @ [fresh_conn]\<rparr>)
        ((s_client ?d)\<lparr>connection := Some (length (sockets (s_net ?d))), currentBackoff := initialBackoff\<rparr>)
        (?d\<lparr>fpc := Sending Writing demo_flight\<rparr>)"
  let ?s = "?w\<lparr>peer_reads := False\<rparr>"
  have "demo_sstep ?d Work ?w" by (rule dial_ok) (simp_all add: fresh_conn_def)
  moreover have "demo_sstep ?w Stall ?s" by (rule stall) (simp add: set_client_def)
  moreover have "alive ?d" "alive ?w" by (simp_all add: alive_def set_client_def)
  ultimately have "demo_sruns ?d [Work, Stall] ?s" by (auto simp: sruns_Cons)
  with demo_dialing_run
  have before: "demo_sruns (serve_start 4 ''/tmp/s'') ([Arrival, Work, Work, Work, Work, Work] @ [Work, Stall]) ?s"
    unfolding sruns_append by blast
  have after: "demo_sruns ?s [Signal, Work, Grace] (demo_forced ?s)"
    by (rule demo_forced_run) (simp_all add: set_client_def)
  have "fpc ?s = Sending Writing demo_flight" "\<not> peer_reads ?s" by (simp_all add: set_client_def)
  from shutdown_waits_for_stalled_write [OF before this after]
  have "fpc (demo_forced ?s) = Sending Writing demo_flight \<and> mutex (demo_forced ?s) \<and>
    connection (s_client (demo_forced ?s)) \<noteq> None" by simp
  moreover have "mpc (demo_forced ?s) = ForcedClose" by (simp add: demo_forced_def cancel_def set_client_def)
  ultimately show ?thesis using before after by blast
qed

end
