(* ===== verification/Send_Refinement.thy ===== *)
theory Send_Refinement
  imports Receiver_Live
begin

text \<open>
  The two models of \<open>SendBatch\<close>, \<open>receivers/internal/sessionClient/sessionClient.go\<close>, agree: the function of theory
  \<open>Session_Client\<close>, which takes the outcome of its dials as a list, and the steps of theory \<open>Receiver_Live\<close>, between which the
  read loop and \<open>main\<close> go on. Lemmas: at each of its points, what is left of an interrupted call is what the
  function still has to do.
\<close>

section \<open>A send between its check and its return\<close>

text \<open>\<open>SendBatch\<close> of \<open>fl\<close> finds the context open in state \<open>s\<close>; \<open>m\<close> is a state before it returns. Between two of its own
  steps any other goroutine may make steps.\<close>

inductive mid_send ::
  "(byte list \<Rightarrow> Packet res) \<Rightarrow> (SymbolBatch \<Rightarrow> byte list res) \<Rightarrow> (conn \<Rightarrow> error option) \<Rightarrow> Forwarder \<Rightarrow> flight \<Rightarrow>
   live \<Rightarrow> live \<Rightarrow> bool"
  for unmarshal marshal conn_Close fwd fl s where
  check_passed: "fpc s = Sending Checking fl \<Longrightarrow> \<not> ctx_done (s_client s) \<Longrightarrow>
    mid_send unmarshal marshal conn_Close fwd fl s
      (s\<lparr>fpc := Sending (if connection (s_client s) = None then Reconnecting else Writing) fl\<rparr>)"
| mid_step: "mid_send unmarshal marshal conn_Close fwd fl s m \<Longrightarrow> sstep unmarshal marshal conn_Close fwd m l m' \<Longrightarrow>
    fpc m' = Sending pc fl \<Longrightarrow> mid_send unmarshal marshal conn_Close fwd fl s m'"

section \<open>What is left of the call\<close>

definition write_after ::
  "(conn \<Rightarrow> error option) \<Rightarrow> byte list \<Rightarrow> (error option \<times> attempt list \<times> net \<times> Client) option \<Rightarrow>
   (error option \<times> attempt list \<times> net \<times> Client) option" where
  "write_after conn_Close p r =
     (case r of
        None \<Rightarrow> None
      | Some (Some err, as, w, c) \<Rightarrow> Some (Some err, as, w, c)
      | Some (None, as, w, c) \<Rightarrow> (case write_frame conn_Close w c p of (err, w, c) \<Rightarrow> Some (err, as, w, c)))"

lemma SendBatch_open:
  "\<not> ctx_done c \<Longrightarrow> SendBatch conn_Close as w c p =
     write_after conn_Close p (if connection c = None then reconnectLocked as w c else Some (None, as, w, c))"
  by (simp add: SendBatch_def write_after_def split: option.split prod.split)

text \<open>The call on the values at the check, with the attempts so far and any more, is what is left of it on the values now. The
  client now differs from that one only by a cancellation in between.\<close>

definition same_but_cancelled :: "Client \<Rightarrow> Client \<Rightarrow> bool" where
  "same_but_cancelled c c' \<longleftrightarrow> \<not> ctx_done c' \<and> c = c'\<lparr>ctx_done := ctx_done c\<rparr>"

fun left_of_send :: "send_pc \<Rightarrow> attempt list \<Rightarrow> net \<Rightarrow> Client \<Rightarrow> (error option \<times> attempt list \<times> net \<times> Client) option" where
  "left_of_send Writing as w c = Some (None, as, w, c)"
| "left_of_send Locking as w c = reconnectLocked as w c"
| "left_of_send Checking as w c = reconnectLocked as w c"
| "left_of_send Reconnecting as w c = reconnectLocked as w c"
| "left_of_send Dialing as w c = reconnectLocked as w c"
| "left_of_send Waiting as w c = reconnectLocked as w c"

definition matches ::
  "(conn \<Rightarrow> error option) \<Rightarrow> flight \<Rightarrow> live \<Rightarrow> send_pc \<Rightarrow> net \<Rightarrow> Client \<Rightarrow> bool" where
  "matches conn_Close fl s pc w c \<longleftrightarrow>
     (\<exists>as w' c'. same_but_cancelled c c' \<and>
        w = (if pc = Waiting then w'\<lparr>timers := timers w' @ [currentBackoff c']\<rparr> else w') \<and>
        (\<forall>rest. SendBatch conn_Close (as @ rest) (s_net s) (s_client s) (fl_payload fl)
           = write_after conn_Close (fl_payload fl) (left_of_send pc rest w' c')))"

lemma matchesI:
  assumes "same_but_cancelled c c'" "w = (if pc = Waiting then w'\<lparr>timers := timers w' @ [currentBackoff c']\<rparr> else w')"
    and "\<And>rest. SendBatch conn_Close (as @ rest) (s_net s) (s_client s) (fl_payload fl)
           = write_after conn_Close (fl_payload fl) (left_of_send pc rest w' c')"
  shows "matches conn_Close fl s pc w c"
  using assms unfolding matches_def by blast

lemma matches_start:
  "\<not> ctx_done (s_client s) \<Longrightarrow>
   matches conn_Close fl s (if connection (s_client s) = None then Reconnecting else Writing) (s_net s) (s_client s)"
  by (rule matchesI [where as = "[]" and c' = "s_client s" and w' = "s_net s"])
    (auto simp: same_but_cancelled_def SendBatch_open)

lemma matches_cancel: "matches conn_Close fl s pc w c \<Longrightarrow> matches conn_Close fl s pc w (c\<lparr>ctx_done := True\<rparr>)"
proof -
  have "same_but_cancelled c c' \<Longrightarrow> same_but_cancelled (c\<lparr>ctx_done := True\<rparr>) c'" for c'
    by (cases c; cases c') (simp add: same_but_cancelled_def)
  then show "matches conn_Close fl s pc w c \<Longrightarrow> ?thesis" unfolding matches_def by blast
qed

section \<open>Steps of the call\<close>

definition connected_by :: "conn \<Rightarrow> attempt" where
  "connected_by conn = \<lparr>done_before = False, dial_result = Inr conn, done_waiting = False\<rparr>"

definition failed_attempt :: "bool \<Rightarrow> bool \<Rightarrow> attempt" where
  "failed_attempt before waiting = \<lparr>done_before = before, dial_result = Inl EOF, done_waiting = waiting\<rparr>"

lemma same_but_cancelled_fields:
  assumes "same_but_cancelled c c'"
  shows "connection c = connection c'" "currentBackoff c = currentBackoff c'" "sessionSocketPath c = sessionSocketPath c'"
    "\<not> ctx_done c'"
  using assms by (cases c; cases c'; simp add: same_but_cancelled_def)+

lemma matches_dialled:
  assumes "matches conn_Close fl s Dialing w c"
  shows "matches conn_Close fl s Writing (w\<lparr>sockets := sockets w @ [conn]\<rparr>)
    (c\<lparr>connection := Some (length (sockets w)), currentBackoff := initialBackoff\<rparr>)"
proof -
  from assms obtain as c' where c: "same_but_cancelled c c'"
    and eq: "\<And>rest. SendBatch conn_Close (as @ rest) (s_net s) (s_client s) (fl_payload fl)
           = write_after conn_Close (fl_payload fl) (reconnectLocked rest w c')"
    by (auto simp: matches_def)
  let ?c = "c'\<lparr>connection := Some (length (sockets w)), currentBackoff := initialBackoff\<rparr>"
  show ?thesis
  proof (rule matchesI [where as = "as @ [connected_by conn]" and c' = ?c])
    show "same_but_cancelled (c\<lparr>connection := Some (length (sockets w)), currentBackoff := initialBackoff\<rparr>) ?c"
      using c by (cases c; cases c') (simp add: same_but_cancelled_def)
    show "SendBatch conn_Close ((as @ [connected_by conn]) @ rest) (s_net s) (s_client s) (fl_payload fl)
        = write_after conn_Close (fl_payload fl) (left_of_send Writing rest (w\<lparr>sockets := sockets w @ [conn]\<rparr>) ?c)" for rest
      using eq [of "connected_by conn # rest"] same_but_cancelled_fields(4) [OF c] by (simp add: connected_by_def)
  qed simp
qed

lemma matches_dial_failed:
  "matches conn_Close fl s Dialing w c \<Longrightarrow>
   matches conn_Close fl s Waiting (w\<lparr>timers := timers w @ [currentBackoff c]\<rparr>) c"
  unfolding matches_def using same_but_cancelled_fields(2) by fastforce

lemma matches_waited:
  assumes "matches conn_Close fl s Waiting w c"
  shows "matches conn_Close fl s Reconnecting w (c\<lparr>currentBackoff := next_backoff (currentBackoff c)\<rparr>)"
proof -
  from assms obtain as w' c' where c: "same_but_cancelled c c'"
    and w: "w = w'\<lparr>timers := timers w' @ [currentBackoff c']\<rparr>"
    and eq: "\<And>rest. SendBatch conn_Close (as @ rest) (s_net s) (s_client s) (fl_payload fl)
           = write_after conn_Close (fl_payload fl) (reconnectLocked rest w' c')"
    by (auto simp: matches_def)
  let ?c = "c'\<lparr>currentBackoff := next_backoff (currentBackoff c')\<rparr>"
  show ?thesis
  proof (rule matchesI [where as = "as @ [failed_attempt False False]" and c' = ?c and w' = w])
    show "same_but_cancelled (c\<lparr>currentBackoff := next_backoff (currentBackoff c)\<rparr>) ?c"
      using c by (cases c; cases c') (simp add: same_but_cancelled_def)
    show "SendBatch conn_Close ((as @ [failed_attempt False False]) @ rest) (s_net s) (s_client s) (fl_payload fl)
        = write_after conn_Close (fl_payload fl) (left_of_send Reconnecting rest w ?c)" for rest
      using eq [of "failed_attempt False False # rest"] same_but_cancelled_fields(4) [OF c]
      by (simp add: failed_attempt_def next_backoff_def w Let_def)
  qed simp
qed

section \<open>The invariant of a send under way\<close>

lemma mid_send_step:
  assumes "sstep unmarshal marshal conn_Close fwd m l m'" "live_ok q m"
    and "fpc m = Sending pc fl" "pc \<noteq> Locking" "pc \<noteq> Checking" "matches conn_Close fl s pc (s_net m) (s_client m)"
    and "fpc m' = Sending pc' fl"
  shows "pc' \<noteq> Locking \<and> pc' \<noteq> Checking \<and> matches conn_Close fl s pc' (s_net m') (s_client m')"
proof -
  have held: "mutex m" using assms(2-4) by (simp add: live_ok_def)
  from assms(1) show ?thesis
  proof cases
    case (reconnect_dial fl')
    with assms(3,6,7) show ?thesis by (auto simp: matches_def)
  next
    case (dial_ok fl' conn)
    with assms(3,6,7) matches_dialled [of conn_Close fl s "s_net m" "s_client m" conn] show ?thesis
      by (simp add: set_client_def)
  next
    case (dial_failed fl')
    with assms(3,6,7) matches_dial_failed [of conn_Close fl s "s_net m" "s_client m"] show ?thesis
      by (simp add: set_client_def)
  next
    case (wait_over fl')
    with assms(3,6,7) matches_waited [of conn_Close fl s "s_net m" "s_client m"] show ?thesis
      by (simp add: set_client_def)
  qed (use assms(3-7) held in \<open>simp_all add: set_client_def cancel_def set_books_counters_def finish_send_def after_flush_def
      matches_cancel split: option.splits if_splits\<close>)
qed

lemma mid_send_inv:
  assumes "mid_send unmarshal marshal conn_Close fwd fl s m" "live_ok q s"
  shows "live_ok q m \<and> (\<exists>pc. fpc m = Sending pc fl \<and> pc \<noteq> Locking \<and> pc \<noteq> Checking \<and>
    matches conn_Close fl s pc (s_net m) (s_client m))"
  using assms(1)
proof induction
  case check_passed
  from live_ok_step [OF check_open [OF check_passed] assms(2)] matches_start [OF check_passed(2)] show ?case by auto
next
  case (mid_step m l m' pc')
  then obtain pc where pc: "live_ok q m" "fpc m = Sending pc fl" "pc \<noteq> Locking" "pc \<noteq> Checking"
    "matches conn_Close fl s pc (s_net m) (s_client m)" by blast
  from mid_send_step [OF mid_step.hyps(2) pc mid_step.hyps(3)] live_ok_step [OF mid_step.hyps(2) pc(1)] mid_step.hyps(3)
  show ?case by blast
qed

section \<open>The return of the call\<close>

definition returns_as :: "(conn \<Rightarrow> error option) \<Rightarrow> flight \<Rightarrow> live \<Rightarrow> error option \<Rightarrow> net \<Rightarrow> Client \<Rightarrow> bool" where
  "returns_as conn_Close fl s err w c \<longleftrightarrow>
     (\<exists>as c'. SendBatch conn_Close as (s_net s) (s_client s) (fl_payload fl) = Some (err, [], w, c') \<and>
        c = c'\<lparr>ctx_done := ctx_done c\<rparr>)"

lemma write_frame_ctx_update:
  "write_frame conn_Close w (c\<lparr>ctx_done := b\<rparr>) p =
     (case write_frame conn_Close w c p of (err, w', d) \<Rightarrow> (err, w', d\<lparr>ctx_done := b\<rparr>))"
  by (simp add: write_frame_def closeConnectionLocked_def Let_def split: prod.split option.split)

lemma write_frame_cancelled:
  assumes "write_frame conn_Close w c p = (err, w', d)" "same_but_cancelled c c'"
  shows "\<exists>d'. write_frame conn_Close w c' p = (err, w', d') \<and> d = d'\<lparr>ctx_done := ctx_done d\<rparr>"
proof -
  from assms(2) obtain b where c: "c = c'\<lparr>ctx_done := b\<rparr>" unfolding same_but_cancelled_def by blast
  obtain err' v d' where wr: "write_frame conn_Close w c' p = (err', v, d')" by (metis prod_cases3)
  with assms(1) have "err' = err" "v = w'" "d = d'\<lparr>ctx_done := b\<rparr>" by (simp_all add: c write_frame_ctx_update)
  with wr show ?thesis by (intro exI [of _ d']) simp
qed

lemma returns_written:
  assumes "matches conn_Close fl s Writing w c" "write_frame conn_Close w c (fl_payload fl) = (err, w', d)"
  shows "returns_as conn_Close fl s err w' d"
proof -
  from assms(1) obtain as c' where c: "same_but_cancelled c c'"
    and eq: "\<And>rest. SendBatch conn_Close (as @ rest) (s_net s) (s_client s) (fl_payload fl)
           = write_after conn_Close (fl_payload fl) (Some (None, rest, w, c'))"
    by (auto simp: matches_def)
  from write_frame_cancelled [OF assms(2) c] obtain d' where
    "write_frame conn_Close w c' (fl_payload fl) = (err, w', d')" "d = d'\<lparr>ctx_done := ctx_done d\<rparr>" by blast
  with eq [of "[]"] show ?thesis by (auto simp: returns_as_def write_after_def)
qed

lemma returns_closed:
  assumes "matches conn_Close fl s pc w c" "pc = Reconnecting \<or> pc = Waiting" "ctx_done c"
  shows "returns_as conn_Close fl s (Some (closed_error c)) w c"
proof -
  from assms(1) obtain as w' c' where c: "same_but_cancelled c c'"
    and w: "w = (if pc = Waiting then w'\<lparr>timers := timers w' @ [currentBackoff c']\<rparr> else w')"
    and eq: "\<And>rest. SendBatch conn_Close (as @ rest) (s_net s) (s_client s) (fl_payload fl)
           = write_after conn_Close (fl_payload fl) (left_of_send pc rest w' c')"
    unfolding matches_def by blast
  have same: "closed_error c = closed_error c'" "c = c'\<lparr>ctx_done := True\<rparr>" "\<not> ctx_done c'"
    using same_but_cancelled_fields [OF c] c assms(3) by (simp_all add: closed_error_def same_but_cancelled_def)
  show ?thesis
    using assms(2) eq [of "[failed_attempt (pc = Reconnecting) (pc = Waiting)]"] w same
    unfolding returns_as_def
    by (intro exI [of _ "as @ [failed_attempt (pc = Reconnecting) (pc = Waiting)]"] exI [of _ c])
      (auto simp: failed_attempt_def write_after_def)
qed

section \<open>Property\<close>

text \<open>C13: \<open>SendBatch\<close>, however it is interrupted, does what the function \<open>SendBatch\<close> of theory \<open>Session_Client\<close> says. When a
  send that found the context open returns, there is a list of attempts (the outcome of its dials and the moment of a
  cancellation) with which that function, on the sockets and the client as they were at the check, gives the same
  error, the same sockets and timers, and the same client but for a cancellation that came too late to matter; the mutex
  is free, and the flush is booked under that error.\<close>

theorem interrupted_send_refines_SendBatch:
  assumes "sruns unmarshal marshal conn_Close fwd (serve_start queueDepth path) ls s"
    and "mid_send unmarshal marshal conn_Close fwd fl s m"
    and "sstep unmarshal marshal conn_Close fwd m l m'" "\<forall>pc. fpc m' \<noteq> Sending pc fl"
  shows "\<exists>as err w c. SendBatch conn_Close as (s_net s) (s_client s) (fl_payload fl) = Some (err, [], w, c) \<and>
    s_net m' = w \<and> s_client m' = c\<lparr>ctx_done := ctx_done (s_client m')\<rparr> \<and> \<not> mutex m' \<and>
    fs_log (books m') = fs_log (books m) @
      [case err of None \<Rightarrow> BatchSent (length (fl_packets fl)) (distinctFileHashes (fl_packets fl))
       | Some e \<Rightarrow> SendFailed (length (fl_packets fl)) e]"
proof -
  have "live_ok queueDepth s" by (rule live_ok_run [OF assms(1) live_ok_start])
  from mid_send_inv [OF assms(2) this] obtain pc where pc: "fpc m = Sending pc fl" "pc \<noteq> Locking" "pc \<noteq> Checking"
    and match: "matches conn_Close fl s pc (s_net m) (s_client m)" by blast
  have booked: "\<exists>err. returns_as conn_Close fl s err (s_net m') (s_client m') \<and> \<not> mutex m' \<and>
      fs_log (books m') = fs_log (books m) @
        [case err of None \<Rightarrow> BatchSent (length (fl_packets fl)) (distinctFileHashes (fl_packets fl))
         | Some e \<Rightarrow> SendFailed (length (fl_packets fl)) e]"
    using assms(3)
  proof cases
    case (reconnect_closed fl')
    with pc match returns_closed [of conn_Close fl s Reconnecting "s_net m" "s_client m"] show ?thesis
      by (intro exI [of _ "Some (closed_error (s_client m))"]) (simp add: finish_send_def)
  next
    case (wait_closed fl')
    with pc match returns_closed [of conn_Close fl s Waiting "s_net m" "s_client m"] show ?thesis
      by (intro exI [of _ "Some (closed_error (s_client m))"]) (simp add: finish_send_def)
  next
    case (wrote fl' err w c)
    with pc match returns_written [of conn_Close fl s "s_net m" "s_client m" err w c] show ?thesis
      by (intro exI [of _ err]) (auto simp: finish_send_def set_client_def split: option.split)
  qed (use pc assms(4) in \<open>auto simp: set_client_def cancel_def set_books_counters_def\<close>)
  then show ?thesis unfolding returns_as_def by blast
qed

theorem interrupted_send_refines_SendBatch_witness:
  "\<exists>m m'. mid_send unmarshal_packet marshal_batch (\<lambda>c. None) (NewForwarder 1 1 100) demo_flight (demo_sending Checking) m \<and>
     demo_sstep m Work m' \<and> fpc m' = Selecting \<and> \<not> mutex m' \<and>
     (\<exists>as err w c. SendBatch (\<lambda>c. None) as (s_net (demo_sending Checking)) (s_client (demo_sending Checking)) demo_payload
        = Some (err, [], w, c) \<and> s_net m' = w)"
proof -
  let ?mid = "mid_send unmarshal_packet marshal_batch (\<lambda>c. None) (NewForwarder 1 1 100) demo_flight (demo_sending Checking)"
  let ?d = "demo_sending Dialing"
  let ?m = "set_client ((s_net ?d)\<lparr>sockets := sockets (s_net ?d) @ [fresh_conn]\<rparr>)
        ((s_client ?d)\<lparr>connection := Some (length (sockets (s_net ?d))), currentBackoff := initialBackoff\<rparr>)
        (?d\<lparr>fpc := Sending Writing demo_flight\<rparr>)"
  have "?mid ((demo_sending Checking)\<lparr>fpc := Sending Reconnecting demo_flight\<rparr>)"
    using check_passed [OF _ demo_open(2) [of Checking], of demo_flight unmarshal_packet marshal_batch "\<lambda>c. None" "NewForwarder 1 1 100"]
    demo_open(1) [of Checking] by simp
  then have "?mid (demo_sending Reconnecting)" by (simp only: demo_check_passed)
  then have d: "?mid ?d" by (rule mid_step [OF _ demo_dials]) simp
  have "demo_sstep ?d Work ?m" by (rule dial_ok) (simp_all add: fresh_conn_def)
  with d have m: "?mid ?m" by (rule mid_step) (simp add: set_client_def)
  obtain err w c where wr: "write_frame (\<lambda>c. None) (s_net ?m) (s_client ?m) (fl_payload demo_flight) = (err, w, c)"
    by (metis prod_cases3)
  let ?m' = "finish_send err demo_flight (set_client w c ?m)"
  have step: "demo_sstep ?m Work ?m'" using wr by (intro wrote) (simp_all add: set_client_def)
  have fin: "fpc ?m' = Selecting" by (simp add: finish_send_def after_flush_def demo_flight_def split: option.split)
  from interrupted_send_refines_SendBatch [OF demo_checking_run m step] fin
  have "\<not> mutex ?m' \<and> (\<exists>as err w c. SendBatch (\<lambda>c. None) as (s_net (demo_sending Checking)) (s_client (demo_sending Checking))
      (fl_payload demo_flight) = Some (err, [], w, c) \<and> s_net ?m' = w)" by auto
  with m step fin show ?thesis by (intro exI [of _ ?m] exI [of _ ?m']) (simp add: demo_flight_def)
qed

end
