(* ===== verification/Spec2Isabelle.thy ===== *)
theory Spec2Isabelle
  imports End_To_End Monitor_Faults Hosts Session_Delivery Helper_Link Sender_Process Helper_Process Receiver_Boot Receiver_Pools Receiver_Shutdown Send_Refinement
begin

text \<open>
  UniFlow: verification of a one-way UDP file transfer.

  \<^bold>\<open>The program.\<close> A file monitor (Python) hands files to sender processes (Go), which cut a file into blocks of
  134400 bytes, encode each block into 150 Reed-Solomon symbols (100 data, 50 parity), and send the symbols as
  checksummed protobuf packets over UDP. Several senders share the work through a counter file. Receiver processes
  (Go) filter the datagrams and forward the valid packets in batches over a Unix socket to the session manager
  (Python), which pools the symbols per block, has \<open>rs_helper\<close> (Go) reconstruct each block from any 100 symbols, and
  puts the file together. Nothing flows back from receiver to sender.

  \<^bold>\<open>Theories and code.\<close>
  \<^item> \<open>Prelude\<close>: byte and integer types, errors, \<open>fmt\<close> formatting, slices; \<open>Binary\<close>: package \<open>encoding/binary\<close>;
    \<open>Crc32\<close>: package \<open>hash/crc32\<close>; \<open>Config\<close>: the three constant packages.
  \<^item> \<open>Packets\<close>: \<open>senders/internal/pb/packet.go\<close>, \<open>common/integrity\<close> and the generated \<open>Packet\<close> message.
  \<^item> \<open>Erasure\<close>: \<open>common/codec\<close>, \<open>common/erasure\<close>, \<open>senders/internal/erasure\<close>, and the contracts \<open>rs_code\<close> and
    \<open>rs_library\<close> of the external Reed-Solomon package; \<open>Galois\<close> and \<open>Reed_Solomon\<close>: a code over GF(256) that meets them;
    \<open>Block_Coding\<close>: the properties of encoding and decoding.
  \<^item> \<open>Proto\<close>: the contract \<open>proto_codec\<close> of the protobuf package and the proto3 wire format; \<open>Framing\<close>: stream connections and
    length-prefixed frames, the contract \<open>framing\<close>; \<open>Wire\<close>: the codecs of the repository's messages.
  \<^item> \<open>Reader\<close>: \<open>senders/internal/reader\<close>; \<open>Counter\<close>: \<open>senders/internal/counter\<close>; \<open>Counter_Processes\<close>: the same functions
    interleaved across processes; \<open>Sender\<close>: the task loop of \<open>senders/cmd/sender\<close>; \<open>Sender_Ipc\<close>:
    \<open>senders/internal/IPC\<close>; \<open>Sender_Process\<close>: start, connections and task channel of a sender.
  \<^item> \<open>Stats\<close>, \<open>Session_Client\<close>, \<open>Forwarder\<close>, \<open>Receiver\<close>: the packages of \<open>receivers/internal\<close> and \<open>receivers/cmd\<close>;
    \<open>Receiver_Boot\<close>: the start of the receiver and its flag values; \<open>Receiver_Pools\<close>: its recycled packets and
    buffers; \<open>Receiver_Live\<close>: the same process in smaller steps, with the client's mutex, context and blocking calls, and the grace
    timer; \<open>Send_Refinement\<close>: that these steps do what the function \<open>SendBatch\<close> does; \<open>Receiver_Shutdown\<close>: how it ends.
  \<^item> \<open>Rs_Helper\<close>: \<open>session-manager/rs_helper\<close>; \<open>Helper_Process\<close>: its accept loop and concurrent connections.
  \<^item> \<open>Unix_Socket\<close>: what the programs use of the operating system to listen on a socket.
  \<^item> \<open>Links\<close>: properties that join both ends of a link, and complete runs.
  \<^item> \<open>Transmission\<close>: the sender processes together, and what loss in transit does to a group.
  \<^item> \<open>Session_Manager\<close>: the objects of \<open>session-manager/src\<close> (\<open>aggregator.py\<close>, \<open>batch_handler.py\<close>, \<open>block_assembler.py\<close>,
    \<open>rs_client.py\<close>, \<open>file_tracker.py\<close>, \<open>file_writer.py\<close>, \<open>integrity.py\<close>, \<open>receiver_server.py\<close>), one function per handler;
    \<open>Session_Pipeline\<close>: the connection threads that run them; \<open>Session_Delivery\<close>: what reaches the disk;
    \<open>Helper_Link\<close>: both ends of the link to \<open>rs_helper\<close>.
  \<^item> \<open>File_Monitor\<close>: hash, watcher and orchestrator of \<open>file-monitor/src\<close>; \<open>Monitor_Link\<close>: \<open>ipc_manager.py\<close> and the event
    loop, over non-blocking sockets, up to the sender; \<open>Monitor_Faults\<close>: heartbeats, full buffers and dead senders on these links.
  \<^item> \<open>Hosts\<close>: the two \<open>main.py\<close>, their configuration, and the listening side of \<open>receiver_server.py\<close>.
  \<^item> \<open>End_To_End\<close>: all of it together, from the inbox to the output directory.

  \<^bold>\<open>State and effects.\<close> A Go struct is a record, an enum a datatype, \<open>uint32\<close> and \<open>uint64\<close> are words of that width. A
  function that returns an error returns a sum with the error on the left; the error keeps its format string and
  arguments. System calls take their outcome from an argument (\<open>init_env\<close>, \<open>count_env\<close>, \<open>attempt\<close>, \<open>tx_fault\<close>).
  Goroutines and processes that run concurrently are step relations (\<open>rstep\<close>, \<open>cstep\<close>, \<open>sm_step\<close>,
  \<open>mstep\<close>, \<open>pstep\<close>, \<open>sstep\<close>, \<open>sender_step\<close>, \<open>helper_step\<close>,
  \<open>link_step\<close>, \<open>server_step\<close>) whose steps are
  the pieces of code between two points at which another one can interfere. External packages (Reed-Solomon,
  protobuf, mmap, SHA-256) are parameters with their documented behaviour as locales; every locale is interpreted.

  \<^bold>\<open>What is shown.\<close>
  \<^item> Coding: any 100 of the 150 symbols give the block back, wrong input is rejected, the three encoders agree.
  \<^item> Checksum: sender and receiver compute the same function; damage within four bytes is always found.
  \<^item> Links: frames and messages are read back in order; a broken connection tears no batch; every packet fits
    its datagram and passes the receiver's filter unchanged.
  \<^item> Sender: blocks are the file, claims of concurrent senders are consecutive, symbols are interleaved, tasks are run
    one at a time and in order; what a heartbeat can report too early.
  \<^item> Receiver: the accounting equation of the counters, order and validity of what is forwarded, bounds of queue and
    batches, under every interleaving, also with a batch on its way; recycling storage refines this receiver; shutdown terminates after the grace
    period, except behind a write that the session manager does not read.
  \<^item> \<open>rs_helper\<close>: concurrent connections are served independently of each other.
  \<^item> Session manager: the batches acknowledged are the batches read, a block is handed over once, only files that match
    their hash are written; and from the sender's blocks to the file writer, over any order, repetition and loss of packets:
    the files delivered are the files sent, each once, and a file arrives when 100 symbols of each block do.
  \<^item> File monitor: tasks go to idle senders, a large file to each sender at most once, under a hash that the session
    manager's check accepts; the loop over the sockets refines the orchestrator, and senders take the tasks assigned to them, in order, unless
    a send was cut short (which loses a task). A sender that ends stops the monitor.
  \<^item> The whole: the files written are files that were watched, unchanged, under their hash, none twice.

  \<^bold>\<open>Bounds.\<close> Loops whose end the environment decides have no fuel: the reconnect loop consumes a list of attempts and
  the claim loop a list of counts, their result is \<open>None\<close> while the list does not suffice, and a theorem says which lists
  do. All other loops are total functions. Sizes: frames below \<open>2 ^ 32\<close> bytes, messages below
  \<open>2 ^ 31\<close> (the protobuf limit), files of fewer than \<open>2 ^ 32 - 8\<close> blocks.

  \<^bold>\<open>Not modelled.\<close> The syntax of flags, socket options, timers as real time (a timer may
  fire at any moment), the text of log lines that no later step reads, the reflection part
  of the generated protobuf code, and what a subprocess, a selector or inotify does
  inside. These are calls into the operating system, whose outcome the models take as input. A file
  is taken not to change while the watcher handles its event.
\<close>

end
